(* ===== verification/Livly_Prelude.thy ===== *)
theory Livly_Prelude
  imports Main "HOL-Library.Word"
begin

text \<open>
  The prelude of the LivlyOS development: the machine integer types of
  \<^verbatim>\<open>src/src/lib/stlib/types.h\<close>, the two shapes of counting loop the kernel's C code uses
  (\<open>for_range\<close> for a loop that runs to its bound, \<open>find_range\<close> for a search with an early
  exit) with their induction rules, and the generic facts on words, lists and sets the
  components share.  The collection \<open>word_nat\<close> moves word arithmetic to \<open>nat\<close>.
\<close>

unbundle bit_operations_syntax

named_theorems word_nat "rules that move a word comparison or operation to nat"

section \<open>Machine integers\<close>

type_synonym u8 = "8 word"
type_synonym u16 = "16 word"
type_synonym u32 = "32 word"
type_synonym u64 = "64 word"

lemmas word_to_nat [word_nat] = word_less_nat_alt word_le_nat_alt unat_div unat_mod

lemma unat_plus_one:
  fixes a b :: "'w::len word"
  assumes "a < b"
  shows "unat (a + 1) = Suc (unat a)"
proof -
  have "unat a < unat b" using assms by (simp add: word_nat)
  then have "Suc (unat a) < 2 ^ LENGTH('w)"
    using unsigned_less [of b, where 'a = nat] by linarith
  then show ?thesis by (simp add: unat_word_ariths)
qed

lemma plus_one_le_iff:
  fixes a b v :: "'w::len word"
  assumes "a < b"
  shows "a + 1 \<le> v \<longleftrightarrow> a \<le> v \<and> v \<noteq> a"
proof -
  have "unat (a + 1) = Suc (unat a)" by (rule unat_plus_one [OF assms])
  then have "a + 1 \<le> v \<longleftrightarrow> unat a < unat v" by (simp add: word_le_nat_alt Suc_le_eq)
  then show ?thesis by (auto simp: word_le_nat_alt word_unat_eq_iff)
qed

lemma unat_add_fits:
  fixes a b :: "'w::len word"
  assumes "unat a + unat b < 2 ^ LENGTH('w)"
  shows "unat (a + b) = unat a + unat b"
  using assms by (simp add: unat_word_ariths)

lemma unat_mult_fits:
  fixes a b :: "'w::len word"
  assumes "unat a * unat b < 2 ^ LENGTH('w)"
  shows "unat (a * b) = unat a * unat b"
  using assms by (simp add: unat_word_ariths)

lemma unat_sub_le:
  fixes a b :: "'w::len word"
  assumes "unat b \<le> unat a"
  shows "unat (a - b) = unat a - unat b"
  using assms by (simp add: unat_sub word_le_nat_alt)

lemma unat_of_nat_fits: "n < 2 ^ LENGTH('w::len) \<Longrightarrow> unat (of_nat n :: 'w word) = n"
  by (simp add: unat_of_nat)

lemma unat_of_nat_below: "n \<le> unat (m::'w::len word) \<Longrightarrow> unat (of_nat n :: 'w word) = n"
  by (rule unat_of_nat_fits) (erule le_less_trans, rule unsigned_less)

lemma unat_pred: "0 < unat (n::'w::len word) \<Longrightarrow> unat (n - 1) = unat n - 1"
  by (subst unat_sub_le) auto

lemma unat_ucast_up:
  assumes "LENGTH('a::len) \<le> LENGTH('b::len)"
  shows "unat (ucast (w :: 'a word) :: 'b word) = unat w"
proof -
  have "unat w < 2 ^ LENGTH('a)" by (rule unsigned_less)
  also have "(2 :: nat) ^ LENGTH('a) \<le> 2 ^ LENGTH('b)" using assms by simp
  finally show ?thesis by (simp add: unsigned_ucast_eq take_bit_word_eq_self take_bit_nat_eq_self)
qed

lemma low_bit_zero_iff: "drop_bit k (w::'w::len word) AND 1 = 0 \<longleftrightarrow> \<not> bit w k"
  by (simp add: and_one_eq bit_iff_odd_drop_bit even_iff_mod_2_eq_zero)

section \<open>Counting loops\<close>

text \<open>\<^verbatim>\<open>for (p = lo; p < hi; p++) s = f(p, s);\<close> over a machine integer \<^verbatim>\<open>p\<close>.\<close>

function for_range :: "'w::len word \<Rightarrow> 'w word \<Rightarrow> ('w word \<Rightarrow> 's \<Rightarrow> 's) \<Rightarrow> 's \<Rightarrow> 's" where
  "for_range lo hi f s = (if lo < hi then for_range (lo + 1) hi f (f lo s) else s)"
  by pat_completeness auto
termination
  by (relation "measure (\<lambda>(lo, hi, f, s). unat hi - unat lo)")
     (auto simp: unat_plus_one word_less_nat_alt)

declare for_range.simps [simp del]

lemma for_range_empty: "\<not> lo < hi \<Longrightarrow> for_range lo hi f s = s"
  by (simp add: for_range.simps)

lemma for_range_step: "lo < hi \<Longrightarrow> for_range lo hi f s = for_range (lo + 1) hi f (f lo s)"
  by (simp add: for_range.simps)

text \<open>
  The loop rule: an invariant of the counter (read as a natural number) that the body carries
  from \<open>n\<close> to \<open>Suc n\<close> holds at the bound.
\<close>

lemma for_range_inv:
  assumes "I (unat lo) s" and "lo \<le> hi"
    and "\<And>w s. lo \<le> w \<Longrightarrow> w < hi \<Longrightarrow> I (unat w) s \<Longrightarrow> I (Suc (unat w)) (f w s)"
  shows "I (unat hi) (for_range lo hi f s)"
  using assms
proof (induction lo hi f s rule: for_range.induct)
  case (1 lo hi f s)
  show ?case
  proof (cases "lo < hi")
    case True
    have suc: "unat (lo + 1) = Suc (unat lo)" by (rule unat_plus_one [OF True])
    have "I (unat hi) (for_range (lo + 1) hi f (f lo s))"
    proof (rule "1.IH" [OF True])
      show "I (unat (lo + 1)) (f lo s)"
        unfolding suc by (rule "1.prems"(3)) (use True "1.prems" in auto)
      show "lo + 1 \<le> hi" using True suc by (simp add: word_nat)
      show "I (Suc (unat w)) (f w s')"
        if "lo + 1 \<le> w" "w < hi" "I (unat w) s'" for w s'
      proof (rule "1.prems"(3) [OF _ that(2,3)])
        show "lo \<le> w" using that(1) suc by (simp add: word_nat)
      qed
    qed
    then show ?thesis by (simp add: for_range_step [OF True])
  next
    case False
    with "1.prems" have "lo = hi" by simp
    with False "1.prems" show ?thesis by (simp add: for_range_empty)
  qed
qed

text \<open>A property every round of the body keeps is kept by the loop.\<close>

lemma for_range_keeps:
  assumes "P s" and "\<And>w s. lo \<le> w \<Longrightarrow> w < hi \<Longrightarrow> P s \<Longrightarrow> P (f w s)"
  shows "P (for_range lo hi f s)"
proof (cases "lo \<le> hi")
  case True
  show ?thesis
    using for_range_inv [of "\<lambda>_. P" lo s hi f] assms True by blast
next
  case False
  then show ?thesis using assms(1) by (simp add: for_range_empty)
qed

text \<open>
  \<^verbatim>\<open>for (i = lo; i < hi; i++) if (P(i)) return i;\<close>: the first hit, \<open>None\<close> when there is none.
\<close>

function find_range :: "('w::len word \<Rightarrow> bool) \<Rightarrow> 'w word \<Rightarrow> 'w word \<Rightarrow> 'w word option" where
  "find_range P lo hi =
     (if lo < hi then if P lo then Some lo else find_range P (lo + 1) hi else None)"
  by pat_completeness auto
termination
  by (relation "measure (\<lambda>(P, lo, hi). unat hi - unat lo)")
     (auto simp: unat_plus_one word_less_nat_alt)

declare find_range.simps [simp del]

lemma find_range_Some:
  "find_range P lo hi = Some w \<Longrightarrow>
     lo \<le> w \<and> w < hi \<and> P w \<and> (\<forall>v. lo \<le> v \<longrightarrow> v < w \<longrightarrow> \<not> P v)"
proof (induction P lo hi rule: find_range.induct)
  case (1 P lo hi)
  show ?case
  proof (cases "lo < hi \<and> \<not> P lo")
    case True
    then have IH: "lo + 1 \<le> w \<and> w < hi \<and> P w \<and> (\<forall>v. lo + 1 \<le> v \<longrightarrow> v < w \<longrightarrow> \<not> P v)"
      using "1.IH" "1.prems" by (simp add: find_range.simps [of P lo hi])
    have "lo + 1 \<le> v \<longleftrightarrow> lo \<le> v \<and> v \<noteq> lo" for v
      using True plus_one_le_iff by blast
    then show ?thesis using IH True by blast
  next
    case False
    then show ?thesis using "1.prems"
      by (auto simp: find_range.simps [of P lo hi] split: if_splits)
  qed
qed

lemma find_range_None:
  "find_range P lo hi = None \<longleftrightarrow> (\<forall>v. lo \<le> v \<longrightarrow> v < hi \<longrightarrow> \<not> P v)"
proof (induction P lo hi rule: find_range.induct)
  case (1 P lo hi)
  show ?case
  proof (cases "lo < hi \<and> \<not> P lo")
    case True
    have "lo + 1 \<le> v \<longleftrightarrow> lo \<le> v \<and> v \<noteq> lo" for v
      using True plus_one_le_iff by blast
    then show ?thesis using True "1.IH" by (auto simp: find_range.simps [of P lo hi])
  next
    case False
    then show ?thesis by (auto simp: find_range.simps [of P lo hi])
  qed
qed

lemma find_range_first:
  assumes "lo \<le> w" "w < hi" "P w" "\<And>v. lo \<le> v \<Longrightarrow> v < w \<Longrightarrow> \<not> P v"
  shows "find_range P lo hi = Some w"
proof (cases "find_range P lo hi")
  case None
  then show ?thesis using assms by (simp add: find_range_None)
next
  case (Some v)
  from find_range_Some [OF this] assms show ?thesis
    using Some by (metis linorder_neqE)
qed

section \<open>Counting sets\<close>

lemma card_filter_remove:
  assumes "finite A" and "a \<in> A"
  shows "card (A - {a}) = card A - 1" and "0 < card A"
  using assms by (auto simp: card_gt_0_iff)

end
