(* ===== verification/Allocator.thy ===== *)
theory Allocator
  imports Livly_Prelude
begin

text \<open>
  The contract the kernel's two allocators promise to their callers: the page allocator of
  \<^verbatim>\<open>src/src/mm/pmm.c\<close> and the heap of \<^verbatim>\<open>src/src/mm/kmalloc.c\<close> both hand out addresses that
  are not handed out already, report exhaustion with a fixed value, and take an address back.
  The callers (\<^verbatim>\<open>process.c\<close>, \<^verbatim>\<open>vmm.c\<close>, \<^verbatim>\<open>stress_test.c\<close>) rely on nothing else, so what they
  need is proved here once and holds for both by interpretation.
\<close>

section \<open>Sequences of requests\<close>

text \<open>A caller's loop \<^verbatim>\<open>for (i...) p[i] = alloc(r[i])\<close> and its counterpart that frees them.\<close>

fun alloc_many :: "('r \<Rightarrow> 's \<Rightarrow> ('s \<times> u64) option) \<Rightarrow> 'r list \<Rightarrow> 's \<Rightarrow> ('s \<times> u64 list) option" where
  "alloc_many alloc [] s = Some (s, [])"
| "alloc_many alloc (r # rs) s =
     (case alloc r s of None \<Rightarrow> None
      | Some (s', a) \<Rightarrow>
          (case alloc_many alloc rs s' of None \<Rightarrow> None
           | Some (s'', as) \<Rightarrow> Some (s'', a # as)))"

fun free_many :: "(u64 \<Rightarrow> 's \<Rightarrow> 's option) \<Rightarrow> u64 list \<Rightarrow> 's \<Rightarrow> 's option" where
  "free_many free [] s = Some s"
| "free_many free (a # as) s =
     (case free a s of None \<Rightarrow> None | Some s' \<Rightarrow> free_many free as s')"

section \<open>The interface\<close>

locale allocator =
  fixes alloc :: "'r \<Rightarrow> 's \<Rightarrow> ('s \<times> u64) option"
    and free :: "u64 \<Rightarrow> 's \<Rightarrow> 's option"
    and inv :: "'s \<Rightarrow> bool"
    and live :: "'s \<Rightarrow> u64 set"
    and fail :: u64
  assumes alloc_returns: "inv s \<Longrightarrow> \<exists>s' a. alloc r s = Some (s', a)"
    and alloc_inv: "inv s \<Longrightarrow> alloc r s = Some (s', a) \<Longrightarrow> inv s'"
    and alloc_fail: "inv s \<Longrightarrow> alloc r s = Some (s', fail) \<Longrightarrow> s' = s"
    and alloc_fresh: "inv s \<Longrightarrow> alloc r s = Some (s', a) \<Longrightarrow> a \<noteq> fail \<Longrightarrow>
      a \<notin> live s \<and> live s' = insert a (live s)"
    and free_live: "inv s \<Longrightarrow> a \<in> live s \<Longrightarrow>
      \<exists>s'. free a s = Some s' \<and> inv s' \<and> live s' = live s - {a}"
begin

lemma alloc_many_returns:
  "inv s \<Longrightarrow> \<exists>s' as. alloc_many alloc rs s = Some (s', as) \<and> inv s' \<and> length as = length rs"
proof (induction rs arbitrary: s)
  case Nil
  then show ?case by simp
next
  case (Cons r rs)
  from alloc_returns [OF Cons.prems, of r] obtain s1 a where a: "alloc r s = Some (s1, a)" by blast
  from Cons.IH [OF alloc_inv [OF Cons.prems a]] a show ?case by auto
qed

text \<open>Addresses handed out are pairwise distinct, were not live before and are live after.\<close>

lemma alloc_many_fresh:
  "inv s \<Longrightarrow> alloc_many alloc rs s = Some (s', as) \<Longrightarrow> fail \<notin> set as \<Longrightarrow>
     distinct as \<and> set as \<inter> live s = {} \<and> live s' = live s \<union> set as"
proof (induction rs arbitrary: s as)
  case (Cons r rs)
  from Cons.prems(2) obtain s1 a as1 where a: "alloc r s = Some (s1, a)"
    and as1: "alloc_many alloc rs s1 = Some (s', as1)" and as: "as = a # as1"
    by (auto split: option.splits prod.splits)
  have "a \<notin> live s" "live s1 = insert a (live s)"
    using alloc_fresh [OF Cons.prems(1) a] Cons.prems(3) as by auto
  with Cons.IH [OF alloc_inv [OF Cons.prems(1) a] as1] Cons.prems(3) show ?case
    unfolding as by auto
qed simp

lemma free_many_live:
  "inv s \<Longrightarrow> distinct as \<Longrightarrow> set as \<subseteq> live s \<Longrightarrow>
     \<exists>s'. free_many free as s = Some s' \<and> inv s' \<and> live s' = live s - set as"
proof (induction as arbitrary: s)
  case (Cons a as)
  from free_live [OF Cons.prems(1), of a] Cons.prems(3) obtain s1
    where s1: "free a s = Some s1" "inv s1" "live s1 = live s - {a}" by auto
  have "live s - insert a (set as) = live s - {a} - set as" by blast
  with Cons.IH [of s1] Cons.prems s1 show ?case by auto
qed simp

text \<open>Allocating and then freeing everything leaves the same addresses live.\<close>

lemma alloc_free_many:
  assumes "inv s" and "alloc_many alloc rs s = Some (s', as)" and "fail \<notin> set as"
  shows "\<exists>t. free_many free as s' = Some t \<and> inv t \<and> live t = live s"
proof -
  note fresh = alloc_many_fresh [OF assms]
  have "inv s'" using alloc_many_returns [OF assms(1), of rs] assms(2) by auto
  from free_many_live [OF this, of as] fresh obtain t
    where "free_many free as s' = Some t" "inv t" "live t = live s' - set as" by blast
  then show ?thesis using fresh by blast
qed

end

text \<open>
  An allocator that also counts what is left: a request succeeds exactly while something is
  left, and takes one unit.
\<close>

locale counting_allocator = allocator alloc free inv live fail
  for alloc :: "'r \<Rightarrow> 's \<Rightarrow> ('s \<times> u64) option"
    and free :: "u64 \<Rightarrow> 's \<Rightarrow> 's option"
    and inv :: "'s \<Rightarrow> bool" and live :: "'s \<Rightarrow> u64 set" and fail :: u64 +
  fixes avail :: "'s \<Rightarrow> nat"
  assumes alloc_avail: "inv s \<Longrightarrow> alloc r s = Some (s', a) \<Longrightarrow>
      (if avail s = 0 then a = fail else a \<noteq> fail \<and> avail s' = avail s - 1)"
    and free_avail: "inv s \<Longrightarrow> a \<in> live s \<Longrightarrow> free a s = Some s' \<Longrightarrow> avail s' = avail s + 1"
begin

lemma alloc_many_avail:
  "inv s \<Longrightarrow> alloc_many alloc rs s = Some (s', as) \<Longrightarrow> length rs \<le> avail s \<Longrightarrow>
     fail \<notin> set as \<and> avail s' = avail s - length rs"
proof (induction rs arbitrary: s as)
  case (Cons r rs)
  from Cons.prems(2) obtain s1 a as1 where a: "alloc r s = Some (s1, a)"
    and as1: "alloc_many alloc rs s1 = Some (s', as1)" and as: "as = a # as1"
    by (auto split: option.splits prod.splits)
  from alloc_avail [OF Cons.prems(1) a] Cons.prems(3)
  have "a \<noteq> fail" "avail s1 = avail s - 1" by (auto split: if_splits)
  with Cons.IH [OF alloc_inv [OF Cons.prems(1) a] as1] Cons.prems(3) as show ?case by auto
qed simp

lemma free_many_avail:
  "inv s \<Longrightarrow> distinct as \<Longrightarrow> set as \<subseteq> live s \<Longrightarrow> free_many free as s = Some s' \<Longrightarrow>
     avail s' = avail s + length as"
proof (induction as arbitrary: s)
  case (Cons a as)
  from free_live [OF Cons.prems(1), of a] Cons.prems(3) obtain s1
    where s1: "free a s = Some s1" "inv s1" "live s1 = live s - {a}" by auto
  have "avail s1 = avail s + 1" using free_avail [OF Cons.prems(1) _ s1(1)] Cons.prems(3) by simp
  with Cons.IH [of s1] Cons.prems s1 show ?case by auto
qed simp

lemma alloc_free_many_avail:
  assumes "inv s" and "alloc_many alloc rs s = Some (s', as)" and "length rs \<le> avail s"
    and "free_many free as s' = Some t"
  shows "avail t = avail s"
proof -
  note av = alloc_many_avail [OF assms(1-3)]
  note fresh = alloc_many_fresh [OF assms(1,2) conjunct1 [OF av]]
  have "inv s'" and len: "length as = length rs"
    using alloc_many_returns [OF assms(1), of rs] assms(2) by auto
  from free_many_avail [OF this(1) _ _ assms(4)] fresh av assms(3) len
  show ?thesis by simp
qed

end

end
