(* ===== verification/Boot_Info.thy ===== *)
theory Boot_Info
  imports Livly_Prelude
begin

text \<open>
  The data the bootloader hands to the kernel, \<^verbatim>\<open>src/src/kernel/kernel.h\<close>: the boot information
  block and the entries of the E820 memory map.  The map itself lies in memory at
  \<^verbatim>\<open>e820_map_addr\<close>; the functions that read it take it as a list of entries.
\<close>

record E820Entry =
  base :: u64
  length_of :: u64
  e_type :: u32
  attrib :: u32

record BootInfo =
  e820_count :: u16
  e820_map_addr :: u32
  total_ram_kb :: u32
  ram_source :: u8
  kernel_addr :: u32
  kernel_mem_ok :: u8
  cpu_flags :: u8
  kernel_size :: u32
  fb_addr :: u32
  fb_width :: u16
  fb_height :: u16
  fb_pitch :: u16
  fb_bpp :: u8
  boot_type :: u8
  video_modes_addr :: u32
  video_modes_count :: u16
  current_mode_idx :: u16

abbreviation E820_FREE :: u32 where "E820_FREE \<equiv> 1"
abbreviation E820_RESERVED :: u32 where "E820_RESERVED \<equiv> 2"
abbreviation E820_ACPI :: u32 where "E820_ACPI \<equiv> 3"
abbreviation E820_NVS :: u32 where "E820_NVS \<equiv> 4"
abbreviation E820_DEFEKT :: u32 where "E820_DEFEKT \<equiv> 5"

text \<open>The entries a loop \<^verbatim>\<open>for (int i = 0; i < info->e820_count; i++)\<close> visits.\<close>

definition e820_entries :: "BootInfo \<Rightarrow> E820Entry list \<Rightarrow> E820Entry list" where
  "e820_entries info m = take (unat (e820_count info)) m"

end
