(* ===== verification/Pmm.thy ===== *)
theory Pmm
  imports Allocator Boot_Info
begin

text \<open>
  The physical page allocator, \<^verbatim>\<open>src/src/mm/pmm.c\<close>.  The record \<open>pmm\<close> holds the file's static
  variables; the bitmap is the list of its bytes.  \<open>free_set\<close> is the abstraction: the numbers of
  the pages whose bit is clear.  The first part translates the code, the second relates each
  operation to \<open>free_set\<close> and shows that \<open>free_pages\<close> counts it (\<open>pmm_inv\<close>), the last part
  interprets the allocator contract.
\<close>

section \<open>State and operations\<close>

abbreviation PAGE_SIZE :: u64 where "PAGE_SIZE \<equiv> 4096"
abbreviation HEAP_SIZE :: u64 where "HEAP_SIZE \<equiv> 0x100000"
abbreviation OUT_OF_MEMORY :: u64 where "OUT_OF_MEMORY \<equiv> 0xFFFFFFFFFFFFFFFF"

record pmm =
  bitmap :: "u8 list"
  max_pages :: u64
  total_pages :: u64
  free_pages :: u64
  pmm_bitmap_end :: u64

definition bit_setzen :: "u64 \<Rightarrow> pmm \<Rightarrow> pmm" where
  "bit_setzen page s =
     (if page \<ge> max_pages s then s
      else s\<lparr>bitmap := (bitmap s)[unat (page div 8) :=
              bitmap s ! unat (page div 8) OR push_bit (unat (page mod 8)) 1]\<rparr>)"

definition bit_loeschen :: "u64 \<Rightarrow> pmm \<Rightarrow> pmm" where
  "bit_loeschen page s =
     (if page \<ge> max_pages s then s
      else s\<lparr>bitmap := (bitmap s)[unat (page div 8) :=
              bitmap s ! unat (page div 8) AND NOT (push_bit (unat (page mod 8)) 1)]\<rparr>)"

definition bit_lesen :: "u64 \<Rightarrow> pmm \<Rightarrow> u8" where
  "bit_lesen page s =
     (if page \<ge> max_pages s then 1
      else drop_bit (unat (page mod 8)) (bitmap s ! unat (page div 8)) AND 1)"

definition reserve_page :: "u64 \<Rightarrow> pmm \<Rightarrow> pmm" where
  "reserve_page p s =
     bit_setzen p (if bit_lesen p s = 0 then s\<lparr>free_pages := free_pages s - 1\<rparr> else s)"

definition pmm_reserve_range :: "u64 \<Rightarrow> u64 \<Rightarrow> pmm \<Rightarrow> pmm" where
  "pmm_reserve_range addr len s =
     (let start = addr div PAGE_SIZE;
          last = (addr + len + PAGE_SIZE - 1) div PAGE_SIZE
      in for_range start (min last (max_pages s)) reserve_page s)"

definition pmm_alloc :: "pmm \<Rightarrow> pmm \<times> u64" where
  "pmm_alloc s =
     (case find_range (\<lambda>i. bit_lesen i s = 0) 1 (max_pages s) of
        Some i \<Rightarrow> (let s = bit_setzen i s in (s\<lparr>free_pages := free_pages s - 1\<rparr>, i * PAGE_SIZE))
      | None \<Rightarrow> (s, OUT_OF_MEMORY))"

definition pmm_free :: "u64 \<Rightarrow> pmm \<Rightarrow> pmm" where
  "pmm_free adresse s =
     (let page = adresse div PAGE_SIZE
      in if page = 0 \<or> page \<ge> max_pages s then s
         else if bit_lesen page s = 0 then s
         else (let s = bit_loeschen page s in s\<lparr>free_pages := free_pages s + 1\<rparr>))"

subsection \<open>Initialisation\<close>

text \<open>The first loop of \<^verbatim>\<open>pmm_init\<close>: the highest end address of the map.\<close>

fun highest_addr :: "E820Entry list \<Rightarrow> u64 \<Rightarrow> u64" where
  "highest_addr [] h = h"
| "highest_addr (e # es) h =
     (let top = base e + length_of e in highest_addr es (if top \<ge> h then top else h))"

definition release_page :: "u64 \<Rightarrow> pmm \<Rightarrow> pmm" where
  "release_page p s =
     (let s = bit_loeschen p s
      in s\<lparr>total_pages := total_pages s + 1, free_pages := free_pages s + 1\<rparr>)"

definition entry_start :: "E820Entry \<Rightarrow> u64" where
  "entry_start e = (base e + PAGE_SIZE - 1) div PAGE_SIZE"

definition entry_end :: "E820Entry \<Rightarrow> u64" where
  "entry_end e = (base e + length_of e) div PAGE_SIZE"

text \<open>The loop of stage 2a over the map: free every full page of every free entry.\<close>

fun release_entries :: "E820Entry list \<Rightarrow> pmm \<Rightarrow> pmm" where
  "release_entries [] s = s"
| "release_entries (e # es) s =
     (if e_type e \<noteq> E820_FREE then release_entries es s
      else if entry_start e \<ge> max_pages s then release_entries es s
      else (let last = (if entry_end e > max_pages s then max_pages s else entry_end e)
            in release_entries es (for_range (entry_start e) last release_page s)))"

text \<open>\<^verbatim>\<open>(x + PAGE_SIZE - 1) & ~(uint64_t)(PAGE_SIZE - 1)\<close>\<close>

definition page_align_up :: "u64 \<Rightarrow> u64" where
  "page_align_up x = (x + PAGE_SIZE - 1) AND NOT (PAGE_SIZE - 1)"

text \<open>
  \<open>kernel_end\<close> is the address of the linker's symbol \<^verbatim>\<open>__kernel_end\<close>; \<open>m\<close> is the array at
  \<^verbatim>\<open>info->e820_map_addr\<close>.
\<close>

definition pmm_init :: "u64 \<Rightarrow> BootInfo \<Rightarrow> E820Entry list \<Rightarrow> pmm" where
  "pmm_init kernel_end info m =
     (let es = e820_entries info m;
          highest = highest_addr es 0;
          mp = (highest + PAGE_SIZE - 1) div PAGE_SIZE;
          bitmap_bytes = (mp + 7) div 8;
          bitmap_addr = page_align_up kernel_end;
          bitmap_end = page_align_up (bitmap_addr + bitmap_bytes);
          s = \<lparr>bitmap = replicate (unat bitmap_bytes) 0xFF, max_pages = mp,
               total_pages = 0, free_pages = 0, pmm_bitmap_end = bitmap_end\<rparr>;
          s = release_entries es s;
          s = pmm_reserve_range 0x0 PAGE_SIZE s;
          s = pmm_reserve_range 0x1000 (3 * PAGE_SIZE) s;
          s = pmm_reserve_range 0x100000 (page_align_up (ucast (kernel_size info))) s;
          s = pmm_reserve_range bitmap_addr (bitmap_end - bitmap_addr) s
      in pmm_reserve_range bitmap_end HEAP_SIZE s)"

definition pmm_get_free_pages :: "pmm \<Rightarrow> u64" where
  "pmm_get_free_pages s = free_pages s"

definition pmm_get_total_pages :: "pmm \<Rightarrow> u64" where
  "pmm_get_total_pages s = total_pages s"

section \<open>Abstraction and invariant\<close>

definition page_used :: "pmm \<Rightarrow> nat \<Rightarrow> bool" where
  "page_used s p \<longleftrightarrow> bit (bitmap s ! (p div 8)) (p mod 8)"

definition free_set :: "pmm \<Rightarrow> nat set" where
  "free_set s = {p. p < unat (max_pages s) \<and> \<not> page_used s p}"

text \<open>Every page number has its bit in the bitmap.\<close>

definition pmm_wf :: "pmm \<Rightarrow> bool" where
  "pmm_wf s \<longleftrightarrow> unat (max_pages s) \<le> 8 * length (bitmap s) \<and> unat (max_pages s) < 2 ^ 52"

definition pmm_inv :: "pmm \<Rightarrow> bool" where
  "pmm_inv s \<longleftrightarrow> pmm_wf s \<and> unat (free_pages s) = card (free_set s)"

lemma free_set_less: "p \<in> free_set s \<Longrightarrow> p < unat (max_pages s)"
  by (simp add: free_set_def)

lemma finite_free_set [simp]: "finite (free_set s)"
  by (simp add: free_set_def)

lemma card_free_set: "card (free_set s) \<le> unat (max_pages s)"
proof -
  have "free_set s \<subseteq> {..<unat (max_pages s)}" by (auto simp: free_set_def)
  from card_mono [OF _ this] show ?thesis by simp
qed

lemma free_set_cong [simp]:
  "free_set (s\<lparr>free_pages := n\<rparr>) = free_set s" "free_set (s\<lparr>total_pages := m\<rparr>) = free_set s"
  by (simp_all add: free_set_def page_used_def)

lemma bit_lesen_0_free: "bit_lesen p s = 0 \<longleftrightarrow> unat p \<in> free_set s"
  by (auto simp: bit_lesen_def free_set_def page_used_def low_bit_zero_iff word_nat)

lemma bitmap_index:
  assumes "pmm_wf s" "p < max_pages s"
  shows "unat p div 8 < length (bitmap s)"
proof -
  have "unat p < 8 * length (bitmap s)" using assms by (simp add: pmm_wf_def word_nat)
  then show ?thesis by (simp add: less_mult_imp_div_less mult.commute)
qed

lemma div_mod_8_eq: "(q::nat) div 8 = p div 8 \<and> q mod 8 = p mod 8 \<longleftrightarrow> q = p"
  by (metis div_mult_mod_eq)

lemma pmm_upd_simps [simp]:
  "max_pages (bit_setzen p s) = max_pages s" "max_pages (bit_loeschen p s) = max_pages s"
  "length (bitmap (bit_setzen p s)) = length (bitmap s)"
  "length (bitmap (bit_loeschen p s)) = length (bitmap s)"
  "free_pages (bit_setzen p s) = free_pages s" "free_pages (bit_loeschen p s) = free_pages s"
  "total_pages (bit_setzen p s) = total_pages s" "total_pages (bit_loeschen p s) = total_pages s"
  "pmm_bitmap_end (bit_setzen p s) = pmm_bitmap_end s"
  "pmm_bitmap_end (bit_loeschen p s) = pmm_bitmap_end s"
  by (simp_all add: bit_setzen_def bit_loeschen_def)

lemma page_used_setzen:
  assumes "pmm_wf s" "q < unat (max_pages s)" "p < max_pages s"
  shows "page_used (bit_setzen p s) q \<longleftrightarrow> q = unat p \<or> page_used s q"
proof (cases "q div 8 = unat p div 8")
  case True
  have "unat p div 8 < length (bitmap s)" using assms by (simp add: bitmap_index)
  then have "page_used (bit_setzen p s) q \<longleftrightarrow> page_used s q \<or> q mod 8 = unat p mod 8"
    using assms(3) True
    by (auto simp: page_used_def bit_setzen_def bit_simps unat_div unat_mod not_le)
  then show ?thesis using True div_mod_8_eq by blast
next
  case False
  then show ?thesis using assms(3)
    by (auto simp: page_used_def bit_setzen_def unat_div not_le)
qed

lemma page_used_loeschen:
  assumes "pmm_wf s" "q < unat (max_pages s)" "p < max_pages s"
  shows "page_used (bit_loeschen p s) q \<longleftrightarrow> q \<noteq> unat p \<and> page_used s q"
proof (cases "q div 8 = unat p div 8")
  case True
  have "unat p div 8 < length (bitmap s)" using assms by (simp add: bitmap_index)
  then have "page_used (bit_loeschen p s) q \<longleftrightarrow> page_used s q \<and> q mod 8 \<noteq> unat p mod 8"
    using assms(3) True
    by (auto simp: page_used_def bit_loeschen_def bit_simps unat_div unat_mod not_le)
  then show ?thesis using True div_mod_8_eq by blast
next
  case False
  then show ?thesis using assms(3)
    by (auto simp: page_used_def bit_loeschen_def unat_div not_le)
qed

lemma free_set_setzen:
  assumes "pmm_wf s"
  shows "free_set (bit_setzen p s) = free_set s - {unat p}"
proof (cases "p < max_pages s")
  case True
  then show ?thesis using page_used_setzen [OF assms _ True] by (auto simp: free_set_def)
next
  case False
  then show ?thesis by (auto simp: bit_setzen_def free_set_def word_nat)
qed

lemma free_set_loeschen:
  assumes "pmm_wf s" and "p < max_pages s"
  shows "free_set (bit_loeschen p s) = insert (unat p) (free_set s)"
  using page_used_loeschen [OF assms(1) _ assms(2)] assms(2) by (auto simp: free_set_def word_nat)

lemma pmm_wf_upd [simp]:
  "pmm_wf (bit_setzen p s) = pmm_wf s" "pmm_wf (bit_loeschen p s) = pmm_wf s"
  "pmm_wf (s\<lparr>free_pages := n\<rparr>) = pmm_wf s" "pmm_wf (s\<lparr>total_pages := n\<rparr>) = pmm_wf s"
  by (simp_all add: pmm_wf_def)

lemma pmm_inv_take:
  assumes "pmm_inv s" "unat p \<in> free_set s"
  shows "pmm_inv ((bit_setzen p s)\<lparr>free_pages := free_pages s - 1\<rparr>)"
proof -
  have "pmm_wf s" and c: "unat (free_pages s) = card (free_set s)"
    using assms(1) by (auto simp: pmm_inv_def)
  moreover have "unat (free_pages s - 1) = card (free_set s) - 1"
    using card_filter_remove(2) [OF finite_free_set assms(2)] c by (simp add: unat_pred)
  ultimately show ?thesis
    using card_filter_remove(1) [OF finite_free_set assms(2)]
    by (simp add: pmm_inv_def free_set_setzen)
qed

lemma pmm_inv_give:
  assumes "pmm_inv s" "p < max_pages s" "unat p \<notin> free_set s"
  shows "pmm_inv ((bit_loeschen p s)\<lparr>free_pages := free_pages s + 1\<rparr>)"
proof -
  have wf: "pmm_wf s" and c: "unat (free_pages s) = card (free_set s)"
    using assms(1) by (auto simp: pmm_inv_def)
  have "card (insert (unat p) (free_set s)) \<le> unat (max_pages s)"
    using card_free_set [of "bit_loeschen p s"] free_set_loeschen [OF wf assms(2)] by simp
  then have "unat (free_pages s) + 1 < 2 ^ LENGTH(64)"
    using assms(3) c unsigned_less [of "max_pages s", where 'a = nat] wf
    by (simp add: pmm_wf_def)
  then have "unat (free_pages s + 1) = card (free_set s) + 1"
    using c unat_add_fits [of "free_pages s" 1] by simp
  then show ?thesis using wf free_set_loeschen [OF wf assms(2)] assms(3)
    by (simp add: pmm_inv_def)
qed

section \<open>The operations against the abstraction\<close>

lemma pmm_alloc_None:
  assumes "find_range (\<lambda>i. bit_lesen i s = 0) 1 (max_pages s) = None"
  shows "pmm_alloc s = (s, OUT_OF_MEMORY)" and "free_set s \<subseteq> {0}"
proof -
  show "pmm_alloc s = (s, OUT_OF_MEMORY)" using assms by (simp add: pmm_alloc_def)
  have no: "unat v \<notin> free_set s" if "1 \<le> v" "v < max_pages s" for v
    using assms that by (auto simp: find_range_None bit_lesen_0_free)
  show "free_set s \<subseteq> {0}"
  proof
    fix p assume p: "p \<in> free_set s"
    then have lt: "p < unat (max_pages s)" by (rule free_set_less)
    then have id: "unat (of_nat p :: u64) = p" by (intro unat_of_nat_below [of p "max_pages s"]) simp
    show "p \<in> {0}"
      using no [of "of_nat p"] p lt id by (cases "p = 0") (auto simp: word_nat)
  qed
qed

lemma pmm_alloc_Some:
  assumes "find_range (\<lambda>i. bit_lesen i s = 0) 1 (max_pages s) = Some i"
  shows "pmm_alloc s = ((bit_setzen i s)\<lparr>free_pages := free_pages s - 1\<rparr>, i * PAGE_SIZE)"
    and "unat i \<in> free_set s" and "1 \<le> unat i"
    and "\<forall>q\<in>free_set s. 1 \<le> q \<longrightarrow> unat i \<le> q"
proof -
  show "pmm_alloc s = ((bit_setzen i s)\<lparr>free_pages := free_pages s - 1\<rparr>, i * PAGE_SIZE)"
    using assms by (simp add: pmm_alloc_def)
  note f = find_range_Some [OF assms]
  from f show "unat i \<in> free_set s" and "1 \<le> unat i"
    by (auto simp: bit_lesen_0_free word_nat)
  show "\<forall>q\<in>free_set s. 1 \<le> q \<longrightarrow> unat i \<le> q"
  proof (intro ballI impI, rule ccontr)
    fix q assume q: "q \<in> free_set s" "1 \<le> q" "\<not> unat i \<le> q"
    then have id: "unat (of_nat q :: u64) = q" by (intro unat_of_nat_below [of q i]) simp
    then show False
      using f q by (auto simp: bit_lesen_0_free word_nat dest: spec [where x = "of_nat q"])
  qed
qed

lemma page_addr:
  assumes "unat (i::u64) < 2 ^ 52"
  shows "unat (i * PAGE_SIZE) = unat i * 4096" and "i * PAGE_SIZE div PAGE_SIZE = i"
proof -
  have "unat i * unat PAGE_SIZE < 2 ^ LENGTH(64)" using assms by simp
  from unat_mult_fits [OF this] show a: "unat (i * PAGE_SIZE) = unat i * 4096" by simp
  have "unat (i * PAGE_SIZE div PAGE_SIZE) = unat (i * PAGE_SIZE) div 4096"
    by (simp only: unat_div) simp
  also have "\<dots> = unat i" unfolding a by simp
  finally show "i * PAGE_SIZE div PAGE_SIZE = i" by (simp only: word_unat_eq_iff)
qed

lemma page_addr_of_free:
  assumes "pmm_wf s" "unat i \<in> free_set s"
  shows "unat (i * PAGE_SIZE) = unat i * 4096" "i * PAGE_SIZE div PAGE_SIZE = i"
    "i * PAGE_SIZE \<noteq> OUT_OF_MEMORY"
proof -
  have "unat i < 2 ^ 52" using assms free_set_less [OF assms(2)] by (simp add: pmm_wf_def)
  from page_addr [OF this] show a: "unat (i * PAGE_SIZE) = unat i * 4096"
    and "i * PAGE_SIZE div PAGE_SIZE = i" by auto
  show "i * PAGE_SIZE \<noteq> OUT_OF_MEMORY"
  proof
    assume "i * PAGE_SIZE = OUT_OF_MEMORY"
    then have "unat (i * PAGE_SIZE) = unat OUT_OF_MEMORY" by (rule arg_cong)
    also have "unat OUT_OF_MEMORY = 18446744073709551615" by simp
    finally have "unat i * 4096 = 18446744073709551615" unfolding a .
    then have "(18446744073709551615::nat) mod 4096 = unat i * 4096 mod 4096" by (simp only:)
    then show False by simp
  qed
qed

lemma pmm_alloc_cases:
  assumes "pmm_inv s" and "pmm_alloc s = (s', a)"
  obtains (oom) "s' = s" "a = OUT_OF_MEMORY" "free_set s \<subseteq> {0}"
  | (page) i where "s' = (bit_setzen i s)\<lparr>free_pages := free_pages s - 1\<rparr>" "a = i * PAGE_SIZE"
      "unat i \<in> free_set s" "1 \<le> unat i" "\<forall>q\<in>free_set s. 1 \<le> q \<longrightarrow> unat i \<le> q"
      "a \<noteq> OUT_OF_MEMORY" "unat a = unat i * 4096" "a div PAGE_SIZE = i"
      "free_set s' = free_set s - {unat i}" "pmm_inv s'"
proof (cases "find_range (\<lambda>i. bit_lesen i s = 0) 1 (max_pages s)")
  case None
  from pmm_alloc_None [OF this] assms(2) show ?thesis by (intro oom) auto
next
  case (Some i)
  note al = pmm_alloc_Some [OF Some]
  have wf: "pmm_wf s" using assms(1) by (simp add: pmm_inv_def)
  show ?thesis
    using al assms(2) pmm_inv_take [OF assms(1) al(2)] page_addr_of_free [OF wf al(2)]
    by (intro page [of i]) (auto simp: free_set_setzen [OF wf])
qed

text \<open>
  \<^verbatim>\<open>pmm_alloc\<close> hands out the lowest free page but page 0, marks exactly that page used and
  counts it; when no page but page 0 is free it returns all ones and changes nothing.
\<close>

theorem pmm_alloc_lowest_free:
  assumes "pmm_inv s" and "pmm_alloc s = (s', a)"
  shows "if \<exists>p\<in>free_set s. 1 \<le> p
         then \<exists>p. p \<in> free_set s \<and> 1 \<le> p \<and> (\<forall>q\<in>free_set s. 1 \<le> q \<longrightarrow> p \<le> q) \<and>
              unat a = p * 4096 \<and> free_set s' = free_set s - {p} \<and>
              unat (free_pages s') = unat (free_pages s) - 1 \<and> pmm_inv s'
         else a = OUT_OF_MEMORY \<and> s' = s"
  using assms
proof (cases rule: pmm_alloc_cases)
  case oom
  then have "\<not> (\<exists>p\<in>free_set s. 1 \<le> p)" by auto
  then show ?thesis using oom by simp
next
  case (page i)
  have "unat (free_pages s') = unat (free_pages s) - 1"
    using page assms(1) card_filter_remove [OF finite_free_set page(3)]
    by (simp add: pmm_inv_def)
  then show ?thesis using page by auto
qed

text \<open>A machine of 24 pages, of which the lower 16 are free RAM but page 0.\<close>

definition small_pmm :: pmm where
  "small_pmm = \<lparr>bitmap = [0x01, 0x00, 0xFF], max_pages = 24, total_pages = 16,
                free_pages = 15, pmm_bitmap_end = 0x18000\<rparr>"

lemma free_set_filter: "free_set s = set (filter (\<lambda>p. \<not> page_used s p) [0..<unat (max_pages s)])"
  by (auto simp: free_set_def)

lemma free_set_small_pmm: "free_set small_pmm = {1..<16}"
proof -
  have "filter (\<lambda>p. \<not> page_used small_pmm p) [0..<unat (max_pages small_pmm)] = [1..<16]"
    by code_simp
  then show ?thesis unfolding free_set_filter by simp
qed

lemma small_pmm_max: "max_pages small_pmm = 24"
  by (simp add: small_pmm_def)

lemma small_pmm_inv: "pmm_inv small_pmm"
  by (simp add: pmm_inv_def pmm_wf_def free_set_small_pmm) (simp add: small_pmm_def)

lemma small_pmm_alloc: "pmm_alloc small_pmm = (small_pmm\<lparr>bitmap := [3, 0, 255], free_pages := 14\<rparr>, 4096)"
  by code_simp

theorem pmm_alloc_lowest_free_witness:
  "\<exists>p. p \<in> free_set small_pmm \<and> 1 \<le> p \<and> (\<forall>q\<in>free_set small_pmm. 1 \<le> q \<longrightarrow> p \<le> q) \<and>
     unat (4096 :: u64) = p * 4096"
  using pmm_alloc_lowest_free [OF small_pmm_inv small_pmm_alloc]
  by (auto simp: free_set_small_pmm split: if_splits)

lemma pmm_free_used:
  assumes "pmm_inv s" and "unat (adr div PAGE_SIZE) < unat (max_pages s)"
    and "adr div PAGE_SIZE \<noteq> 0" and "unat (adr div PAGE_SIZE) \<notin> free_set s"
  shows "pmm_free adr s = (bit_loeschen (adr div PAGE_SIZE) s)\<lparr>free_pages := free_pages s + 1\<rparr>"
    and "free_set (pmm_free adr s) = insert (unat (adr div PAGE_SIZE)) (free_set s)"
    and "pmm_inv (pmm_free adr s)"
proof -
  have lt: "adr div PAGE_SIZE < max_pages s" using assms(2) by (simp add: word_less_nat_alt)
  show eq: "pmm_free adr s = (bit_loeschen (adr div PAGE_SIZE) s)\<lparr>free_pages := free_pages s + 1\<rparr>"
    using assms(3,4) lt by (simp add: pmm_free_def Let_def bit_lesen_0_free not_le)
  have wf: "pmm_wf s" using assms(1) by (simp add: pmm_inv_def)
  show "free_set (pmm_free adr s) = insert (unat (adr div PAGE_SIZE)) (free_set s)"
    by (simp add: eq free_set_loeschen [OF wf lt])
  show "pmm_inv (pmm_free adr s)"
    unfolding eq by (rule pmm_inv_give [OF assms(1) lt assms(4)])
qed

text \<open>
  \<^verbatim>\<open>pmm_free\<close> leaves the state as it is for page 0, for an address past the last page and for
  a page that is free already (the double free); any other page becomes free and is counted.
\<close>

theorem pmm_free_guarded:
  assumes "pmm_inv s"
  shows "if adr div PAGE_SIZE = 0 \<or> adr div PAGE_SIZE \<ge> max_pages s
            \<or> unat (adr div PAGE_SIZE) \<in> free_set s
         then pmm_free adr s = s
         else free_set (pmm_free adr s) = insert (unat (adr div PAGE_SIZE)) (free_set s) \<and>
              unat (free_pages (pmm_free adr s)) = unat (free_pages s) + 1 \<and>
              pmm_inv (pmm_free adr s)"
proof (cases "adr div PAGE_SIZE = 0 \<or> adr div PAGE_SIZE \<ge> max_pages s
            \<or> unat (adr div PAGE_SIZE) \<in> free_set s")
  case True
  then show ?thesis by (auto simp: pmm_free_def Let_def bit_lesen_0_free)
next
  case False
  then have lt: "unat (adr div PAGE_SIZE) < unat (max_pages s)"
    by (simp add: not_le word_less_nat_alt)
  note fr = pmm_free_used [OF assms lt] False
  have "unat (free_pages (pmm_free adr s)) = unat (free_pages s) + 1"
    using fr assms by (simp add: pmm_inv_def)
  then show ?thesis using fr by auto
qed

theorem pmm_free_guarded_witness:
  "pmm_free 4096 small_pmm = small_pmm \<and>
   free_set (pmm_free 0x10000 small_pmm) = insert 16 (free_set small_pmm)"
  using pmm_free_guarded [OF small_pmm_inv, where adr = 4096]
    pmm_free_guarded [OF small_pmm_inv, where adr = "0x10000"]
  by (simp add: free_set_small_pmm small_pmm_max)

lemma bit_loeschen_setzen:
  assumes "pmm_wf s" "unat i \<in> free_set s"
  shows "bit_loeschen i (bit_setzen i s) = s"
proof -
  have lt: "i < max_pages s" using free_set_less [OF assms(2)] by (simp add: word_less_nat_alt)
  have ix: "unat i div 8 < length (bitmap s)" by (rule bitmap_index [OF assms(1) lt])
  have "\<not> bit (bitmap s ! (unat i div 8)) (unat i mod 8)"
    using assms(2) by (simp add: free_set_def page_used_def)
  then have "(bitmap s ! (unat i div 8) OR push_bit (unat i mod 8) 1)
      AND NOT (push_bit (unat i mod 8) 1) = bitmap s ! (unat i div 8)"
    by (intro bit_word_eqI) (auto simp: bit_simps)
  then show ?thesis using lt ix
    by (simp add: bit_loeschen_def bit_setzen_def not_le unat_div unat_mod)
qed

text \<open>
  freeing the page \<^verbatim>\<open>pmm_alloc\<close> has just returned restores the allocator's state exactly,
  bitmap and counter.
\<close>

theorem pmm_free_alloc:
  assumes "pmm_inv s" and "pmm_alloc s = (s', a)" and "a \<noteq> OUT_OF_MEMORY"
  shows "pmm_free a s' = s"
  using assms(1,2)
proof (cases rule: pmm_alloc_cases)
  case oom
  then show ?thesis using assms(3) by simp
next
  case (page i)
  have wf: "pmm_wf s" using assms(1) by (simp add: pmm_inv_def)
  have lt: "unat i < unat (max_pages s')" using page free_set_less [OF page(3)] by simp
  have "i \<noteq> 0" using page(4) by auto
  then have "pmm_free a s' = (bit_loeschen i s')\<lparr>free_pages := free_pages s' + 1\<rparr>"
    using pmm_free_used(1) [OF page(10), of a] page lt by auto
  also have "\<dots> = s"
    using bit_loeschen_setzen [OF wf page(3)] page(1) by (cases s) (auto simp: bit_loeschen_def
        bit_setzen_def split: if_splits)
  finally show ?thesis .
qed

theorem pmm_free_alloc_witness:
  "pmm_free 4096 (small_pmm\<lparr>bitmap := [3, 0, 255], free_pages := 14\<rparr>) = small_pmm"
  by (rule pmm_free_alloc [OF small_pmm_inv small_pmm_alloc]) simp

section \<open>Reserving ranges\<close>

definition range_pages :: "u64 \<Rightarrow> u64 \<Rightarrow> nat set" where
  "range_pages addr len =
     {unat (addr div PAGE_SIZE) ..< unat ((addr + len + PAGE_SIZE - 1) div PAGE_SIZE)}"

lemma reserve_page_spec:
  assumes "pmm_inv s"
  shows "pmm_inv (reserve_page p s)" and "free_set (reserve_page p s) = free_set s - {unat p}"
    and "max_pages (reserve_page p s) = max_pages s"
    and "pmm_bitmap_end (reserve_page p s) = pmm_bitmap_end s"
proof -
  have wf: "pmm_wf s" using assms by (simp add: pmm_inv_def)
  show "pmm_inv (reserve_page p s)"
  proof (cases "bit_lesen p s = 0")
    case True
    have "bit_setzen p (s\<lparr>free_pages := free_pages s - 1\<rparr>)
        = (bit_setzen p s)\<lparr>free_pages := free_pages s - 1\<rparr>"
      by (simp add: bit_setzen_def)
    then show ?thesis
      using True pmm_inv_take [OF assms] by (simp add: reserve_page_def bit_lesen_0_free)
  next
    case False
    then show ?thesis using assms
      by (simp add: reserve_page_def bit_lesen_0_free pmm_inv_def free_set_setzen)
  qed
  show "free_set (reserve_page p s) = free_set s - {unat p}"
    by (simp add: reserve_page_def free_set_setzen wf)
  show "max_pages (reserve_page p s) = max_pages s"
    "pmm_bitmap_end (reserve_page p s) = pmm_bitmap_end s"
    by (simp_all add: reserve_page_def)
qed

lemma reserve_loop:
  assumes "pmm_inv s" "lo \<le> hi"
  shows "let t = for_range lo hi reserve_page s
         in pmm_inv t \<and> free_set t = free_set s - {unat lo..<unat hi} \<and> max_pages t = max_pages s
            \<and> pmm_bitmap_end t = pmm_bitmap_end s"
  unfolding Let_def
proof (rule for_range_inv [where I = "\<lambda>n t. pmm_inv t \<and> free_set t = free_set s - {unat lo..<n}
      \<and> max_pages t = max_pages s \<and> pmm_bitmap_end t = pmm_bitmap_end s"])
  fix w t
  assume w: "lo \<le> w" "w < hi" and I: "pmm_inv t \<and> free_set t = free_set s - {unat lo..<unat w}
      \<and> max_pages t = max_pages s \<and> pmm_bitmap_end t = pmm_bitmap_end s"
  have "{unat lo..<Suc (unat w)} = insert (unat w) {unat lo..<unat w}"
    using w(1) by (auto simp: word_nat)
  then show "pmm_inv (reserve_page w t) \<and>
      free_set (reserve_page w t) = free_set s - {unat lo..<Suc (unat w)} \<and>
      max_pages (reserve_page w t) = max_pages s \<and>
      pmm_bitmap_end (reserve_page w t) = pmm_bitmap_end s"
    using reserve_page_spec [of t w] I by auto
qed (use assms in auto)

lemma pmm_reserve_range_spec:
  assumes "pmm_inv s"
  shows "pmm_inv (pmm_reserve_range a l s)"
    and "free_set (pmm_reserve_range a l s) = free_set s - range_pages a l"
    and "max_pages (pmm_reserve_range a l s) = max_pages s"
    and "pmm_bitmap_end (pmm_reserve_range a l s) = pmm_bitmap_end s"
proof -
  let ?lo = "a div PAGE_SIZE" and ?last = "(a + l + PAGE_SIZE - 1) div PAGE_SIZE"
  let ?hi = "min ?last (max_pages s)" and ?t = "pmm_reserve_range a l s"
  have t: "?t = for_range ?lo ?hi reserve_page s" by (simp add: pmm_reserve_range_def Let_def)
  have "pmm_inv ?t \<and> free_set ?t = free_set s - range_pages a l \<and> max_pages ?t = max_pages s
      \<and> pmm_bitmap_end ?t = pmm_bitmap_end s"
  proof (cases "?lo \<le> ?hi")
    case True
    have "free_set s - {unat ?lo..<unat ?hi} = free_set s - range_pages a l"
      by (auto simp: range_pages_def min_def word_le_nat_alt dest: free_set_less)
    then show ?thesis using reserve_loop [OF assms True] t by (simp add: Let_def)
  next
    case False
    then have "\<not> ?lo < ?hi" by (rule contrapos_nn) (rule less_imp_le)
    then have "?t = s" unfolding t by (rule for_range_empty)
    moreover have "free_set s \<inter> range_pages a l = {}"
      using False by (auto simp: range_pages_def min_def word_le_nat_alt dest: free_set_less
          split: if_splits)
    ultimately show ?thesis using assms by auto
  qed
  then show "pmm_inv ?t" "free_set ?t = free_set s - range_pages a l"
    "max_pages ?t = max_pages s" "pmm_bitmap_end ?t = pmm_bitmap_end s" by auto
qed

section \<open>Initialisation\<close>

text \<open>The pages stage 2a frees for one map entry, on a machine of \<open>mp\<close> pages.\<close>

definition entry_pages :: "u64 \<Rightarrow> E820Entry \<Rightarrow> nat set" where
  "entry_pages mp e =
     (if e_type e = E820_FREE then {unat (entry_start e) ..< unat (min (entry_end e) mp)} else {})"

fun entries_disjoint :: "u64 \<Rightarrow> E820Entry list \<Rightarrow> bool" where
  "entries_disjoint mp [] = True"
| "entries_disjoint mp (e # es) =
     ((\<forall>e'\<in>set es. entry_pages mp e \<inter> entry_pages mp e' = {}) \<and> entries_disjoint mp es)"

text \<open>
  While pages are released the counters agree with the abstraction as long as no page is
  released twice: \<open>bit_loeschen\<close> and the two increments are not guarded by the page's bit.
\<close>

definition pmm_init_inv :: "pmm \<Rightarrow> bool" where
  "pmm_init_inv s \<longleftrightarrow> pmm_inv s \<and> total_pages s = free_pages s"

lemma release_page_spec:
  assumes "pmm_init_inv s" and "p < max_pages s" and "unat p \<notin> free_set s"
  shows "pmm_init_inv (release_page p s)"
    and "free_set (release_page p s) = insert (unat p) (free_set s)"
    and "max_pages (release_page p s) = max_pages s"
    and "pmm_bitmap_end (release_page p s) = pmm_bitmap_end s"
proof -
  have inv: "pmm_inv s" and wf: "pmm_wf s" using assms(1) by (auto simp: pmm_init_inv_def pmm_inv_def)
  have eq: "release_page p s = ((bit_loeschen p s)\<lparr>free_pages := free_pages s + 1\<rparr>)
      \<lparr>total_pages := total_pages s + 1\<rparr>"
    by (simp add: release_page_def Let_def)
  show "pmm_init_inv (release_page p s)"
    using pmm_inv_give [OF inv assms(2,3)] assms(1)
    unfolding eq by (simp add: pmm_init_inv_def pmm_inv_def)
  show "free_set (release_page p s) = insert (unat p) (free_set s)"
    by (simp add: eq free_set_loeschen [OF wf assms(2)])
  show "max_pages (release_page p s) = max_pages s"
    "pmm_bitmap_end (release_page p s) = pmm_bitmap_end s" by (simp_all add: eq)
qed

lemma release_loop:
  assumes "pmm_init_inv s" "lo \<le> hi" "hi \<le> max_pages s"
    and "free_set s \<inter> {unat lo..<unat hi} = {}"
  shows "let t = for_range lo hi release_page s
         in pmm_init_inv t \<and> free_set t = free_set s \<union> {unat lo..<unat hi}
            \<and> max_pages t = max_pages s \<and> pmm_bitmap_end t = pmm_bitmap_end s"
  unfolding Let_def
proof (rule for_range_inv [where I = "\<lambda>n t. pmm_init_inv t
      \<and> free_set t = free_set s \<union> {unat lo..<n}
      \<and> max_pages t = max_pages s \<and> pmm_bitmap_end t = pmm_bitmap_end s"])
  fix w t
  assume w: "lo \<le> w" "w < hi" and I: "pmm_init_inv t
      \<and> free_set t = free_set s \<union> {unat lo..<unat w}
      \<and> max_pages t = max_pages s \<and> pmm_bitmap_end t = pmm_bitmap_end s"
  have "unat w \<in> {unat lo..<unat hi}" using w by (simp add: word_nat)
  then have fresh: "unat w \<notin> free_set t" using I assms(4) by auto
  have lt: "w < max_pages t" using I w(2) assms(3) by auto
  have "{unat lo..<Suc (unat w)} = insert (unat w) {unat lo..<unat w}"
    using w(1) by (auto simp: word_nat)
  then show "pmm_init_inv (release_page w t) \<and>
      free_set (release_page w t) = free_set s \<union> {unat lo..<Suc (unat w)} \<and>
      max_pages (release_page w t) = max_pages s \<and>
      pmm_bitmap_end (release_page w t) = pmm_bitmap_end s"
    using release_page_spec [OF _ lt fresh] I by auto
qed (use assms in auto)

lemma release_entries_spec:
  "pmm_init_inv s \<Longrightarrow> entries_disjoint (max_pages s) es \<Longrightarrow>
     (\<forall>e\<in>set es. entry_pages (max_pages s) e \<inter> free_set s = {}) \<Longrightarrow>
     pmm_init_inv (release_entries es s) \<and>
     free_set (release_entries es s) = free_set s \<union> (\<Union>e\<in>set es. entry_pages (max_pages s) e) \<and>
     max_pages (release_entries es s) = max_pages s \<and>
     pmm_bitmap_end (release_entries es s) = pmm_bitmap_end s"
proof (induction es arbitrary: s)
  case Nil
  then show ?case by simp
next
  case (Cons e es)
  let ?hi = "min (entry_end e) (max_pages s)"
  have last: "(if entry_end e > max_pages s then max_pages s else entry_end e) = ?hi"
    by (auto simp: min_def)
  have step: "release_entries (e # es) s
      = release_entries es (for_range (entry_start e) ?hi release_page s)"
    if "e_type e = E820_FREE" "entry_start e < max_pages s"
    using that by (simp add: Let_def last not_le)
  show ?case
  proof (cases "e_type e = E820_FREE \<and> entry_start e < max_pages s \<and> entry_start e \<le> ?hi")
    case True
    let ?t = "for_range (entry_start e) ?hi release_page s"
    have pg: "entry_pages (max_pages s) e = {unat (entry_start e)..<unat ?hi}"
      using True by (simp add: entry_pages_def)
    have step: "release_entries (e # es) s = release_entries es ?t"
      using True by (intro step) auto
    have t: "pmm_init_inv ?t \<and> free_set ?t = free_set s \<union> entry_pages (max_pages s) e
        \<and> max_pages ?t = max_pages s \<and> pmm_bitmap_end ?t = pmm_bitmap_end s"
      using release_loop [of s "entry_start e" ?hi] Cons.prems True pg by (auto simp: Let_def)
    have "\<forall>e'\<in>set es. entry_pages (max_pages ?t) e' \<inter> free_set ?t = {}"
      using Cons.prems t by auto
    then show ?thesis unfolding step using Cons.IH [of ?t] Cons.prems t by auto
  next
    case False
    then have pg: "entry_pages (max_pages s) e = {}"
      by (auto simp: entry_pages_def min_def word_le_nat_alt word_less_nat_alt split: if_splits)
    have "release_entries (e # es) s = release_entries es s"
    proof (cases "e_type e = E820_FREE \<and> entry_start e < max_pages s")
      case True
      with False have "\<not> entry_start e < ?hi" using less_imp_le by blast
      then have "for_range (entry_start e) ?hi release_page s = s" by (rule for_range_empty)
      with step True show ?thesis by metis
    next
      case False
      then show ?thesis by auto
    qed
    then show ?thesis using Cons.IH [of s] Cons.prems pg by auto
  qed
qed

definition init_pages :: "BootInfo \<Rightarrow> E820Entry list \<Rightarrow> u64" where
  "init_pages info m = (highest_addr (e820_entries info m) 0 + PAGE_SIZE - 1) div PAGE_SIZE"

definition init_state :: "u64 \<Rightarrow> u64 \<Rightarrow> pmm" where
  "init_state mp bend = \<lparr>bitmap = replicate (unat ((mp + 7) div 8)) 0xFF, max_pages = mp,
     total_pages = 0, free_pages = 0, pmm_bitmap_end = bend\<rparr>"

lemma unat_div_page: "unat ((x::u64) div PAGE_SIZE) < 2 ^ 52"
proof -
  have "unat (x div PAGE_SIZE) = unat x div 4096" by (simp add: unat_div)
  moreover have "unat x < 2 ^ 64" using unsigned_less [of x, where 'a = nat] by simp
  ultimately show ?thesis by (simp add: less_mult_imp_div_less)
qed

lemma bitmap_bytes_enough:
  assumes "unat (mp::u64) < 2 ^ 52"
  shows "unat mp \<le> 8 * unat ((mp + 7) div 8)"
proof -
  have "unat (mp + 7) = unat mp + 7" using unat_add_fits [of mp 7] assms by simp
  then have "unat ((mp + 7) div 8) = (unat mp + 7) div 8" by (simp add: unat_div)
  then show ?thesis by simp
qed

lemma init_state_inv:
  assumes "unat mp < 2 ^ 52"
  shows "pmm_init_inv (init_state mp bend)" and "free_set (init_state mp bend) = {}"
proof -
  let ?s = "init_state mp bend"
  note len = bitmap_bytes_enough [OF assms]
  have used: "page_used ?s p" if "p < unat mp" for p
  proof -
    have "p < 8 * unat ((mp + 7) div 8)" using that len by simp
    then have "bitmap ?s ! (p div 8) = 0xFF"
      by (simp add: init_state_def less_mult_imp_div_less mult.commute)
    moreover have "bit (0xFF :: u8) k" if "k < 8" for k
      using that by (simp add: bit_iff_odd_drop_bit less_Suc_eq numeral_eq_Suc) auto
    ultimately show ?thesis by (simp add: page_used_def)
  qed
  then show free: "free_set ?s = {}" by (auto simp: free_set_def init_state_def)
  show "pmm_init_inv ?s"
    using free len assms by (simp add: pmm_init_inv_def pmm_inv_def pmm_wf_def init_state_def)
qed

lemma pmm_init_unfold:
  "pmm_init kend info m =
     (let baddr = page_align_up kend;
          bend = page_align_up (baddr + (init_pages info m + 7) div 8);
          s = release_entries (e820_entries info m) (init_state (init_pages info m) bend);
          s = pmm_reserve_range 0x0 PAGE_SIZE s;
          s = pmm_reserve_range 0x1000 (3 * PAGE_SIZE) s;
          s = pmm_reserve_range 0x100000 (page_align_up (ucast (kernel_size info))) s;
          s = pmm_reserve_range baddr (bend - baddr) s
      in pmm_reserve_range bend HEAP_SIZE s)"
  by (simp add: pmm_init_def init_pages_def init_state_def Let_def)

lemma pmm_init_state:
  assumes "entries_disjoint (init_pages info m) (e820_entries info m)"
  shows "let s = pmm_init kend info m;
             baddr = page_align_up kend;
             bend = page_align_up (baddr + (init_pages info m + 7) div 8)
         in pmm_inv s \<and> max_pages s = init_pages info m \<and> pmm_bitmap_end s = bend \<and>
            free_set s = (\<Union>e\<in>set (e820_entries info m). entry_pages (init_pages info m) e)
              - range_pages 0x0 PAGE_SIZE - range_pages 0x1000 (3 * PAGE_SIZE)
              - range_pages 0x100000 (page_align_up (ucast (kernel_size info)))
              - range_pages baddr (bend - baddr) - range_pages bend HEAP_SIZE"
proof -
  let ?mp = "init_pages info m" and ?es = "e820_entries info m"
  let ?baddr = "page_align_up kend"
  let ?bend = "page_align_up (?baddr + (?mp + 7) div 8)"
  let ?s0 = "init_state ?mp ?bend"
  let ?s1 = "release_entries ?es ?s0"
  have mp: "unat ?mp < 2 ^ 52" unfolding init_pages_def by (rule unat_div_page)
  have mp0: "max_pages ?s0 = ?mp" "pmm_bitmap_end ?s0 = ?bend" by (simp_all add: init_state_def)
  have s1: "pmm_init_inv ?s1 \<and> free_set ?s1 = (\<Union>e\<in>set ?es. entry_pages ?mp e) \<and>
      max_pages ?s1 = ?mp \<and> pmm_bitmap_end ?s1 = ?bend"
    using release_entries_spec [of ?s0 ?es] init_state_inv [OF mp] assms mp0 by simp
  then have "pmm_inv ?s1" by (simp add: pmm_init_inv_def)
  then show ?thesis using s1
    by (simp add: pmm_init_unfold Let_def pmm_reserve_range_spec)
qed


text \<open>
  A machine with 3.5 MB of RAM as a BIOS reports it: conventional memory, the hole below 1 MB and
  the extended memory, with a kernel that ends at \<^verbatim>\<open>0x130123\<close>.
\<close>

definition small_map :: "E820Entry list" where
  "small_map =
     [\<lparr>base = 0, length_of = 0x9F000, e_type = 1, attrib = 0\<rparr>,
      \<lparr>base = 0x9F000, length_of = 0x61000, e_type = 2, attrib = 0\<rparr>,
      \<lparr>base = 0x100000, length_of = 0x280000, e_type = 1, attrib = 0\<rparr>]"

definition small_boot :: BootInfo where
  "small_boot =
     \<lparr>e820_count = 3, e820_map_addr = 0x8000, total_ram_kb = 3584, ram_source = 1,
      kernel_addr = 0x100000, kernel_mem_ok = 1, cpu_flags = 1, kernel_size = 0x1F000,
      fb_addr = 0, fb_width = 0, fb_height = 0, fb_pitch = 0, fb_bpp = 0, boot_type = 0,
      video_modes_addr = 0, video_modes_count = 0, current_mode_idx = 0\<rparr>"

lemma small_boot_disjoint:
  "entries_disjoint (init_pages small_boot small_map) (e820_entries small_boot small_map)"
  by (simp add: small_boot_def small_map_def init_pages_def e820_entries_def entry_pages_def
      entry_start_def entry_end_def)


section \<open>The page allocator as an allocator\<close>

text \<open>The addresses of the used pages but page 0, and the number of pages that can be handed out.\<close>

definition pmm_live :: "pmm \<Rightarrow> u64 set" where
  "pmm_live s = {p * PAGE_SIZE | p. p \<noteq> 0 \<and> p < max_pages s \<and> unat p \<notin> free_set s}"

definition pmm_avail :: "pmm \<Rightarrow> nat" where
  "pmm_avail s = card (free_set s - {0})"

definition pmm_alloc_req :: "unit \<Rightarrow> pmm \<Rightarrow> (pmm \<times> u64) option" where
  "pmm_alloc_req r s = Some (pmm_alloc s)"

definition pmm_free_req :: "u64 \<Rightarrow> pmm \<Rightarrow> pmm option" where
  "pmm_free_req a s = Some (pmm_free a s)"

lemma page_addr_of_less:
  assumes "pmm_inv s" "p < max_pages s"
  shows "p * PAGE_SIZE div PAGE_SIZE = p"
proof -
  have "unat p < 2 ^ 52" using assms by (simp add: pmm_inv_def pmm_wf_def word_less_nat_alt)
  then show ?thesis by (rule page_addr(2))
qed

lemma page_addr_inj:
  assumes "pmm_inv s" "p < max_pages s" "q < max_pages s"
  shows "p * PAGE_SIZE = q * PAGE_SIZE \<longleftrightarrow> p = q"
  using page_addr_of_less [OF assms(1,2)] page_addr_of_less [OF assms(1,3)] by metis

lemma pmm_avail_zero: "pmm_avail s = 0 \<longleftrightarrow> free_set s \<subseteq> {0}"
  by (auto simp: pmm_avail_def card_eq_0_iff)

lemma pmm_live_take:
  assumes "pmm_inv s" "unat i \<in> free_set s" "1 \<le> unat i"
    and "free_set s' = free_set s - {unat i}" "max_pages s' = max_pages s"
  shows "i * PAGE_SIZE \<notin> pmm_live s" "pmm_live s' = insert (i * PAGE_SIZE) (pmm_live s)"
    "pmm_avail s' = pmm_avail s - 1" "0 < pmm_avail s"
proof -
  have lt: "i < max_pages s" using free_set_less [OF assms(2)] by (simp add: word_less_nat_alt)
  show "i * PAGE_SIZE \<notin> pmm_live s"
    using page_addr_inj [OF assms(1) lt] assms(2) by (auto simp: pmm_live_def)
  show "pmm_live s' = insert (i * PAGE_SIZE) (pmm_live s)"
  proof -
    have "i \<noteq> 0" using assms(3) by auto
    then show ?thesis
      using lt assms(4,5) by (auto simp: pmm_live_def word_unat_eq_iff [symmetric])
  qed
  have mem: "unat i \<in> free_set s - {0}" using assms(2,3) by auto
  have "free_set s' - {0} = (free_set s - {0}) - {unat i}" using assms(4) by auto
  then show "pmm_avail s' = pmm_avail s - 1" "0 < pmm_avail s"
    using card_filter_remove [OF _ mem] by (simp_all add: pmm_avail_def)
qed

lemma pmm_live_give:
  assumes "pmm_inv s" "a \<in> pmm_live s"
  shows "pmm_inv (pmm_free a s)" "pmm_live (pmm_free a s) = pmm_live s - {a}"
    "pmm_avail (pmm_free a s) = pmm_avail s + 1"
proof -
  from assms(2) obtain p where p: "a = p * PAGE_SIZE" "p \<noteq> 0" "p < max_pages s"
    "unat p \<notin> free_set s" by (auto simp: pmm_live_def)
  have dv: "a div PAGE_SIZE = p" using page_addr_of_less [OF assms(1) p(3)] p(1) by simp
  note fr = pmm_free_used [OF assms(1), of a, unfolded dv]
  have lt: "unat p < unat (max_pages s)" using p(3) by (simp add: word_less_nat_alt)
  note fr = fr [OF lt p(2,4)]
  show "pmm_inv (pmm_free a s)" by (rule fr(3))
  have mp: "max_pages (pmm_free a s) = max_pages s" by (simp add: fr(1))
  show "pmm_live (pmm_free a s) = pmm_live s - {a}"
    using page_addr_inj [OF assms(1) _ p(3)] fr(2) p(1) mp
    by (auto simp: pmm_live_def word_unat_eq_iff [symmetric])
  have "free_set (pmm_free a s) - {0} = insert (unat p) (free_set s - {0})"
    using fr(2) p(2) by (auto simp: unat_eq_0)
  then show "pmm_avail (pmm_free a s) = pmm_avail s + 1"
    using p(4) by (simp add: pmm_avail_def)
qed

interpretation pages: counting_allocator pmm_alloc_req pmm_free_req pmm_inv pmm_live
  OUT_OF_MEMORY pmm_avail
proof unfold_locales
  fix s :: pmm and s' :: pmm and a :: u64 and r :: unit
  assume inv: "pmm_inv s"
  show "\<exists>s' a. pmm_alloc_req r s = Some (s', a)"
    by (cases "pmm_alloc s") (simp add: pmm_alloc_req_def)
  {
    assume "pmm_alloc_req r s = Some (s', a)"
    then have al: "pmm_alloc s = (s', a)" by (simp add: pmm_alloc_req_def)
    show "pmm_inv s'" using inv by (cases rule: pmm_alloc_cases [OF inv al]) auto
    show "if pmm_avail s = 0 then a = OUT_OF_MEMORY
          else a \<noteq> OUT_OF_MEMORY \<and> pmm_avail s' = pmm_avail s - 1"
      using inv al
    proof (cases rule: pmm_alloc_cases)
      case oom
      then show ?thesis by (simp add: pmm_avail_zero)
    next
      case (page i)
      then show ?thesis using pmm_live_take(3,4) [OF inv page(3,4,9)] by auto
    qed
    show "a \<notin> pmm_live s \<and> pmm_live s' = insert a (pmm_live s)" if "a \<noteq> OUT_OF_MEMORY"
      using inv al
    proof (cases rule: pmm_alloc_cases)
      case oom
      then show ?thesis using that by simp
    next
      case (page i)
      then show ?thesis using pmm_live_take(1,2) [OF inv page(3,4,9)] by auto
    qed
  }
  show "s' = s" if "pmm_alloc_req r s = Some (s', OUT_OF_MEMORY)"
  proof -
    have "pmm_alloc s = (s', OUT_OF_MEMORY)" using that by (simp add: pmm_alloc_req_def)
    then show ?thesis by (cases rule: pmm_alloc_cases [OF inv]) auto
  qed
  assume a: "a \<in> pmm_live s"
  show "\<exists>s'. pmm_free_req a s = Some s' \<and> pmm_inv s' \<and> pmm_live s' = pmm_live s - {a}"
    using pmm_live_give [OF inv a] by (simp add: pmm_free_req_def)
  show "pmm_avail s' = pmm_avail s + 1" if "pmm_free_req a s = Some s'"
    using that pmm_live_give [OF inv a] by (auto simp: pmm_free_req_def)
qed

end
