(* ===== verification/Kmalloc.thy ===== *)
theory Kmalloc
  imports Allocator
begin

text \<open>
  The kernel heap, \<^verbatim>\<open>src/src/mm/kmalloc.c\<close>: one chain of blocks that tile one megabyte after the
  page allocator's bitmap.  The headers lie in memory; \<open>blocks h a\<close> is the header the code sees
  at address \<open>a\<close>.  Memory holds some header at every address, so reading one never fails, and
  every field is written separately, as in the code.  The specification is a list of segments
  (size and used flag) with first fit and forward merging; \<open>heap_view\<close> relates the two, and both
  operations refine their specification.
\<close>

section \<open>State and operations\<close>

record Block =
  bsize :: u64
  bused :: u32
  bnext :: u64
  bneu :: u64

record heap =
  heap_start :: u64
  blocks :: "u64 \<Rightarrow> Block"

text \<open>\<^verbatim>\<open>sizeof(Block)\<close>: 8 bytes size, 4 bytes used, 4 bytes padding, two more words.\<close>

abbreviation SIZEOF_BLOCK :: u64 where "SIZEOF_BLOCK \<equiv> 32"
abbreviation HEAP_BYTES :: u64 where "HEAP_BYTES \<equiv> 0x100000"

definition set_block :: "u64 \<Rightarrow> (Block \<Rightarrow> Block) \<Rightarrow> heap \<Rightarrow> heap" where
  "set_block a f h = h\<lparr>blocks := (blocks h)(a := f (blocks h a))\<rparr>"

definition kmalloc_init :: "u64 \<Rightarrow> heap \<Rightarrow> heap" where
  "kmalloc_init pmm_bitmap_end h =
     (let start = pmm_bitmap_end;
          h = h\<lparr>heap_start := start\<rparr>;
          h = set_block start (bsize_update (\<lambda>_. HEAP_BYTES - SIZEOF_BLOCK)) h;
          h = set_block start (bused_update (\<lambda>_. 0)) h
      in set_block start (bnext_update (\<lambda>_. 0)) h)"

text \<open>The split of a block: the code's five assignments in their order.\<close>

definition split_block :: "u64 \<Rightarrow> u64 \<Rightarrow> heap \<Rightarrow> heap" where
  "split_block current sz h =
     (let neu = current + SIZEOF_BLOCK + sz;
          h = set_block neu (bsize_update (\<lambda>_. bsize (blocks h current) - sz - SIZEOF_BLOCK)) h;
          h = set_block neu (bused_update (\<lambda>_. 0)) h;
          h = set_block neu (bnext_update (\<lambda>_. bnext (blocks h current))) h;
          h = set_block current (bsize_update (\<lambda>_. sz)) h
      in set_block current (bnext_update (\<lambda>_. neu)) h)"

text \<open>
  The loop of \<^verbatim>\<open>kmalloc\<close>.  A chain of headers need not end, so the loop need not: \<open>None\<close> stands
  for a search that never returns.
\<close>

partial_function (option) kmalloc_from :: "u64 \<Rightarrow> u64 \<Rightarrow> heap \<Rightarrow> (heap \<times> u64) option" where
  "kmalloc_from sz current h =
     (if current = 0 then Some (h, 0)
      else if bused (blocks h current) = 0 \<and> bsize (blocks h current) \<ge> sz then
        (let h = (if bsize (blocks h current) > sz + SIZEOF_BLOCK
                  then split_block current sz h else h)
         in Some (set_block current (bused_update (\<lambda>_. 1)) h, current + SIZEOF_BLOCK))
      else kmalloc_from sz (bnext (blocks h current)) h)"

definition kmalloc :: "u64 \<Rightarrow> heap \<Rightarrow> (heap \<times> u64) option" where
  "kmalloc sz h = (if heap_start h = 0 then Some (h, 0) else kmalloc_from sz (heap_start h) h)"

partial_function (option) merge_blocks :: "u64 \<Rightarrow> heap \<Rightarrow> heap option" where
  "merge_blocks block h =
     (if bnext (blocks h block) \<noteq> 0 \<and> bused (blocks h (bnext (blocks h block))) = 0 then
        (let nxt = bnext (blocks h block);
             h = set_block block
                   (bsize_update (\<lambda>s. s + (SIZEOF_BLOCK + bsize (blocks h nxt)))) h
         in merge_blocks block
              (set_block block (bnext_update (\<lambda>_. bnext (blocks h nxt))) h))
      else Some h)"

definition kfree :: "u64 \<Rightarrow> heap \<Rightarrow> heap option" where
  "kfree ptr h =
     (if ptr = 0 then Some h
      else let block = ptr - SIZEOF_BLOCK
           in merge_blocks block (set_block block (bused_update (\<lambda>_. 0)) h))"

section \<open>Specification: a list of segments\<close>

type_synonym seg = "nat \<times> bool"

text \<open>First fit: the new segments and the offset of the header of the segment handed out.\<close>

fun first_fit :: "nat \<Rightarrow> seg list \<Rightarrow> (seg list \<times> nat) option" where
  "first_fit n [] = None"
| "first_fit n ((s, u) # xs) =
     (if \<not> u \<and> n \<le> s
      then Some (if n + 32 < s then (n, True) # (s - n - 32, False) # xs else (s, True) # xs, 0)
      else (case first_fit n xs of None \<Rightarrow> None
            | Some (ys, off) \<Rightarrow> Some ((s, u) # ys, 32 + s + off)))"

fun absorb :: "nat \<Rightarrow> seg list \<Rightarrow> seg list" where
  "absorb s [] = [(s, False)]"
| "absorb s ((t, u) # xs) = (if u then (s, False) # (t, u) # xs else absorb (s + 32 + t) xs)"

definition release :: "nat \<Rightarrow> seg list \<Rightarrow> seg list" where
  "release i xs = take i xs @ absorb (fst (xs ! i)) (drop (Suc i) xs)"

text \<open>Bytes a segment list occupies, headers included, and the offset of segment \<open>i\<close>.\<close>

definition seg_bytes :: "seg list \<Rightarrow> nat" where
  "seg_bytes xs = sum_list (map (\<lambda>x. 32 + fst x) xs)"

definition seg_off :: "nat \<Rightarrow> seg list \<Rightarrow> nat" where
  "seg_off i xs = seg_bytes (take i xs)"

lemma seg_bytes_simps [simp]:
  "seg_bytes [] = 0" "seg_bytes (x # xs) = 32 + fst x + seg_bytes xs"
  "seg_bytes (xs @ ys) = seg_bytes xs + seg_bytes ys"
  by (simp_all add: seg_bytes_def)

lemma seg_off_simps [simp]:
  "seg_off 0 xs = 0" "seg_off (Suc i) (x # xs) = 32 + fst x + seg_off i xs"
  by (simp_all add: seg_off_def)

lemma seg_off_bound: "i < length xs \<Longrightarrow> seg_off i xs + 32 + fst (xs ! i) \<le> seg_bytes xs"
proof (induction xs arbitrary: i)
  case (Cons x xs)
  show ?case
  proof (cases i)
    case (Suc j)
    then show ?thesis using Cons.IH [of j] Cons.prems by simp
  qed simp
qed simp

text \<open>
  \<open>first_fit\<close> hands out the first free segment that is large enough: \<open>i\<close> is its index.
\<close>

lemma first_fit_index:
  "first_fit n xs = Some (ys, off) \<Longrightarrow>
     \<exists>i s. i < length xs \<and> xs ! i = (s, False) \<and> n \<le> s \<and> off = seg_off i xs \<and>
       (\<forall>j<i. snd (xs ! j) \<or> fst (xs ! j) < n) \<and>
       ys = take i xs @ (if n + 32 < s then [(n, True), (s - n - 32, False)] else [(s, True)])
            @ drop (Suc i) xs"
proof (induction n xs arbitrary: ys off rule: first_fit.induct)
  case (2 n s u xs)
  show ?case
  proof (cases "\<not> u \<and> n \<le> s")
    case True
    then show ?thesis using "2.prems"
      by (rule_tac x = 0 in exI, rule_tac x = s in exI) (auto split: if_splits)
  next
    case False
    with "2.prems" obtain ys1 off1 where r: "first_fit n xs = Some (ys1, off1)"
      and eq: "ys = (s, u) # ys1" "off = 32 + s + off1" by (auto split: option.splits)
    from "2.IH" [OF False r] obtain i t where "i < length xs" "xs ! i = (t, False)" "n \<le> t"
      "off1 = seg_off i xs" "\<forall>j<i. snd (xs ! j) \<or> fst (xs ! j) < n"
      "ys1 = take i xs @ (if n + 32 < t then [(n, True), (t - n - 32, False)] else [(t, True)])
            @ drop (Suc i) xs" by blast
    then show ?thesis using eq False
      by (intro exI [of _ "Suc i"] exI [of _ t]) (auto simp: nth_Cons split: nat.splits)
  qed
qed simp

lemma first_fit_None: "first_fit n xs = None \<longleftrightarrow> (\<forall>(s, u)\<in>set xs. u \<or> s < n)"
  by (induction n xs rule: first_fit.induct) (auto split: option.splits)

lemma first_fit_bytes: "first_fit n xs = Some (ys, off) \<Longrightarrow> seg_bytes ys = seg_bytes xs"
  by (induction n xs arbitrary: ys off rule: first_fit.induct)
     (auto split: option.splits if_splits)

lemma absorb_bytes: "seg_bytes (absorb s xs) = 32 + s + seg_bytes xs"
  by (induction s xs rule: absorb.induct) auto

lemma release_bytes: "i < length xs \<Longrightarrow> seg_bytes (release i xs) = seg_bytes xs"
  by (subst (2) id_take_nth_drop [of i xs]) (simp_all add: release_def absorb_bytes)

section \<open>The chain of headers and its segments\<close>

fun heap_list :: "(u64 \<Rightarrow> Block) \<Rightarrow> u64 \<Rightarrow> nat \<Rightarrow> nat \<Rightarrow> u64 list \<Rightarrow> bool" where
  "heap_list m p lo hi [] \<longleftrightarrow> p = 0 \<and> lo = hi"
| "heap_list m p lo hi (a # as) \<longleftrightarrow>
     p = a \<and> unat a = lo \<and> 0 < lo \<and>
     heap_list m (bnext (m a)) (lo + 32 + unat (bsize (m a))) hi as"

definition segs :: "(u64 \<Rightarrow> Block) \<Rightarrow> u64 list \<Rightarrow> seg list" where
  "segs m as = map (\<lambda>a. (unat (bsize (m a)), bused (m a) \<noteq> 0)) as"

definition heap_view :: "heap \<Rightarrow> seg list \<Rightarrow> bool" where
  "heap_view h xs \<longleftrightarrow>
     0 < unat (heap_start h) \<and> unat (heap_start h) + unat HEAP_BYTES < 2 ^ 64 \<and>
     (\<exists>as. heap_list (blocks h) (heap_start h) (unat (heap_start h))
             (unat (heap_start h) + unat HEAP_BYTES) as \<and> segs (blocks h) as = xs)"

lemma segs_simps [simp]:
  "segs m [] = []" "segs m (a # as) = (unat (bsize (m a)), bused (m a) \<noteq> 0) # segs m as"
  "length (segs m as) = length as"
  by (simp_all add: segs_def)

lemma heap_list_bytes: "heap_list m p lo hi as \<Longrightarrow> hi = lo + seg_bytes (segs m as)"
  by (induction m p lo hi as rule: heap_list.induct) auto

lemma heap_list_addr:
  "heap_list m p lo hi as \<Longrightarrow> i < length as \<Longrightarrow> unat (as ! i) = lo + seg_off i (segs m as)"
proof (induction m p lo hi as arbitrary: i rule: heap_list.induct)
  case (2 m p lo hi a as)
  then show ?case by (cases i) auto
qed simp

lemma heap_list_mem:
  "heap_list m p lo hi as \<Longrightarrow> a \<in> set as \<Longrightarrow> lo \<le> unat a \<and> unat a + 32 + unat (bsize (m a)) \<le> hi"
proof (induction m p lo hi as rule: heap_list.induct)
  case (2 m p lo hi b as)
  then show ?case using heap_list_bytes [of m "bnext (m b)" _ hi as] by fastforce
qed simp

lemma heap_list_cong:
  "(\<And>a. a \<in> set as \<Longrightarrow> m' a = m a) \<Longrightarrow> heap_list m' p lo hi as = heap_list m p lo hi as"
  by (induction m p lo hi as rule: heap_list.induct) auto

lemma segs_cong: "(\<And>a. a \<in> set as \<Longrightarrow> m' a = m a) \<Longrightarrow> segs m' as = segs m as"
  by (simp add: segs_def)

text \<open>Headers outside the tail of the chain do not matter to it.\<close>

lemma heap_list_above:
  assumes "heap_list m p lo hi as" and "\<And>b. lo \<le> unat b \<Longrightarrow> m' b = m b"
  shows "heap_list m' p lo hi as" and "segs m' as = segs m as"
  using heap_list_mem [OF assms(1)] assms heap_list_cong [of as m' m] segs_cong [of as m' m]
  by blast+

section \<open>kmalloc refines first fit\<close>

text \<open>Writes at addresses of \<open>[lo, hi)\<close> only.\<close>

definition writes_within :: "nat \<Rightarrow> nat \<Rightarrow> heap \<Rightarrow> heap \<Rightarrow> bool" where
  "writes_within lo hi h h' \<longleftrightarrow>
     heap_start h' = heap_start h \<and>
     (\<forall>b. unat b < lo \<or> hi \<le> unat b \<longrightarrow> blocks h' b = blocks h b)"

lemma writes_within_trans:
  "writes_within lo hi h h1 \<Longrightarrow> writes_within lo hi h1 h2 \<Longrightarrow> writes_within lo hi h h2"
  by (auto simp: writes_within_def)

lemma writes_within_mono:
  "writes_within lo hi h h1 \<Longrightarrow> lo' \<le> lo \<Longrightarrow> hi \<le> hi' \<Longrightarrow> writes_within lo' hi' h h1"
  by (auto simp: writes_within_def)

lemma set_block_simps [simp]:
  "heap_start (set_block a f h) = heap_start h"
  "blocks (set_block a f h) b = (if b = a then f (blocks h a) else blocks h b)"
  by (simp_all add: set_block_def)

lemma set_block_within: "lo \<le> unat a \<Longrightarrow> unat a < hi \<Longrightarrow> writes_within lo hi h (set_block a f h)"
  by (auto simp: writes_within_def)

text \<open>The tail of the chain after a write below it.\<close>

lemma heap_list_within:
  assumes "heap_list (blocks h) p lo hi as" and "writes_within lo' lo h h'"
  shows "heap_list (blocks h') p lo hi as" and "segs (blocks h') as = segs (blocks h) as"
  using heap_list_above [OF assms(1), of "blocks h'"] assms(2)
  by (auto simp: writes_within_def)

lemma unat_add3:
  fixes a b :: u64
  assumes "unat a + (32 + unat b) < 2 ^ 64"
  shows "unat (a + SIZEOF_BLOCK + b) = unat a + 32 + unat b"
proof -
  have "unat (a + SIZEOF_BLOCK) = unat a + 32"
    using unat_add_fits [of a SIZEOF_BLOCK] assms by simp
  then show ?thesis using unat_add_fits [of "a + SIZEOF_BLOCK" b] assms by simp
qed

text \<open>Splitting the first block of a chain, large enough for the request and a header.\<close>

lemma split_block_chain:
  assumes "heap_list (blocks h) a lo hi (a # as)" and "hi < 2 ^ 64"
    and "unat n + 32 < unat (bsize (blocks h a))"
  shows "\<exists>h'. split_block a n h = h' \<and>
      heap_list (blocks h') a lo hi (a # (a + SIZEOF_BLOCK + n) # as) \<and>
      segs (blocks h') (a # (a + SIZEOF_BLOCK + n) # as) =
        (unat n, bused (blocks h a) \<noteq> 0) # (unat (bsize (blocks h a)) - unat n - 32, False)
          # segs (blocks h) as \<and>
      writes_within lo (lo + 32 + unat (bsize (blocks h a))) h h'"
proof -
  let ?s = "bsize (blocks h a)" and ?neu = "a + SIZEOF_BLOCK + n"
  let ?h' = "split_block a n h"
  have lo: "unat a = lo" "0 < lo" and tl: "heap_list (blocks h) (bnext (blocks h a)) (lo + 32 + unat ?s) hi as"
    using assms(1) by auto
  have hi: "lo + 32 + unat ?s \<le> hi" using heap_list_bytes [OF tl] by simp
  have neu: "unat ?neu = lo + 32 + unat n"
    using unat_add3 [of a n] hi assms(2,3) lo by simp
  then have ne: "?neu \<noteq> a" using lo by (metis add_cancel_left_right add_is_0 zero_neq_numeral
        add.assoc)
  have b: "blocks ?h' b = (if b = a then (blocks h a)\<lparr>bsize := n, bnext := ?neu\<rparr>
      else if b = ?neu then (blocks h ?neu)\<lparr>bsize := ?s - n - SIZEOF_BLOCK, bused := 0,
        bnext := bnext (blocks h a)\<rparr> else blocks h b)" for b
    using ne by (simp add: split_block_def Let_def)
  have within: "writes_within lo (lo + 32 + unat ?s) h ?h'"
    using lo neu assms(3) by (auto simp: writes_within_def b) (simp add: split_block_def Let_def)
  have d1: "unat (?s - n) = unat ?s - unat n" using assms(3) by (intro unat_sub_le) simp
  have d2: "unat (?s - n - SIZEOF_BLOCK) = unat ?s - unat n - 32"
    using unat_sub_le [of SIZEOF_BLOCK "?s - n"] assms(3) d1 by simp
  note tl' = heap_list_within [OF tl within]
  show ?thesis
    using tl' lo neu ne d2 within assms(3) by (simp add: b ac_simps)
qed

lemma kmalloc_from_first_fit:
  "heap_list (blocks h) p lo hi as \<Longrightarrow> hi < 2 ^ 64 \<Longrightarrow>
   (case first_fit (unat n) (segs (blocks h) as) of
      None \<Rightarrow> kmalloc_from n p h = Some (h, 0)
    | Some (ys, off) \<Rightarrow> \<exists>h' r as'. kmalloc_from n p h = Some (h', r) \<and>
        unat r = lo + off + 32 \<and> heap_list (blocks h') p lo hi as' \<and>
        segs (blocks h') as' = ys \<and> writes_within lo hi h h')"
proof (induction as arbitrary: p lo)
  case Nil
  then show ?case by (simp add: kmalloc_from.simps)
next
  case (Cons a as)
  let ?b = "blocks h a"
  have p: "p = a" "unat a = lo" "0 < lo" and a0: "a \<noteq> 0"
    and tl: "heap_list (blocks h) (bnext ?b) (lo + 32 + unat (bsize ?b)) hi as"
    using Cons.prems by auto
  have hi: "lo + 32 + unat (bsize ?b) \<le> hi" using heap_list_bytes [OF tl] by simp
  show ?case
  proof (cases "bused ?b = 0 \<and> n \<le> bsize ?b")
    case fit: True
    have small: "unat n \<le> unat (bsize ?b)" using fit by (simp add: word_le_nat_alt)
    have sum: "unat (n + SIZEOF_BLOCK) = unat n + 32"
      using unat_add_fits [of n SIZEOF_BLOCK] small hi Cons.prems(2) by simp
    have r: "unat (a + SIZEOF_BLOCK) = lo + 32"
      using unat_add_fits [of a SIZEOF_BLOCK] hi Cons.prems(2) p by simp
    show ?thesis
    proof (cases "n + SIZEOF_BLOCK < bsize ?b")
      case split: True
      then have big: "unat n + 32 < unat (bsize ?b)" using sum by (simp add: word_less_nat_alt)
      obtain h1 where h1: "split_block a n h = h1"
        "heap_list (blocks h1) a lo hi (a # (a + SIZEOF_BLOCK + n) # as)"
        "segs (blocks h1) (a # (a + SIZEOF_BLOCK + n) # as) =
          (unat n, False) # (unat (bsize ?b) - unat n - 32, False) # segs (blocks h) as"
        "writes_within lo (lo + 32 + unat (bsize ?b)) h h1"
        using split_block_chain [of h a lo hi as n] Cons.prems p big fit by auto
      let ?h' = "set_block a (bused_update (\<lambda>_. 1)) h1"
      have keep: "heap_list (blocks ?h') a lo hi (a # (a + SIZEOF_BLOCK + n) # as)"
        using h1(2) heap_list_within [of h1 _ "lo + 32 + unat n" hi "(a + SIZEOF_BLOCK + n) # as"
            lo ?h'] h1(3) p set_block_within [of lo a "lo + 32 + unat n"] by auto
      have sg: "segs (blocks ?h') (a # (a + SIZEOF_BLOCK + n) # as) =
          (unat n, True) # (unat (bsize ?b) - unat n - 32, False) # segs (blocks h) as"
        using h1(2,3) heap_list_within(2) [of h1 _ "lo + 32 + unat n" hi
            "(a + SIZEOF_BLOCK + n) # as" lo ?h'] p
          set_block_within [of lo a "lo + 32 + unat n"] by auto
      have km: "kmalloc_from n p h = Some (?h', a + SIZEOF_BLOCK)"
        using fit split h1(1) a0 p by (simp add: kmalloc_from.simps)
      have wi: "writes_within lo hi h ?h'"
        using writes_within_trans [OF writes_within_mono [OF h1(4) le_refl hi]
            set_block_within [of lo a hi]] p hi by auto
      have ff: "first_fit (unat n) (segs (blocks h) (a # as)) =
          Some ((unat n, True) # (unat (bsize ?b) - unat n - 32, False) # segs (blocks h) as, 0)"
        using fit small big by simp
      have "unat (a + SIZEOF_BLOCK) = lo + 0 + 32" using r by simp
      then show ?thesis unfolding ff option.case prod.case using km keep sg wi p(1) by blast
    next
      case nosplit: False
      then have nbig: "\<not> unat n + 32 < unat (bsize ?b)" using sum by (simp add: word_less_nat_alt)
      let ?h' = "set_block a (bused_update (\<lambda>_. 1)) h"
      have w: "writes_within lo (lo + 32 + unat (bsize ?b)) h ?h'"
        using set_block_within p by simp
      note tl' = heap_list_within [OF tl w]
      have "kmalloc_from n p h = Some (?h', a + SIZEOF_BLOCK)"
        using fit nosplit a0 p by (simp add: kmalloc_from.simps)
      then show ?thesis
        using tl' p fit small nbig r writes_within_mono [OF w le_refl hi]
        by (auto intro!: exI [of _ "a # as"])
    qed
  next
    case nofit: False
    have rec: "kmalloc_from n p h = kmalloc_from n (bnext ?b) h"
      using nofit a0 p by (subst kmalloc_from.simps) auto
    have ff: "\<not> (\<not> bused ?b \<noteq> 0 \<and> unat n \<le> unat (bsize ?b))"
      using nofit by (simp add: word_le_nat_alt)
    note IH = Cons.IH [OF tl Cons.prems(2)]
    show ?thesis
    proof (cases "first_fit (unat n) (segs (blocks h) as)")
      case None
      then show ?thesis using IH rec ff by auto
    next
      case (Some r)
      obtain ys off where r: "r = (ys, off)" by (cases r)
      from IH [unfolded Some r] obtain h' q as' where
        h': "kmalloc_from n (bnext ?b) h = Some (h', q)"
        "unat q = lo + 32 + unat (bsize ?b) + off + 32"
        "heap_list (blocks h') (bnext ?b) (lo + 32 + unat (bsize ?b)) hi as'"
        "segs (blocks h') as' = ys" "writes_within (lo + 32 + unat (bsize ?b)) hi h h'" by auto
      have "blocks h' a = ?b" using h'(5) p by (simp add: writes_within_def)
      then show ?thesis
        using h' rec ff Some r p writes_within_mono [OF h'(5), of lo hi]
        by (auto intro!: exI [of _ "a # as'"])
    qed
  qed
qed

section \<open>kfree refines release\<close>

lemma heap_list_suffix:
  "heap_list m p lo hi (pre @ a # post) \<Longrightarrow> heap_list m a (unat a) hi (a # post)"
  by (induction pre arbitrary: p lo) auto

lemma heap_list_pre_less:
  "heap_list m p lo hi (pre @ a # post) \<Longrightarrow> b \<in> set pre \<Longrightarrow> unat b < unat a"
proof (induction pre arbitrary: p lo)
  case (Cons c pre)
  show ?case
  proof (cases "b = c")
    case True
    then show ?thesis
      using heap_list_mem [of m "bnext (m c)" "lo + 32 + unat (bsize (m c))" hi "pre @ a # post" a]
        Cons.prems by auto
  next
    case False
    then show ?thesis using Cons by auto
  qed
qed simp

lemma heap_list_replace:
  assumes "heap_list m p lo hi (pre @ a # post)" and "heap_list m' a (unat a) hi (a # post')"
    and "\<And>b. b \<in> set pre \<Longrightarrow> m' b = m b"
  shows "heap_list m' p lo hi (pre @ a # post')"
  using assms by (induction pre arbitrary: p lo) auto

lemma heap_list_distinct: "heap_list m p lo hi as \<Longrightarrow> distinct as"
proof (induction as arbitrary: p lo)
  case (Cons a as)
  have "a \<notin> set as"
  proof
    assume "a \<in> set as"
    then have "unat a < unat a"
      using heap_list_mem [of m "bnext (m a)" "lo + 32 + unat (bsize (m a))" hi as a] Cons.prems
      by auto
    then show False by simp
  qed
  then show ?case using Cons by auto
qed simp

lemma merge_blocks_absorb:
  "heap_list (blocks h) a (unat a) hi (a # as) \<Longrightarrow> hi < 2 ^ 64 \<Longrightarrow> bused (blocks h a) = 0 \<Longrightarrow>
   \<exists>h' as'. merge_blocks a h = Some h' \<and> heap_list (blocks h') a (unat a) hi (a # as') \<and>
     segs (blocks h') (a # as') = absorb (unat (bsize (blocks h a))) (segs (blocks h) as) \<and>
     heap_start h' = heap_start h \<and> (\<forall>b. b \<noteq> a \<longrightarrow> blocks h' b = blocks h b)"
proof (induction as arbitrary: h)
  case Nil
  then have "bnext (blocks h a) = 0" by simp
  then have "merge_blocks a h = Some h" by (simp add: merge_blocks.simps)
  then show ?case using Nil by (auto intro!: exI [of _ "[]"])
next
  case (Cons c cs)
  let ?s = "bsize (blocks h a)" and ?t = "bsize (blocks h c)"
  have c: "bnext (blocks h a) = c" "unat c = unat a + 32 + unat ?s" "0 < unat c"
    and tl: "heap_list (blocks h) (bnext (blocks h c)) (unat c + 32 + unat ?t) hi cs"
    using Cons.prems(1) by auto
  then have c0: "c \<noteq> 0" by auto
  show ?case
  proof (cases "bused (blocks h c) = 0")
    case True
    define h2 where "h2 = set_block a (bnext_update (\<lambda>_. bnext (blocks
      (set_block a (bsize_update (\<lambda>s. s + (SIZEOF_BLOCK + ?t))) h) c)))
      (set_block a (bsize_update (\<lambda>s. s + (SIZEOF_BLOCK + ?t))) h)"
    have ac: "a \<noteq> c" using c(2) by auto
    have b2: "blocks h2 b = (if b = a then (blocks h a)\<lparr>bsize := ?s + (SIZEOF_BLOCK + ?t),
        bnext := bnext (blocks h c)\<rparr> else blocks h b)" "heap_start h2 = heap_start h" for b
      using ac by (auto simp: h2_def)
    have rec: "merge_blocks a h = merge_blocks a h2"
      using True c(1) c0 by (subst merge_blocks.simps) (simp add: Let_def h2_def)
    have hi: "unat c + 32 + unat ?t \<le> hi" using heap_list_bytes [OF tl] by simp
    have "unat (SIZEOF_BLOCK + ?t) = 32 + unat ?t"
      using unat_add_fits [of SIZEOF_BLOCK ?t] hi Cons.prems(2) by simp
    then have sum: "unat (?s + (SIZEOF_BLOCK + ?t)) = unat ?s + 32 + unat ?t"
      using unat_add_fits [of ?s "SIZEOF_BLOCK + ?t"] hi c(2) Cons.prems(2) by simp
    have out: "a \<notin> set cs"
      using heap_list_distinct [OF Cons.prems(1)] by simp
    have same: "heap_list (blocks h2) q l hi cs = heap_list (blocks h) q l hi cs" for q l
      using out by (intro heap_list_cong) (auto simp: b2)
    have sg: "segs (blocks h2) cs = segs (blocks h) cs"
      using out by (intro segs_cong) (auto simp: b2)
    have nx: "bnext (blocks h2 a) = bnext (blocks h c)" by (simp add: b2)
    have len: "unat a + 32 + unat (bsize (blocks h2 a)) = unat c + 32 + unat ?t"
      using c(2) sum by (simp add: b2)
    have "heap_list (blocks h2) a (unat a) hi (a # cs)"
      unfolding heap_list.simps same nx len using tl Cons.prems(1) by simp
    moreover have "bused (blocks h2 a) = 0" using Cons.prems(3) by (simp add: b2)
    ultimately obtain h' as' where "merge_blocks a h2 = Some h'"
      "heap_list (blocks h') a (unat a) hi (a # as')"
      "segs (blocks h') (a # as') = absorb (unat (bsize (blocks h2 a))) (segs (blocks h2) cs)"
      "heap_start h' = heap_start h2" "\<forall>b. b \<noteq> a \<longrightarrow> blocks h' b = blocks h2 b"
      using Cons.IH [of h2] Cons.prems(2) by blast
    then show ?thesis using rec sg sum True b2 by (intro exI [of _ h'] exI [of _ as']) auto
  next
    case False
    then have "merge_blocks a h = Some h"
      using c(1) c0 by (subst merge_blocks.simps) auto
    then show ?thesis using Cons.prems False by (intro exI [of _ h] exI [of _ "c # cs"]) auto
  qed
qed

lemma segs_append [simp]: "segs m (as @ bs) = segs m as @ segs m bs"
  by (simp add: segs_def)

lemma kfree_release:
  assumes "heap_list (blocks h) p lo hi as" and "hi < 2 ^ 64" and "i < length as"
  shows "\<exists>h' as'. kfree (as ! i + SIZEOF_BLOCK) h = Some h' \<and> heap_list (blocks h') p lo hi as' \<and>
    segs (blocks h') as' = release i (segs (blocks h) as) \<and> heap_start h' = heap_start h"
proof -
  let ?a = "as ! i" and ?pre = "take i as" and ?post = "drop (Suc i) as"
  let ?h1 = "set_block ?a (bused_update (\<lambda>_. 0)) h"
  have dec: "as = ?pre @ ?a # ?post" using assms(3) by (simp add: id_take_nth_drop)
  have list: "heap_list (blocks h) p lo hi (?pre @ ?a # ?post)" using assms(1) dec by simp
  have suf: "heap_list (blocks h) ?a (unat ?a) hi (?a # ?post)" by (rule heap_list_suffix [OF list])
  have out: "?a \<notin> set ?post" using heap_list_distinct [OF suf] by simp
  have same: "heap_list (blocks ?h1) q l hi ?post = heap_list (blocks h) q l hi ?post" for q l
    using out by (intro heap_list_cong) auto
  have sg: "segs (blocks ?h1) ?post = segs (blocks h) ?post"
    using out by (intro segs_cong) auto
  have "heap_list (blocks ?h1) ?a (unat ?a) hi (?a # ?post)" using suf by (simp add: same)
  then obtain h' post' where h': "merge_blocks ?a ?h1 = Some h'"
    "heap_list (blocks h') ?a (unat ?a) hi (?a # post')"
    "segs (blocks h') (?a # post') = absorb (unat (bsize (blocks h ?a))) (segs (blocks h) ?post)"
    "heap_start h' = heap_start h" "\<forall>b. b \<noteq> ?a \<longrightarrow> blocks h' b = blocks h b"
    using merge_blocks_absorb [of ?h1 ?a hi ?post] assms(2) sg by auto
  have pre: "blocks h' b = blocks h b" if "b \<in> set ?pre" for b
    using heap_list_pre_less [OF list that] h'(5) by (metis less_irrefl)
  have "heap_list (blocks h') p lo hi (?pre @ ?a # post')"
    by (rule heap_list_replace [OF list h'(2) pre])
  moreover have "segs (blocks h') (?pre @ ?a # post') = release i (segs (blocks h) as)"
    using h'(3) segs_cong [of ?pre "blocks h'" "blocks h"] pre assms(3)
    by (simp add: release_def segs_def take_map drop_map)
  moreover have "kfree (?a + SIZEOF_BLOCK) h = Some h'"
  proof -
    have "unat ?a + 32 < 2 ^ 64"
      using heap_list_mem [OF assms(1), of ?a] assms(2,3) by simp
    then have "unat (?a + SIZEOF_BLOCK) = unat ?a + 32"
      using unat_add_fits [of ?a SIZEOF_BLOCK] by simp
    then have "?a + SIZEOF_BLOCK \<noteq> 0" by (metis add_is_0 unsigned_0 zero_neq_numeral)
    then show ?thesis using h'(1) by (simp add: kfree_def Let_def)
  qed
  ultimately show ?thesis using h'(4) by blast
qed

section \<open>The heap and its contract\<close>

lemma heap_list_unique: "heap_list m p lo hi as \<Longrightarrow> heap_list m p lo hi bs \<Longrightarrow> as = bs"
proof (induction as arbitrary: p lo bs)
  case Nil
  then show ?case by (cases bs) auto
next
  case (Cons a as)
  then show ?case by (cases bs) auto
qed

lemma heap_view_unique: "heap_view h xs \<Longrightarrow> heap_view h ys \<Longrightarrow> xs = ys"
  using heap_list_unique by (fastforce simp: heap_view_def)

lemma heap_view_bytes: "heap_view h xs \<Longrightarrow> seg_bytes xs = unat HEAP_BYTES"
  using heap_list_bytes by (fastforce simp: heap_view_def)

text \<open>Addresses handed out, and the bytes behind them, of segments that start at \<open>lo\<close>.\<close>

fun used_at :: "nat \<Rightarrow> seg list \<Rightarrow> nat set" where
  "used_at lo [] = {}"
| "used_at lo ((s, u) # xs) = (if u then {lo + 32} else {}) \<union> used_at (lo + 32 + s) xs"

fun used_bytes :: "nat \<Rightarrow> seg list \<Rightarrow> nat set" where
  "used_bytes lo [] = {}"
| "used_bytes lo ((s, u) # xs) =
     (if u then {lo + 32..<lo + 32 + s} else {}) \<union> used_bytes (lo + 32 + s) xs"

lemma used_at_above: "b \<in> used_at lo xs \<Longrightarrow> lo + 32 \<le> b"
  by (induction lo xs rule: used_at.induct) (fastforce split: if_splits)+

lemma used_bytes_above: "b \<in> used_bytes lo xs \<Longrightarrow> lo + 32 \<le> b \<and> b < lo + seg_bytes xs"
  by (induction lo xs rule: used_bytes.induct) (fastforce split: if_splits)+

lemma first_fit_used_at:
  "first_fit n xs = Some (ys, off) \<Longrightarrow>
     used_at lo ys = insert (lo + off + 32) (used_at lo xs) \<and> lo + off + 32 \<notin> used_at lo xs"
proof (induction n xs arbitrary: lo ys off rule: first_fit.induct)
  case (2 n s u xs)
  show ?case
  proof (cases "\<not> u \<and> n \<le> s")
    case True
    have "lo + 32 + n + 32 + (s - n - 32) = lo + 32 + s" if "n + 32 < s" using that by simp
    then have "used_at lo ys = insert (lo + 32) (used_at (lo + 32 + s) xs)" "off = 0"
      using "2.prems" True by (auto split: if_splits simp del: add_2_eq_Suc' simp: add.assoc)
    moreover have "lo + 32 \<notin> used_at (lo + 32 + s) xs"
      using used_at_above [of "lo + 32" "lo + 32 + s" xs] by auto
    ultimately show ?thesis using True by simp
  next
    case False
    with "2.prems" obtain ys1 off1 where r: "first_fit n xs = Some (ys1, off1)"
      and eq: "ys = (s, u) # ys1" "off = 32 + s + off1" by (auto split: option.splits)
    from "2.IH" [OF False r, of "lo + 32 + s"] eq show ?thesis by (auto simp: ac_simps)
  qed
qed simp

lemma first_fit_used_bytes:
  "first_fit n xs = Some (ys, off) \<Longrightarrow>
     {lo + off + 32..<lo + off + 32 + n} \<subseteq> used_bytes lo ys - used_bytes lo xs \<and>
     used_bytes lo xs \<subseteq> used_bytes lo ys"
proof (induction n xs arbitrary: lo ys off rule: first_fit.induct)
  case (2 n s u xs)
  have ab: "b < lo + 32 + s \<Longrightarrow> b \<notin> used_bytes (lo + 32 + s) xs" for b
    using used_bytes_above [of b "lo + 32 + s" xs] by auto
  show ?case
  proof (cases "\<not> u \<and> n \<le> s")
    case True
    have off: "off = 0" and ys: "ys = (if n + 32 < s then (n, True) # (s - n - 32, False) # xs
      else (s, True) # xs)" using "2.prems" True by simp_all
    have "used_bytes lo ys = {lo + 32..<lo + 32 + (if n + 32 < s then n else s)}
        \<union> used_bytes (lo + 32 + s) xs"
      by (auto simp: ys ac_simps)
    moreover have "used_bytes lo ((s, u) # xs) = used_bytes (lo + 32 + s) xs" using True by simp
    ultimately show ?thesis using True ab off by auto
  next
    case False
    with "2.prems" obtain ys1 off1 where r: "first_fit n xs = Some (ys1, off1)"
      and eq: "ys = (s, u) # ys1" "off = 32 + s + off1" by (auto split: option.splits)
    have "lo + off + 32 = lo + 32 + s + off1 + 32" using eq by simp
    with "2.IH" [OF False r, of "lo + 32 + s"] eq show ?thesis by auto
  qed
qed simp

lemma absorb_used: "used_at lo (absorb s xs) = used_at (lo + 32 + s) xs"
  by (induction s xs arbitrary: lo rule: absorb.induct) (auto simp: ac_simps)

lemma used_at_append: "used_at lo (xs @ ys) = used_at lo xs \<union> used_at (lo + seg_bytes xs) ys"
  by (induction lo xs rule: used_at.induct) (auto simp: ac_simps)

lemma used_at_below: "b \<in> used_at lo xs \<Longrightarrow> b \<le> lo + seg_bytes xs"
  by (induction lo xs rule: used_at.induct) (fastforce split: if_splits)+

lemma release_used_at:
  assumes "i < length xs" and "snd (xs ! i)"
  shows "used_at lo (release i xs) = used_at lo xs - {lo + seg_off i xs + 32}"
proof -
  obtain s where s: "xs ! i = (s, True)" using assms(2) by (cases "xs ! i") auto
  have xs: "xs = take i xs @ (s, True) # drop (Suc i) xs"
    using id_take_nth_drop [OF assms(1)] s by simp
  let ?l = "lo + seg_bytes (take i xs)"
  have "used_at lo xs = used_at lo (take i xs) \<union> insert (?l + 32) (used_at (?l + 32 + s) (drop (Suc i) xs))"
    by (subst xs) (simp add: used_at_append)
  moreover have "used_at lo (release i xs)
      = used_at lo (take i xs) \<union> used_at (?l + 32 + s) (drop (Suc i) xs)"
    by (simp add: release_def s used_at_append absorb_used)
  moreover have "?l + 32 \<notin> used_at lo (take i xs)"
    using used_at_below [of "?l + 32" lo "take i xs"] by auto
  moreover have "?l + 32 \<notin> used_at (?l + 32 + s) (drop (Suc i) xs)"
    using used_at_above [of "?l + 32" "?l + 32 + s"] by fastforce
  ultimately show ?thesis by (auto simp: seg_off_def)
qed

lemma used_at_index:
  "b \<in> used_at lo xs \<Longrightarrow> \<exists>i<length xs. snd (xs ! i) \<and> b = lo + seg_off i xs + 32"
proof (induction lo xs rule: used_at.induct)
  case (2 lo s u xs)
  show ?case
  proof (cases "b = lo + 32 \<and> u")
    case True
    then show ?thesis by (intro exI [of _ 0]) simp
  next
    case False
    then have "b \<in> used_at (lo + 32 + s) xs" using "2.prems" by (auto split: if_splits)
    from "2.IH" [OF this] obtain i where "i < length xs" "snd (xs ! i)"
      "b = lo + 32 + s + seg_off i xs + 32" by blast
    then show ?thesis by (intro exI [of _ "Suc i"]) simp
  qed
qed simp


text \<open>Bytes of the headers; no byte handed out is one of them.\<close>

fun header_bytes :: "nat \<Rightarrow> seg list \<Rightarrow> nat set" where
  "header_bytes lo [] = {}"
| "header_bytes lo ((s, u) # xs) = {lo..<lo + 32} \<union> header_bytes (lo + 32 + s) xs"

lemma header_bytes_above: "b \<in> header_bytes lo xs \<Longrightarrow> lo \<le> b"
  by (induction lo xs rule: header_bytes.induct) fastforce+

lemma header_bytes_apart: "used_bytes lo xs \<inter> header_bytes lo xs = {}"
proof (induction lo xs rule: header_bytes.induct)
  case (2 lo s u xs)
  then show ?case
    using header_bytes_above [of _ "lo + 32 + s" xs] used_bytes_above [of _ "lo + 32 + s" xs]
    by (fastforce split: if_splits)
qed simp

lemma kmalloc_first_fit:
  assumes "heap_view h xs"
  shows "case first_fit (unat n) xs of
      None \<Rightarrow> kmalloc n h = Some (h, 0)
    | Some (ys, off) \<Rightarrow> \<exists>h' r. kmalloc n h = Some (h', r) \<and> heap_view h' ys \<and>
        heap_start h' = heap_start h \<and> unat r = unat (heap_start h) + off + 32"
proof -
  let ?lo = "unat (heap_start h)" and ?hi = "unat (heap_start h) + unat HEAP_BYTES"
  from assms obtain as where as: "heap_list (blocks h) (heap_start h) ?lo ?hi as"
    "segs (blocks h) as = xs" and b: "0 < ?lo" "?hi < 2 ^ 64" by (auto simp: heap_view_def)
  have "heap_start h \<noteq> 0" using b(1) by auto
  then have km: "kmalloc n h = kmalloc_from n (heap_start h) h" by (simp add: kmalloc_def)
  from kmalloc_from_first_fit [OF as(1) b(2), of n] show ?thesis
    using as(2) b unfolding km
    by (auto simp: heap_view_def writes_within_def split: option.splits prod.splits)
qed

lemma kmalloc_cases:
  assumes "heap_view h xs" and "kmalloc n h = Some (h', r)"
  obtains (fail) "first_fit (unat n) xs = None" "h' = h" "r = 0"
  | (ok) ys off where "first_fit (unat n) xs = Some (ys, off)" "heap_view h' ys" "r \<noteq> 0"
      "heap_start h' = heap_start h" "unat r = unat (heap_start h) + off + 32"
  using kmalloc_first_fit [OF assms(1), of n] assms(2)
  by (cases "first_fit (unat n) xs") (auto simp: unat_eq_0 [symmetric])

text \<open>The address of segment \<open>i\<close>'s payload.\<close>

definition payload :: "heap \<Rightarrow> seg list \<Rightarrow> nat \<Rightarrow> u64" where
  "payload h xs i = heap_start h + of_nat (seg_off i xs) + SIZEOF_BLOCK"

lemma unat_payload:
  assumes "heap_view h xs" and "i < length xs"
  shows "unat (payload h xs i) = unat (heap_start h) + seg_off i xs + 32"
proof -
  have "seg_off i xs + 32 \<le> unat HEAP_BYTES"
    using seg_off_bound [OF assms(2)] heap_view_bytes [OF assms(1)] by linarith
  moreover have "unat (heap_start h) + unat HEAP_BYTES < 2 ^ 64"
    using assms(1) by (simp add: heap_view_def)
  ultimately have b: "unat (heap_start h) + seg_off i xs + 32 < 2 ^ 64" by linarith
  then have "unat (of_nat (seg_off i xs) :: u64) = seg_off i xs"
    by (intro unat_of_nat_fits) simp
  then have "unat (heap_start h + of_nat (seg_off i xs)) = unat (heap_start h) + seg_off i xs"
    using unat_add_fits [of "heap_start h" "of_nat (seg_off i xs)"] b by simp
  then show ?thesis
    using unat_add_fits [of "heap_start h + of_nat (seg_off i xs)" SIZEOF_BLOCK] b
    by (simp add: payload_def)
qed

lemma kfree_view:
  assumes "heap_view h xs" and "i < length xs"
  shows "\<exists>h'. kfree (payload h xs i) h = Some h' \<and> heap_view h' (release i xs) \<and>
    heap_start h' = heap_start h"
proof -
  let ?lo = "unat (heap_start h)" and ?hi = "unat (heap_start h) + unat HEAP_BYTES"
  from assms(1) obtain as where as: "heap_list (blocks h) (heap_start h) ?lo ?hi as"
    "segs (blocks h) as = xs" and b: "0 < ?lo" "?hi < 2 ^ 64" by (auto simp: heap_view_def)
  have i: "i < length as" using assms(2) as(2) by auto
  have ai: "unat (as ! i) = ?lo + seg_off i xs" using heap_list_addr [OF as(1) i] as(2) by simp
  have "seg_off i xs + 32 \<le> unat HEAP_BYTES"
    using seg_off_bound [OF assms(2)] heap_view_bytes [OF assms(1)] by linarith
  then have fits: "unat (as ! i) + unat SIZEOF_BLOCK < 2 ^ 64" using ai b(2) by simp
  have "unat (as ! i + SIZEOF_BLOCK) = unat (payload h xs i)"
    using unat_add_fits [of "as ! i" SIZEOF_BLOCK] fits unat_payload [OF assms] ai by simp
  then have "as ! i + SIZEOF_BLOCK = payload h xs i" by (simp only: word_unat_eq_iff)
  with kfree_release [OF as(1) b(2) i] as(2) b show ?thesis
    by (auto simp: heap_view_def)
qed

text \<open>A heap as the allocator's callers see it: well formed, with these addresses handed out.\<close>

definition heap_inv :: "heap \<Rightarrow> bool" where
  "heap_inv h \<longleftrightarrow> (\<exists>xs. heap_view h xs)"

definition heap_live :: "heap \<Rightarrow> u64 set" where
  "heap_live h = {a. \<exists>xs. heap_view h xs \<and> unat a \<in> used_at (unat (heap_start h)) xs}"

lemma heap_live_view:
  "heap_view h xs \<Longrightarrow> heap_live h = {a. unat a \<in> used_at (unat (heap_start h)) xs}"
  using heap_view_unique by (auto simp: heap_live_def)

interpretation kheap: allocator kmalloc kfree heap_inv heap_live 0
proof unfold_locales
  fix h h' :: heap and n a :: u64
  assume "heap_inv h"
  then obtain xs where xs: "heap_view h xs" by (auto simp: heap_inv_def)
  show "\<exists>h' a. kmalloc n h = Some (h', a)"
    using kmalloc_first_fit [OF xs, of n] by (auto split: option.splits)
  {
    assume km: "kmalloc n h = Some (h', a)"
    show "heap_inv h'" using kmalloc_cases [OF xs km] xs by (metis heap_inv_def)
    assume "a \<noteq> 0"
    with xs km obtain ys off where "first_fit (unat n) xs = Some (ys, off)" "heap_view h' ys"
      "heap_start h' = heap_start h" "unat a = unat (heap_start h) + off + 32"
      by (cases rule: kmalloc_cases) auto
    then have "used_at (unat (heap_start h')) ys = insert (unat a) (used_at (unat (heap_start h)) xs)"
      "unat a \<notin> used_at (unat (heap_start h)) xs" "heap_view h' ys"
      using first_fit_used_at [of "unat n" xs ys off "unat (heap_start h)"] by auto
    then show "a \<notin> heap_live h \<and> heap_live h' = insert a (heap_live h)"
      using xs by (auto simp: heap_live_view word_unat_eq_iff [symmetric])
  }
  show "h' = h" if "kmalloc n h = Some (h', 0)"
    using xs that by (cases rule: kmalloc_cases) auto
  assume "a \<in> heap_live h"
  then have "unat a \<in> used_at (unat (heap_start h)) xs" using xs by (simp add: heap_live_view)
  from used_at_index [OF this] obtain i where i: "i < length xs" "snd (xs ! i)"
    "unat a = unat (heap_start h) + seg_off i xs + 32" by blast
  then have a: "a = payload h xs i" using unat_payload [OF xs i(1)] by (simp add: word_unat_eq_iff)
  from kfree_view [OF xs i(1)] obtain t where t: "kfree a h = Some t"
    "heap_view t (release i xs)" "heap_start t = heap_start h" unfolding a by blast
  have "used_at (unat (heap_start h)) (release i xs) = used_at (unat (heap_start h)) xs - {unat a}"
    unfolding i(3) by (rule release_used_at [OF i(1,2)])
  then have "heap_live t = heap_live h - {a}"
    unfolding heap_live_view [OF t(2)] heap_live_view [OF xs] t(3)
    by (auto simp: word_unat_eq_iff [symmetric])
  with t show "\<exists>t. kfree a h = Some t \<and> heap_inv t \<and> heap_live t = heap_live h - {a}"
    unfolding heap_inv_def by blast
qed

section \<open>Properties\<close>

lemma init_view:
  assumes "0 < e" and "unat e + unat HEAP_BYTES < 2 ^ 64"
  shows "heap_view (kmalloc_init e h) [(unat HEAP_BYTES - 32, False)]"
  using assms
  by (auto simp: heap_view_def kmalloc_init_def Let_def word_less_nat_alt
      intro!: exI [of _ "[e]"])

text \<open>A heap right after \<^verbatim>\<open>kmalloc_init\<close>, used by the concrete instances below.\<close>

definition fresh_heap :: heap where
  "fresh_heap = kmalloc_init 0x200000
     \<lparr>heap_start = 0, blocks = (\<lambda>_. \<lparr>bsize = 0, bused = 7, bnext = 5, bneu = 0\<rparr>)\<rparr>"

lemma fresh_heap_bounds: "(0::u64) < 0x200000" "unat (0x200000 :: u64) + unat HEAP_BYTES < 2 ^ 64"
  by simp_all

lemma fresh_heap_view: "heap_view fresh_heap [(0xFFFE0, False)]"
proof -
  have eq: "unat HEAP_BYTES - 32 = 0xFFFE0" by simp
  show ?thesis unfolding fresh_heap_def by (rule init_view [OF fresh_heap_bounds, unfolded eq])
qed

lemma fresh_heap_start: "heap_start fresh_heap = 0x200000"
  by (simp add: fresh_heap_def kmalloc_init_def Let_def)

text \<open>
  C12: on a well-formed heap \<^verbatim>\<open>kmalloc\<close> returns and does what first fit does on the segments: NULL
  and no change when no free segment is large enough, otherwise the payload of the first one,
  split when more than a header remains.
\<close>

theorem kmalloc_refines_first_fit:
  assumes "heap_view h xs"
  shows "case first_fit (unat n) xs of
      None \<Rightarrow> kmalloc n h = Some (h, 0)
    | Some (ys, off) \<Rightarrow> \<exists>h' r. kmalloc n h = Some (h', r) \<and> heap_view h' ys \<and>
        heap_start h' = heap_start h \<and> unat r = unat (heap_start h) + off + 32"
  by (rule kmalloc_first_fit [OF assms])

lemma kmalloc_refines_first_fit_witness:
  "\<exists>h' r. kmalloc 64 fresh_heap = Some (h', r) \<and>
     heap_view h' [(64, True), (0xFFF80, False)] \<and> unat r = 0x200020"
  using kmalloc_refines_first_fit [OF fresh_heap_view, of 64] by (auto simp: fresh_heap_start)

text \<open>
  the bytes \<^verbatim>\<open>kmalloc\<close> hands out lie inside the heap, hold no block header, belong to no
  region handed out before, and every region handed out before stays handed out.
\<close>

theorem kmalloc_region_fresh:
  assumes "heap_view h xs" and "kmalloc n h = Some (h', r)" and "r \<noteq> 0"
  shows "\<exists>ys. heap_view h' ys \<and>
    (let lo = unat (heap_start h); region = {unat r..<unat r + unat n}
     in region \<subseteq> {lo..<lo + unat HEAP_BYTES} \<and> region \<subseteq> used_bytes lo ys \<and>
        region \<inter> header_bytes lo ys = {} \<and> region \<inter> used_bytes lo xs = {} \<and>
        used_bytes lo xs \<subseteq> used_bytes lo ys)"
  using assms(1,2)
proof (cases rule: kmalloc_cases)
  case fail
  then show ?thesis using assms(3) by simp
next
  case (ok ys off)
  let ?lo = "unat (heap_start h)"
  note fit = first_fit_used_bytes [OF ok(1), of ?lo]
  have sz: "seg_bytes ys = unat HEAP_BYTES" by (rule heap_view_bytes [OF ok(2)])
  have "used_bytes ?lo ys \<subseteq> {?lo..<?lo + unat HEAP_BYTES}"
    unfolding sz [symmetric] using used_bytes_above [of _ ?lo ys] by fastforce
  then show ?thesis
    using fit ok(2,5) header_bytes_apart [of ?lo ys]
    unfolding Let_def by (intro exI [of _ ys]) (simp only: ok(5) ac_simps, blast)
qed

lemma kmalloc_region_fresh_witness:
  "\<exists>h' r ys. kmalloc 64 fresh_heap = Some (h', r) \<and> heap_view h' ys \<and>
     {unat r..<unat r + 64} \<subseteq> used_bytes 0x200000 ys"
proof -
  obtain h' r where km: "kmalloc 64 fresh_heap = Some (h', r)" "unat r = 0x200020"
    using kmalloc_first_fit [OF fresh_heap_view, of 64] by (auto simp: fresh_heap_start)
  then have "r \<noteq> 0" by auto
  from kmalloc_region_fresh [OF fresh_heap_view km(1) this] km(1) show ?thesis
    by (auto simp: Let_def fresh_heap_start)
qed

text \<open>
  C35: \<^verbatim>\<open>kfree\<close> of a block's payload returns, marks the block free and merges it with the free
  blocks that follow it, up to the next used block; the blocks before it stay as they are.
\<close>

theorem kfree_refines_release:
  assumes "heap_view h xs" and "i < length xs"
  shows "\<exists>h'. kfree (payload h xs i) h = Some h' \<and> heap_view h' (release i xs) \<and>
    heap_start h' = heap_start h"
  by (rule kfree_view [OF assms])

lemma kfree_refines_release_witness:
  "\<exists>h'. kfree 0x200020 fresh_heap = Some h' \<and> heap_view h' [(0xFFFE0, False)]"
  using kfree_refines_release [OF fresh_heap_view, of 0]
  by (auto simp: payload_def fresh_heap_start release_def)

text \<open>No free segment is followed by a free one.\<close>

definition merged :: "seg list \<Rightarrow> bool" where
  "merged xs \<longleftrightarrow> (\<forall>i. Suc i < length xs \<longrightarrow> snd (xs ! i) \<or> snd (xs ! Suc i))"

lemma absorb_used_head: "xs = [] \<or> snd (hd xs) \<Longrightarrow> absorb s xs = (s, False) # xs"
  by (cases xs) auto

lemma first_fit_release:
  assumes "first_fit n xs = Some (ys, off)" and "merged xs"
  shows "\<exists>i<length ys. off = seg_off i ys \<and> release i ys = xs"
proof -
  from first_fit_index [OF assms(1)] obtain i s where i: "i < length xs" "xs ! i = (s, False)"
    "n \<le> s" "off = seg_off i xs"
    and ys: "ys = take i xs @ (if n + 32 < s then [(n, True), (s - n - 32, False)] else [(s, True)])
            @ drop (Suc i) xs" by blast
  have "drop (Suc i) xs = [] \<or> snd (hd (drop (Suc i) xs))"
    using assms(2) i(2) by (cases "Suc i < length xs") (auto simp: merged_def hd_drop_conv_nth)
  note ab = absorb_used_head [OF this]
  have xs: "xs = take i xs @ (s, False) # drop (Suc i) xs"
    using id_take_nth_drop [OF i(1)] i(2) by simp
  have len: "length (take i xs) = i" using i(1) by simp
  have "release i ys = take i xs @ (s, False) # drop (Suc i) xs"
  proof (cases "n + 32 < s")
    case True
    then have "n + 32 + (s - (n + 32)) = s" by simp
    then show ?thesis
      using True ab [of s] len by (simp add: release_def ys nth_append ac_simps)
  next
    case False
    then show ?thesis using ab [of s] len by (simp add: release_def ys nth_append)
  qed
  moreover have "seg_off i ys = seg_off i xs" using len by (simp add: seg_off_def ys)
  moreover have "i < length ys" using i(1) by (simp add: ys)
  ultimately show ?thesis using xs i(4) by auto
qed

text \<open>
  freeing what \<^verbatim>\<open>kmalloc\<close> has just handed out restores the chain of blocks, their sizes and
  flags, provided no free block is followed by a free one.
\<close>

theorem kmalloc_kfree:
  assumes "heap_view h xs" and "merged xs" and "kmalloc n h = Some (h', r)"
  shows "\<exists>h''. kfree r h' = Some h'' \<and> heap_view h'' xs \<and> heap_start h'' = heap_start h"
  using assms(1,3)
proof (cases rule: kmalloc_cases)
  case fail
  then show ?thesis using assms(1) by (simp add: kfree_def)
next
  case (ok ys off)
  from first_fit_release [OF ok(1) assms(2)] obtain i where i: "i < length ys"
    "off = seg_off i ys" "release i ys = xs" by blast
  have "r = payload h' ys i"
    using unat_payload [OF ok(2) i(1)] ok(4,5) i(2) by (simp add: word_unat_eq_iff)
  with kfree_view [OF ok(2) i(1)] i(3) ok(4) show ?thesis by simp
qed

lemma kmalloc_kfree_witness:
  "\<exists>h' r h''. kmalloc 64 fresh_heap = Some (h', r) \<and> r \<noteq> 0 \<and> kfree r h' = Some h'' \<and>
     heap_view h'' [(0xFFFE0, False)]"
proof -
  have m: "merged [(0xFFFE0, False)]" by (simp add: merged_def)
  obtain h' r where km: "kmalloc 64 fresh_heap = Some (h', r)" "unat r = 0x200020"
    using kmalloc_first_fit [OF fresh_heap_view, of 64] by (auto simp: fresh_heap_start)
  then have "r \<noteq> 0" by auto
  with kmalloc_kfree [OF fresh_heap_view m km(1)] km(1) show ?thesis by auto
qed

text \<open>
  the order of frees decides what is left.  Of two blocks just allocated on a fresh heap,
  freeing the second before the first gives the one free block back; freeing the first before
  the second, as the stress test's merge check does, leaves two free blocks side by side,
  and a request for the whole heap is refused from then on.
\<close>

theorem kfree_order_fragments:
  assumes "heap_view h [(unat HEAP_BYTES - 32, False)]"
    and "unat n + unat m + 96 < unat HEAP_BYTES"
    and "kmalloc n h = Some (h1, p)" and "kmalloc m h1 = Some (h2, q)"
  shows "(\<exists>g g'. kfree q h2 = Some g \<and> kfree p g = Some g' \<and>
            heap_view g' [(unat HEAP_BYTES - 32, False)]) \<and>
         (\<exists>g g'. kfree p h2 = Some g \<and> kfree q g = Some g' \<and>
            heap_view g' [(unat n, False), (unat HEAP_BYTES - 64 - unat n, False)] \<and>
            kmalloc (HEAP_BYTES - 32) g' = Some (g', 0))"
proof -
  define rest where "rest = unat HEAP_BYTES - 96 - unat n - unat m"
  have H: "unat HEAP_BYTES = unat n + unat m + rest + 96" and r0: "0 < rest"
    using assms(2) unfolding rest_def by linarith+
  have H0: "unat HEAP_BYTES - 32 = unat n + 32 + (unat m + 32 + rest)"
    "unat HEAP_BYTES - 64 - unat n = unat m + 32 + rest" using H by linarith+
  have ff1: "first_fit (unat n) [(unat HEAP_BYTES - 32, False)]
      = Some ([(unat n, True), (unat m + 32 + rest, False)], 0)"
    unfolding H0 by simp
  from kmalloc_first_fit [OF assms(1), of n] assms(3) have v1:
    "heap_view h1 [(unat n, True), (unat m + 32 + rest, False)]"
    "heap_start h1 = heap_start h" "unat p = unat (heap_start h) + 0 + 32" unfolding ff1 by auto
  have ff2: "first_fit (unat m) [(unat n, True), (unat m + 32 + rest, False)]
      = Some ([(unat n, True), (unat m, True), (rest, False)], 32 + unat n + 0)"
    using r0 by simp
  let ?ys = "[(unat n, True), (unat m, True), (rest, False)]"
  from kmalloc_first_fit [OF v1(1), of m] assms(4) have v2: "heap_view h2 ?ys"
    "heap_start h2 = heap_start h" "unat q = unat (heap_start h1) + (32 + unat n + 0) + 32"
    unfolding ff2 using v1(2) by auto
  have at: "payload g xs 0 = p \<and> payload g xs 1 = q"
    if "heap_view g xs" "heap_start g = heap_start h" "\<exists>u v ys. xs = (unat n, u) # v # ys" for g xs
    using unat_payload [OF that(1), of 0] unat_payload [OF that(1), of 1] that(2,3) v1(2,3) v2(3)
    by (auto simp: word_unat_eq_iff simp del: unat_numeral)
  note at2 = at [OF v2(1,2)]
  have "release 1 ?ys = [(unat n, True), (unat m + 32 + rest, False)]" by (simp add: release_def)
  with kfree_view [OF v2(1), of 1] at2 v2(2) obtain g1 where g1: "kfree q h2 = Some g1"
    "heap_view g1 [(unat n, True), (unat m + 32 + rest, False)]" "heap_start g1 = heap_start h"
    by auto
  have "release 0 [(unat n, True), (unat m + 32 + rest, False)] = [(unat HEAP_BYTES - 32, False)]"
    unfolding H0 by (simp add: release_def)
  with kfree_view [OF g1(2), of 0] at [OF g1(2,3)] obtain g2 where
    "kfree p g1 = Some g2" "heap_view g2 [(unat HEAP_BYTES - 32, False)]" by auto
  with g1(1) have first: "\<exists>g g'. kfree q h2 = Some g \<and> kfree p g = Some g' \<and>
      heap_view g' [(unat HEAP_BYTES - 32, False)]" by blast
  have "release 0 ?ys = [(unat n, False), (unat m, True), (rest, False)]"
    by (simp add: release_def)
  with kfree_view [OF v2(1), of 0] at2 v2(2) obtain k1 where k1: "kfree p h2 = Some k1"
    "heap_view k1 [(unat n, False), (unat m, True), (rest, False)]"
    "heap_start k1 = heap_start h" by auto
  have "release 1 [(unat n, False), (unat m, True), (rest, False)]
      = [(unat n, False), (unat m + 32 + rest, False)]" by (simp add: release_def)
  with kfree_view [OF k1(2), of 1] at [OF k1(2,3)] obtain k2 where k2: "kfree q k1 = Some k2"
    "heap_view k2 [(unat n, False), (unat m + 32 + rest, False)]" by auto
  have "unat (HEAP_BYTES - 32) = unat n + 32 + (unat m + 32 + rest)"
    using H0(1) by simp
  then have "first_fit (unat (HEAP_BYTES - 32))
      [(unat n, False), (unat m + 32 + rest, False)] = None" by simp
  with kmalloc_first_fit [OF k2(2), of "HEAP_BYTES - 32"]
  have "kmalloc (HEAP_BYTES - 32) k2 = Some (k2, 0)" by simp
  with k1(1) k2 first show ?thesis unfolding H0(2) by blast
qed

lemma kfree_order_fragments_witness:
  "\<exists>h1 p h2 q g g'. kmalloc 64 fresh_heap = Some (h1, p) \<and> kmalloc 64 h1 = Some (h2, q) \<and>
     kfree p h2 = Some g \<and> kfree q g = Some g' \<and> kmalloc 0xFFFE0 g' = Some (g', 0)"
proof -
  obtain h1 p where a: "kmalloc 64 fresh_heap = Some (h1, p)"
    "heap_view h1 [(64, True), (0xFFF80, False)]"
    using kmalloc_first_fit [OF fresh_heap_view, of 64] by auto
  obtain h2 q where b: "kmalloc 64 h1 = Some (h2, q)"
    using kmalloc_first_fit [OF a(2), of 64] by auto
  have v: "heap_view fresh_heap [(unat HEAP_BYTES - 32, False)]" using fresh_heap_view by simp
  have s: "unat (64::u64) + unat (64::u64) + 96 < unat HEAP_BYTES" by simp
  have w: "HEAP_BYTES - 32 = 0xFFFE0" by simp
  from kfree_order_fragments [OF v s a(1) b, unfolded w] a(1) b show ?thesis by blast
qed

section \<open>Room for requests\<close>

text \<open>
  A heap in which no free segment is followed by a free one, with a free segment of \<open>n\<close> bytes:
  requests up to \<open>n\<close> are served, and a request that is given back leaves the heap as it was.
\<close>

definition heap_room :: "nat \<Rightarrow> heap \<Rightarrow> bool" where
  "heap_room n h \<longleftrightarrow> (\<exists>xs s. heap_view h xs \<and> merged xs \<and> (s, False) \<in> set xs \<and> n \<le> s)"

lemma heap_room_mono: "heap_room n h \<Longrightarrow> m \<le> n \<Longrightarrow> heap_room m h"
  unfolding heap_room_def by (meson le_trans)

lemma heap_room_inv: "heap_room n h \<Longrightarrow> heap_inv h"
  by (auto simp: heap_room_def heap_inv_def)

lemma first_fit_some: "(s, False) \<in> set xs \<Longrightarrow> n \<le> s \<Longrightarrow> first_fit n xs \<noteq> None"
  by (induction xs) (auto split: option.splits)

lemma heap_room_alloc:
  assumes "heap_room n h" and "unat sz \<le> n"
  shows "\<exists>h' p. kmalloc sz h = Some (h', p) \<and> p \<noteq> 0 \<and>
    (\<exists>h''. kfree p h' = Some h'' \<and> heap_room n h'' \<and> heap_live h'' = heap_live h)"
proof -
  obtain xs s where x: "heap_view h xs" "merged xs" "(s, False) \<in> set xs" "n \<le> s"
    using assms(1) by (auto simp: heap_room_def)
  have ff: "first_fit (unat sz) xs \<noteq> None" using first_fit_some [OF x(3), of "unat sz"] x(4) assms(2) by simp
  obtain h' p where km: "kmalloc sz h = Some (h', p)"
    using kmalloc_first_fit [OF x(1), of sz] ff by (auto split: option.splits)
  have p: "p \<noteq> 0" using kmalloc_cases [OF x(1) km] ff by metis
  obtain h'' where k: "kfree p h' = Some h''" "heap_view h'' xs" "heap_start h'' = heap_start h"
    using kmalloc_kfree [OF x(1,2) km] by blast
  have "heap_room n h''" using k(2) x(2-4) by (auto simp: heap_room_def)
  moreover have "heap_live h'' = heap_live h" using k(2,3) x(1) by (simp add: heap_live_view)
  ultimately show ?thesis using km p k(1) by blast
qed

lemma merged_alloc:
  assumes "merged (as @ (s, False) # bs)"
  shows "merged (as @ (n, True) # (r, False) # bs)" "merged (as @ (s, True) # bs)"
proof -
  have m: "merged xs = successively (\<lambda>x y. snd x \<or> snd y) xs" for xs :: "seg list"
    by (auto simp: merged_def successively_conv_nth)
  show "merged (as @ (n, True) # (r, False) # bs)" "merged (as @ (s, True) # bs)"
    using assms by (auto simp: m successively_append_iff successively_Cons)
qed

lemma heap_room_take:
  assumes "heap_room (unat sz + 32 + n) h" and "0 < n"
  shows "\<exists>h' p. kmalloc sz h = Some (h', p) \<and> p \<noteq> 0 \<and> heap_room n h'"
proof -
  obtain xs s where x: "heap_view h xs" "merged xs" "(s, False) \<in> set xs" "unat sz + 32 + n \<le> s"
    using assms(1) by (auto simp: heap_room_def)
  have ff: "first_fit (unat sz) xs \<noteq> None" using first_fit_some [OF x(3), of "unat sz"] x(4) by simp
  obtain h' p where km: "kmalloc sz h = Some (h', p)"
    using kmalloc_first_fit [OF x(1), of sz] ff by (auto split: option.splits)
  obtain ys off where ys: "first_fit (unat sz) xs = Some (ys, off)" "heap_view h' ys" "p \<noteq> 0"
    using kmalloc_cases [OF x(1) km] ff by metis
  from first_fit_index [OF ys(1)] obtain i t where i: "i < length xs" "xs ! i = (t, False)"
    and y: "ys = take i xs @ (if unat sz + 32 < t then [(unat sz, True), (t - unat sz - 32, False)] else [(t, True)])
            @ drop (Suc i) xs" by blast
  have "xs = take i xs @ (t, False) # drop (Suc i) xs" using id_take_nth_drop [OF i(1)] i(2) by simp
  then have "merged (take i xs @ (t, False) # drop (Suc i) xs)" using x(2) by simp
  note merged_alloc [OF this]
  then have "merged ys" by (simp add: y)
  moreover have "\<exists>s'. (s', False) \<in> set ys \<and> n \<le> s'"
  proof -
    obtain j where j: "j < length xs" "xs ! j = (s, False)" using x(3) by (auto simp: in_set_conv_nth)
    show ?thesis
    proof (cases "j = i")
      case True
      then show ?thesis using j i x(4) assms(2) unfolding y by (intro exI [of _ "t - unat sz - 32"]) auto
    next
      case False
      have "xs ! j \<in> set (take i xs) \<union> set (drop (Suc i) xs)"
      proof (cases "j < i")
        case True
        then show ?thesis using j(1) by (auto simp: in_set_conv_nth intro!: exI [of _ j])
      next
        case f: False
        then have "drop (Suc i) xs ! (j - Suc i) = xs ! j" "j - Suc i < length (drop (Suc i) xs)" using False j(1) by auto
        then show ?thesis by (metis UnI2 nth_mem)
      qed
      then show ?thesis using j(2) x(4) unfolding y by (intro exI [of _ s]) auto
    qed
  qed
  ultimately show ?thesis using km ys(2,3) unfolding heap_room_def by blast
qed

end
