(* ===== verification/Process.thy ===== *)
theory Process
  imports Pmm Kmalloc
begin

text \<open>
  Processes, \<^verbatim>\<open>src/src/proc/process.c\<close>: the control block and its saved registers, creation and
  termination.  \<open>kern\<close> is the state the process code and the scheduler share: the control blocks
  in memory, the two allocators, and the static variables of \<^verbatim>\<open>process.c\<close> and \<^verbatim>\<open>schedular.c\<close>.  A
  control block lives where \<^verbatim>\<open>kmalloc\<close> puts it; blocks handed out never overlap headers or each
  other (\<open>kmalloc_region_fresh\<close>), so control blocks and heap headers are kept in separate maps.
\<close>

section \<open>State\<close>

text \<open>The registers an interrupt saves, \<^verbatim>\<open>src/src/kernel/idt.h\<close>.\<close>

record InterruptFrame =
  r15 :: u64
  r14 :: u64
  r13 :: u64
  r12 :: u64
  r11 :: u64
  r10 :: u64
  r9 :: u64
  r8 :: u64
  rbp :: u64
  rdi :: u64
  rsi :: u64
  rdx :: u64
  rcx :: u64
  rbx :: u64
  rax :: u64
  int_num :: u64
  error_code :: u64
  rip :: u64
  cs :: u64
  rflags :: u64
  rsp :: u64
  ss :: u64

datatype ProcessState = NEW | READY | RUNNING | BLOCKED | ZOMBIE

record PCB =
  regs :: InterruptFrame
  p_cr3 :: u64
  p_state :: ProcessState
  pid :: u32
  p_next :: u64
  p_name :: "u8 list"
  p_stack :: u64
  priority :: u8
  ticks_remaining :: u8

text \<open>\<^verbatim>\<open>sizeof(PCB)\<close>: 176 bytes of registers, the fields after them, and six bytes of padding.\<close>

abbreviation SIZEOF_PCB :: u64 where "SIZEOF_PCB \<equiv> 248"

record kern =
  pcbs :: "u64 \<Rightarrow> PCB"
  kheap :: heap
  kpmm :: pmm
  next_pid :: u32
  head :: u64
  current :: u64
  reg_cr3 :: u64
  tss_rsp0 :: u64

definition set_pcb :: "u64 \<Rightarrow> (PCB \<Rightarrow> PCB) \<Rightarrow> kern \<Rightarrow> kern" where
  "set_pcb a f k = k\<lparr>pcbs := (pcbs k)(a := f (pcbs k a))\<rparr>"

section \<open>Operations\<close>

text \<open>The loop that clears the control block leaves every field 0, and \<^verbatim>\<open>NEW\<close> is 0.\<close>

definition zero_frame :: InterruptFrame where
  "zero_frame = \<lparr>r15 = 0, r14 = 0, r13 = 0, r12 = 0, r11 = 0, r10 = 0, r9 = 0, r8 = 0, rbp = 0,
     rdi = 0, rsi = 0, rdx = 0, rcx = 0, rbx = 0, rax = 0, int_num = 0, error_code = 0, rip = 0,
     cs = 0, rflags = 0, rsp = 0, ss = 0\<rparr>"

definition zero_pcb :: PCB where
  "zero_pcb = \<lparr>regs = zero_frame, p_cr3 = 0, p_state = NEW, pid = 0, p_next = 0,
     p_name = replicate 32 0, p_stack = 0, priority = 0, ticks_remaining = 0\<rparr>"

text \<open>
  The loop that copies the name and the terminator after it.  A name is the list of its bytes
  before the terminating NUL; \<open>None\<close> is the NULL pointer.
\<close>

fun copy_name :: "nat \<Rightarrow> u8 list \<Rightarrow> u8 list \<Rightarrow> u8 list" where
  "copy_name i [] dst = dst[i := 0]"
| "copy_name i (c # src) dst =
     (if i < 31 then copy_name (i + 1) src (dst[i := c]) else dst[i := 0])"

definition create_process ::
  "u8 list option \<Rightarrow> u64 \<Rightarrow> u8 \<Rightarrow> kern \<Rightarrow> (kern \<times> u64) option" where
  "create_process name entry prio k =
     (if entry = 0 then Some (k, 0)
      else case name of None \<Rightarrow> Some (k, 0)
      | Some nm \<Rightarrow>
       if nm = [] then Some (k, 0)
       else case kmalloc SIZEOF_PCB (kheap k) of None \<Rightarrow> None
       | Some (h, pcb) \<Rightarrow>
        let k = k\<lparr>kheap := h\<rparr> in
        if pcb = 0 then Some (k, 0)
        else
         let (fr, stack) = pmm_alloc (kpmm k);
             k = k\<lparr>kpmm := fr\<rparr> in
         if stack = 0
         then (case kfree pcb (kheap k) of None \<Rightarrow> None | Some h \<Rightarrow> Some (k\<lparr>kheap := h\<rparr>, 0))
         else
          let k = set_pcb pcb (\<lambda>_. zero_pcb) k;
              k = set_pcb pcb (\<lambda>p. p\<lparr>p_name := copy_name 0 nm (p_name p)\<rparr>) k;
              k = set_pcb pcb (\<lambda>p. p\<lparr>regs := (regs p)\<lparr>cs := 0x08, ss := 0x10, rflags := 0x202,
                    rip := entry, rsp := stack + 4096\<rparr>\<rparr>) k;
              k = set_pcb pcb (\<lambda>p. p\<lparr>p_cr3 := reg_cr3 k\<rparr>) k;
              k = set_pcb pcb (\<lambda>p. p\<lparr>p_stack := stack, pid := next_pid k\<rparr>) k;
              k = k\<lparr>next_pid := next_pid k + 1\<rparr>;
              k = set_pcb pcb (\<lambda>p. p\<lparr>priority := prio, p_state := NEW, p_next := 0\<rparr>) k
          in Some (k, pcb))"

definition kill_process :: "u64 \<Rightarrow> kern \<Rightarrow> kern" where
  "kill_process process k =
     (if process = 0 then k
      else if p_state (pcbs k process) = ZOMBIE then k
      else set_pcb process (\<lambda>p. p\<lparr>p_state := ZOMBIE\<rparr>) k)"

section \<open>What creation does\<close>

lemma set_pcb_simps [simp]:
  "pcbs (set_pcb a f k) b = (if b = a then f (pcbs k a) else pcbs k b)"
  "kheap (set_pcb a f k) = kheap k" "kpmm (set_pcb a f k) = kpmm k"
  "next_pid (set_pcb a f k) = next_pid k" "head (set_pcb a f k) = head k"
  "current (set_pcb a f k) = current k" "reg_cr3 (set_pcb a f k) = reg_cr3 k"
  "tss_rsp0 (set_pcb a f k) = tss_rsp0 k"
  by (simp_all add: set_pcb_def)

lemma copy_name_take:
  "i \<le> 31 \<Longrightarrow> length dst = 32 \<Longrightarrow> drop i dst = replicate (32 - i) 0 \<Longrightarrow>
     copy_name i src dst = take i dst @ take (31 - i) src @ replicate (32 - i - min (31 - i) (length src)) 0"
proof (induction i src dst rule: copy_name.induct)
  case (1 i dst)
  have "dst[i := 0] = take i dst @ 0 # drop (Suc i) dst"
    using "1.prems" by (simp add: upd_conv_take_nth_drop)
  moreover have "drop (Suc i) dst = replicate (31 - i) 0"
    using "1.prems" by (simp add: drop_Suc [of i] flip: drop_drop tl_drop)
  moreover have "32 - i = Suc (31 - i)" using "1.prems" by simp
  ultimately show ?case by simp
next
  case (2 i c src dst)
  show ?case
  proof (cases "i < 31")
    case True
    have "drop (Suc i) dst = replicate (31 - i) 0"
      using "2.prems" by (simp add: drop_Suc [of i] flip: drop_drop tl_drop)
    then have "drop (i + 1) (dst[i := c]) = replicate (32 - (i + 1)) 0" by simp
    note IH = "2.IH" [OF True _ _ this]
    have tk: "take (i + 1) (dst[i := c]) = take i dst @ [c]"
      using "2.prems" True by (simp add: take_Suc_conv_app_nth)
    have "31 - i = Suc (30 - i)" using True by simp
    then show ?thesis using IH True "2.prems" tk by simp
  next
    case False
    then have "i = 31" using "2.prems" by simp
    then show ?thesis using "2.prems"
      by (simp add: upd_conv_take_nth_drop)
  qed
qed

text \<open>The control block of a new process, as a whole.\<close>

definition new_pcb :: "u8 list \<Rightarrow> u64 \<Rightarrow> u8 \<Rightarrow> u64 \<Rightarrow> u64 \<Rightarrow> u32 \<Rightarrow> PCB" where
  "new_pcb nm entry prio stack cr3 n =
     \<lparr>regs = zero_frame\<lparr>cs := 0x08, ss := 0x10, rflags := 0x202, rip := entry, rsp := stack + 4096\<rparr>,
      p_cr3 = cr3, p_state = NEW, pid = n, p_next = 0,
      p_name = take 31 nm @ replicate (32 - min 31 (length nm)) 0,
      p_stack = stack, priority = prio, ticks_remaining = 0\<rparr>"

lemma new_pcb_fields:
  "rip (regs (new_pcb nm entry prio stack cr n)) = entry"
  "priority (new_pcb nm entry prio stack cr n) = prio"
  by (simp_all add: new_pcb_def)

definition with_process :: "u64 \<Rightarrow> PCB \<Rightarrow> heap \<Rightarrow> pmm \<Rightarrow> kern \<Rightarrow> kern" where
  "with_process p b h fr k =
     k\<lparr>pcbs := (pcbs k)(p := b), kheap := h, kpmm := fr, next_pid := next_pid k + 1\<rparr>"

lemma with_process_simps [simp]:
  "pcbs (with_process p b h fr k) q = (if q = p then b else pcbs k q)"
  "kheap (with_process p b h fr k) = h" "kpmm (with_process p b h fr k) = fr"
  "next_pid (with_process p b h fr k) = next_pid k + 1"
  "head (with_process p b h fr k) = head k" "current (with_process p b h fr k) = current k"
  "reg_cr3 (with_process p b h fr k) = reg_cr3 k" "tss_rsp0 (with_process p b h fr k) = tss_rsp0 k"
  by (simp_all add: with_process_def)

lemma pmm_alloc_not_null:
  assumes "pmm_inv s" and "pmm_alloc s = (s', a)"
  shows "a \<noteq> 0"
  using assms by (cases rule: pmm_alloc_cases) auto

lemma create_process_cases:
  assumes "heap_inv (kheap k)" and "pmm_inv (kpmm k)" and "entry \<noteq> 0" and "nm \<noteq> []"
  obtains (no_heap) "create_process (Some nm) entry prio k = Some (k, 0)"
      "kmalloc SIZEOF_PCB (kheap k) = Some (kheap k, 0)"
  | (made) p h fr stack where "kmalloc SIZEOF_PCB (kheap k) = Some (h, p)" "p \<noteq> 0"
      "pmm_alloc (kpmm k) = (fr, stack)"
      "create_process (Some nm) entry prio k = Some (with_process p
         (new_pcb nm entry prio stack (reg_cr3 k) (next_pid k)) h fr k, p)"
proof -
  obtain h p where km: "kmalloc SIZEOF_PCB (kheap k) = Some (h, p)"
    using kheap.alloc_returns [OF assms(1)] by blast
  obtain fr stack where al: "pmm_alloc (kpmm k) = (fr, stack)" by fastforce
  have st: "stack \<noteq> 0" by (rule pmm_alloc_not_null [OF assms(2) al])
  show ?thesis
  proof (cases "p = 0")
    case True
    have "h = kheap k" using kheap.alloc_fail [OF assms(1)] km True by simp
    then show ?thesis using no_heap km True assms(3,4) by (simp add: create_process_def)
  next
    case False
    have nm: "copy_name 0 nm (replicate 32 0) = take 31 nm @ replicate (32 - min 31 (length nm)) 0"
      using copy_name_take [of 0 "replicate 32 0" nm] by simp
    show ?thesis
      using km al st False assms(3,4)
      by (intro made [OF km False al])
         (simp add: create_process_def Let_def with_process_def set_pcb_def new_pcb_def zero_pcb_def nm)
  qed
qed

section \<open>Properties\<close>

text \<open>
  with a page left, \<^verbatim>\<open>create_process\<close> of a valid entry and name returns NULL and changes
  nothing when the heap is exhausted; otherwise it returns a block and a stack page that were not
  in use, the control block set up in every field, the process numbered, nothing else changed.
\<close>

theorem create_process_fresh:
  assumes "heap_inv (kheap k)" and "pmm_inv (kpmm k)" and "0 < pmm_avail (kpmm k)"
    and "entry \<noteq> 0" and "nm \<noteq> []"
  shows "\<exists>k' p. create_process (Some nm) entry prio k = Some (k', p) \<and>
    (if p = 0 then k' = k
     else let stack = p_stack (pcbs k' p)
          in heap_inv (kheap k') \<and> p \<notin> heap_live (kheap k) \<and>
             heap_live (kheap k') = insert p (heap_live (kheap k)) \<and>
             pmm_inv (kpmm k') \<and> stack \<notin> pmm_live (kpmm k) \<and>
             pmm_live (kpmm k') = insert stack (pmm_live (kpmm k)) \<and>
             pcbs k' = (pcbs k)(p := new_pcb nm entry prio stack (reg_cr3 k) (next_pid k)) \<and>
             next_pid k' = next_pid k + 1 \<and> head k' = head k \<and> current k' = current k)"
  using assms(1,2,4,5)
proof (cases rule: create_process_cases [where prio = prio])
  case no_heap
  then show ?thesis by auto
next
  case (made p h fr stack)
  have req: "pmm_alloc_req () (kpmm k) = Some (fr, stack)" using made(3) by (simp add: pmm_alloc_req_def)
  have "stack \<noteq> OUT_OF_MEMORY" using pages.alloc_avail [OF assms(2) req] assms(3) by simp
  note fr = pages.alloc_fresh [OF assms(2) req this] pages.alloc_inv [OF assms(2) req]
  note h = kheap.alloc_fresh [OF assms(1) made(1,2)] kheap.alloc_inv [OF assms(1) made(1)]
  show ?thesis
    using made(2,4) fr h
    by (intro exI conjI) (auto simp: Let_def new_pcb_def with_process_def)
qed

text \<open>A kernel right after its allocators have been initialised.\<close>

definition fresh_kern :: kern where
  "fresh_kern = \<lparr>pcbs = (\<lambda>_. zero_pcb), kheap = fresh_heap, kpmm = small_pmm, next_pid = 0,
     head = 0, current = 0, reg_cr3 = 0x1000, tss_rsp0 = 0\<rparr>"

lemma fresh_kern_inv:
  "heap_inv (kheap fresh_kern)" "pmm_inv (kpmm fresh_kern)" "0 < pmm_avail (kpmm fresh_kern)"
  using fresh_heap_view small_pmm_inv free_set_small_pmm
  by (auto simp: heap_inv_def fresh_kern_def pmm_avail_def)

lemma create_process_fresh_witness:
  "\<exists>k' p. create_process (Some [0x61]) 0x100020 2 fresh_kern = Some (k', p) \<and>
     (p \<noteq> 0 \<longrightarrow> rip (regs (pcbs k' p)) = 0x100020 \<and> priority (pcbs k' p) = 2)"
proof -
  have "(0x100020 :: u64) \<noteq> 0" "[0x61 :: u8] \<noteq> []" by simp_all
  from create_process_fresh [OF fresh_kern_inv this, of 2] obtain k' p
    where c: "create_process (Some [0x61]) 0x100020 2 fresh_kern = Some (k', p)"
      and n: "p \<noteq> 0 \<Longrightarrow> pcbs k' = (pcbs fresh_kern)(p := new_pcb [0x61] 0x100020 2
        (p_stack (pcbs k' p)) (reg_cr3 fresh_kern) (next_pid fresh_kern))"
    unfolding Let_def if_bool_eq_conj by blast
  have "p \<noteq> 0 \<Longrightarrow> pcbs k' p = new_pcb [0x61] 0x100020 2
        (p_stack (pcbs k' p)) (reg_cr3 fresh_kern) (next_pid fresh_kern)"
    using fun_cong [OF n, of p] by simp
  then have "p \<noteq> 0 \<Longrightarrow> rip (regs (pcbs k' p)) = 0x100020 \<and> priority (pcbs k' p) = 2"
    by (metis (no_types) new_pcb_fields)
  with c show ?thesis by blast
qed

text \<open>
  with no page left, the test for a failed stack allocation does not fire (\<^verbatim>\<open>pmm_alloc\<close>
  reports exhaustion with all ones, not 0): a process is created whose stack is the error
  value and whose stack pointer is \<open>0xFFF\<close>.
\<close>

theorem create_process_bad_stack:
  assumes "heap_inv (kheap k)" and "pmm_inv (kpmm k)" and "free_set (kpmm k) \<subseteq> {0}"
    and "entry \<noteq> 0" and "nm \<noteq> []" and "create_process (Some nm) entry prio k = Some (k', p)"
    and "p \<noteq> 0"
  shows "p_stack (pcbs k' p) = 0xFFFFFFFFFFFFFFFF \<and> rsp (regs (pcbs k' p)) = 0xFFF \<and>
    heap_live (kheap k') = insert p (heap_live (kheap k))"
  using assms(1,2,4,5)
proof (cases rule: create_process_cases [where prio = prio])
  case no_heap
  then show ?thesis using assms(6,7) by simp
next
  case (made q h fr stack)
  have "stack = OUT_OF_MEMORY"
    using assms(2) made(3) assms(3) by (cases rule: pmm_alloc_cases) auto
  then show ?thesis
    using made assms(6) kheap.alloc_fresh [OF assms(1) made(1,2)] by (auto simp: new_pcb_def)
qed

lemma create_process_bad_stack_witness:
  "\<exists>k' p. create_process (Some [0x61]) 0x100020 2
      (fresh_kern\<lparr>kpmm := small_pmm\<lparr>bitmap := [255, 255, 255], free_pages := 0\<rparr>\<rparr>) = Some (k', p) \<and>
     p \<noteq> 0 \<and> rsp (regs (pcbs k' p)) = 0xFFF"
  (is "\<exists>k' p. create_process _ _ _ ?k = _ \<and> _")
proof -
  have "free_set (kpmm ?k) = set []"
    unfolding free_set_filter by (rule arg_cong [of _ _ set]) code_simp
  then have f: "free_set (kpmm ?k) = {}" by simp
  then have inv: "heap_inv (kheap ?k)" "pmm_inv (kpmm ?k)" "free_set (kpmm ?k) \<subseteq> {0}"
    using fresh_kern_inv small_pmm_inv by (auto simp: pmm_inv_def pmm_wf_def small_pmm_def)
  have en: "(0x100020 :: u64) \<noteq> 0" "[0x61 :: u8] \<noteq> []" by simp_all
  have "first_fit (unat SIZEOF_PCB) [(0xFFFE0, False)] \<noteq> None" by simp
  then obtain h r where km: "kmalloc SIZEOF_PCB fresh_heap = Some (h, r)" "unat r \<noteq> 0"
    using kmalloc_first_fit [OF fresh_heap_view, of SIZEOF_PCB] by auto
  from inv(1,2) en show ?thesis
  proof (cases rule: create_process_cases [where prio = 2])
    case no_heap
    then show ?thesis using km by (simp add: fresh_kern_def)
  next
    case (made p h' fr stack)
    from create_process_bad_stack [OF inv en made(4,2)] made(2,4) show ?thesis by blast
  qed
qed

text \<open>
  \<^verbatim>\<open>kill_process\<close> only marks the process: its state becomes \<^verbatim>\<open>ZOMBIE\<close>, its block and stack
  stay allocated, every other process keeps its control block, and killing twice is killing once.
\<close>

theorem kill_process_marks:
  "kheap (kill_process p k) = kheap k \<and> kpmm (kill_process p k) = kpmm k \<and>
   pcbs (kill_process p k)
     = (if p = 0 then pcbs k else (pcbs k)(p := (pcbs k p)\<lparr>p_state := ZOMBIE\<rparr>)) \<and>
   kill_process p (kill_process p k) = kill_process p k"
  by (auto simp: kill_process_def fun_eq_iff)

end
