(* ===== verification/Scheduler.thy ===== *)
theory Scheduler
  imports Process
begin

text \<open>
  The scheduler, \<^verbatim>\<open>src/src/proc/schedular.c\<close>: a circular list of control blocks, the timer's
  \<^verbatim>\<open>schedule\<close>, and one pass of the reaper.  \<open>run_queue k qs\<close> is the abstraction: \<open>qs\<close> lists the
  processes in the order of the ring, from the one after \<^verbatim>\<open>current\<close> to \<^verbatim>\<open>current\<close> itself.  A
  switch rotates it, \<^verbatim>\<open>scheduler_add\<close> inserts before \<^verbatim>\<open>head\<close>, the reaper filters it.  Loops over
  the ring need not end on a broken one and are partial functions.
\<close>

section \<open>Operations\<close>

definition get_quantum :: "u8 \<Rightarrow> u8" where
  "get_quantum prio = (if prio = 0 then 4 else if prio = 1 then 3 else if prio = 2 then 2 else 1)"

definition schedular_init :: "kern \<Rightarrow> kern" where
  "schedular_init k = k\<lparr>head := 0, current := 0\<rparr>"

definition get_current_process :: "kern \<Rightarrow> u64" where
  "get_current_process k = current k"

definition scheduler_get_head :: "kern \<Rightarrow> u64" where
  "scheduler_get_head k = head k"

partial_function (option) last_from :: "u64 \<Rightarrow> kern \<Rightarrow> u64 option" where
  "last_from temp k =
     (if p_next (pcbs k temp) \<noteq> head k then last_from (p_next (pcbs k temp)) k else Some temp)"

definition scheduler_add :: "u8 list option \<Rightarrow> u64 \<Rightarrow> u8 \<Rightarrow> kern \<Rightarrow> kern option" where
  "scheduler_add name entry prio k =
     (case create_process name entry prio k of None \<Rightarrow> None
      | Some (k, neu) \<Rightarrow>
        if neu = 0 then Some k
        else
         let k = set_pcb neu (\<lambda>p. p\<lparr>ticks_remaining := get_quantum prio\<rparr>) k in
         if head k = 0 then
           (let k = k\<lparr>current := neu\<rparr>;
                k = k\<lparr>head := neu\<rparr>;
                k = set_pcb neu (\<lambda>p. p\<lparr>p_next := neu\<rparr>) k
            in Some (set_pcb neu (\<lambda>p. p\<lparr>p_state := RUNNING\<rparr>) k))
         else
           (case last_from (head k) k of None \<Rightarrow> None
            | Some temp \<Rightarrow>
               let k = set_pcb temp (\<lambda>p. p\<lparr>p_next := neu\<rparr>) k;
                   k = set_pcb neu (\<lambda>p. p\<lparr>p_next := head k\<rparr>) k
               in Some (set_pcb neu (\<lambda>p. p\<lparr>p_state := READY\<rparr>) k)))"

partial_function (option) remove_from :: "u64 \<Rightarrow> u32 \<Rightarrow> kern \<Rightarrow> kern option" where
  "remove_from cur n k =
     (if pid (pcbs k cur) = n then Some (kill_process cur k)
      else let cur = p_next (pcbs k cur)
           in if cur \<noteq> head k then remove_from cur n k else Some k)"

definition schedular_remove :: "u32 \<Rightarrow> kern \<Rightarrow> kern option" where
  "schedular_remove n k = (if head k = 0 then Some k else remove_from (head k) n k)"

text \<open>\<^verbatim>\<open>process_yield\<close> up to its \<^verbatim>\<open>hlt\<close>, which waits for the next timer interrupt.\<close>

definition process_yield :: "kern \<Rightarrow> kern" where
  "process_yield k =
     (let p = get_current_process k
      in if p = 0 then k else set_pcb p (\<lambda>p. p\<lparr>ticks_remaining := 0\<rparr>) k)"

text \<open>
  One pass of the loop of \<^verbatim>\<open>reaper_process\<close>; \<^verbatim>\<open>safety\<close> starts at 100.  The reaper sleeps between
  passes; while it runs it is \<^verbatim>\<open>current\<close>.
\<close>

fun reap_from :: "nat \<Rightarrow> u64 \<Rightarrow> u64 \<Rightarrow> kern \<Rightarrow> kern option" where
  "reap_from 0 prev cur k = Some k"
| "reap_from (Suc safety) prev cur k =
     (if cur = head k then Some k
      else if p_state (pcbs k cur) = ZOMBIE \<and> cur \<noteq> current k then
        (let to_free = cur;
             k = set_pcb prev (\<lambda>p. p\<lparr>p_next := p_next (pcbs k cur)\<rparr>) k;
             cur = p_next (pcbs k prev);
             k = k\<lparr>kpmm := pmm_free (p_stack (pcbs k to_free)) (kpmm k)\<rparr>
         in case kfree to_free (kheap k) of None \<Rightarrow> None
            | Some h \<Rightarrow> reap_from safety prev cur (k\<lparr>kheap := h\<rparr>))
      else reap_from safety cur (p_next (pcbs k cur)) k)"

definition reaper_pass :: "kern \<Rightarrow> kern option" where
  "reaper_pass k =
     (let h = scheduler_get_head k
      in if h \<noteq> 0 then reap_from 100 h (p_next (pcbs k h)) k else Some k)"

text \<open>
  The first loop of \<^verbatim>\<open>schedule\<close> counts the ring in a \<^verbatim>\<open>uint8_t\<close>; the second skips zombies.
\<close>

partial_function (option) count_from :: "u64 \<Rightarrow> u8 \<Rightarrow> kern \<Rightarrow> u8 option" where
  "count_from temp tot k =
     (let tot = tot + 1; temp = p_next (pcbs k temp)
      in if temp \<noteq> head k then count_from temp tot k else Some tot)"

function skip_zombies :: "u8 \<Rightarrow> u64 \<Rightarrow> u8 \<Rightarrow> kern \<Rightarrow> u64" where
  "skip_zombies tot nxt checked k =
     (if p_state (pcbs k nxt) = ZOMBIE \<and> checked < tot
      then skip_zombies tot (p_next (pcbs k nxt)) (checked + 1) k else nxt)"
  by pat_completeness auto
termination
proof (relation "measure (\<lambda>(tot, nxt, checked, k). unat tot - unat checked)")
  fix tot checked :: u8 and nxt :: u64 and k :: kern
  assume "p_state (pcbs k nxt) = ZOMBIE \<and> checked < tot"
  then have "unat checked < unat tot" "unat (checked + 1) = unat checked + 1"
    using unat_plus_one [of checked tot] by (simp_all add: word_less_nat_alt)
  then show "((tot, p_next (pcbs k nxt), checked + 1, k), tot, nxt, checked, k)
      \<in> measure (\<lambda>(tot, nxt, checked, k). unat tot - unat checked)" by simp
qed simp

declare skip_zombies.simps [simp del]

text \<open>The second half of \<^verbatim>\<open>schedule\<close>, once the running process has lost the processor.\<close>

definition switch_to_next :: "InterruptFrame \<Rightarrow> kern \<Rightarrow> (kern \<times> InterruptFrame) option" where
  "switch_to_next frame k =
     (let nxt = p_next (pcbs k (current k))
      in case count_from (head k) 0 k of None \<Rightarrow> None
         | Some tot \<Rightarrow>
           let nxt = skip_zombies tot nxt 0 k in
           if p_state (pcbs k nxt) = ZOMBIE then Some (k, frame)
           else
            let k = set_pcb (current k) (\<lambda>p. p\<lparr>regs := frame\<rparr>) k;
                k = k\<lparr>current := nxt\<rparr>;
                k = set_pcb (current k) (\<lambda>p. p\<lparr>p_state := RUNNING\<rparr>) k;
                k = set_pcb (current k) (\<lambda>p. p\<lparr>ticks_remaining := get_quantum (priority p)\<rparr>) k;
                frame = regs (pcbs k (current k))
            in Some (k\<lparr>tss_rsp0 := p_stack (pcbs k (current k)) + 4096\<rparr>, frame))"

definition schedule :: "InterruptFrame \<Rightarrow> kern \<Rightarrow> (kern \<times> InterruptFrame) option" where
  "schedule frame k =
     (if current k = 0 \<or> head k = 0 then Some (k, frame)
      else
       let k = (if ticks_remaining (pcbs k (current k)) > 0
                then set_pcb (current k) (\<lambda>p. p\<lparr>ticks_remaining := ticks_remaining p - 1\<rparr>) k
                else k)
       in if ticks_remaining (pcbs k (current k)) > 0 then Some (k, frame)
       else switch_to_next frame
              (if p_state (pcbs k (current k)) = RUNNING
               then set_pcb (current k) (\<lambda>p. p\<lparr>p_state := READY\<rparr>) k else k))"

section \<open>Chains and the ring\<close>

fun chain :: "(u64 \<Rightarrow> PCB) \<Rightarrow> u64 \<Rightarrow> u64 list \<Rightarrow> u64 \<Rightarrow> bool" where
  "chain m p [] q \<longleftrightarrow> p = q"
| "chain m p (a # as) q \<longleftrightarrow> p = a \<and> chain m (p_next (m a)) as q"

definition run_queue :: "kern \<Rightarrow> u64 list \<Rightarrow> bool" where
  "run_queue k qs \<longleftrightarrow> qs \<noteq> [] \<and> distinct qs \<and> 0 \<notin> set qs \<and> last qs = current k \<and>
     head k \<in> set qs \<and> chain (pcbs k) (hd qs) qs (hd qs)"

lemma chain_append [simp]:
  "chain m p (as @ bs) q \<longleftrightarrow> (\<exists>r. chain m p as r \<and> chain m r bs q)"
  by (induction as arbitrary: p) auto

lemma chain_cong:
  "(\<And>a. a \<in> set as \<Longrightarrow> p_next (m' a) = p_next (m a)) \<Longrightarrow> chain m' p as q = chain m p as q"
  by (induction as arbitrary: p) auto

lemma chain_off:
  assumes "a \<notin> set as" and "\<And>p. p \<noteq> a \<Longrightarrow> p_next (m' p) = p_next (m p)"
  shows "chain m' p as q = chain m p as q"
  using assms by (intro chain_cong) metis

lemma chain_start: "chain m p as q \<Longrightarrow> as \<noteq> [] \<Longrightarrow> p = hd as"
  by (cases as) auto

text \<open>A ring may be read from any of its elements.\<close>

lemma chain_rotate: "chain m (hd (as @ bs)) (as @ bs) (hd (as @ bs)) \<Longrightarrow> bs \<noteq> [] \<Longrightarrow>
  chain m (hd bs) (bs @ as) (hd bs)"
  by (cases "as = []") (auto dest: chain_start)

lemma last_from_chain:
  "chain (pcbs k) p as (head k) \<Longrightarrow> as \<noteq> [] \<Longrightarrow> head k \<notin> set (tl as) \<Longrightarrow>
     last_from p k = Some (last as)"
proof (induction as arbitrary: p)
  case (Cons a as)
  show ?case
  proof (cases as)
    case Nil
    then show ?thesis using Cons.prems by (simp add: last_from.simps)
  next
    case (Cons b bs)
    then have "p_next (pcbs k p) = b" "b \<noteq> head k" "p = a" using Cons.prems by auto
    moreover have "last_from b k = Some (last as)"
      using Cons.IH [of b] Cons.prems Cons by simp
    ultimately show ?thesis using Cons by (simp add: last_from.simps [of a])
  qed
qed simp

lemma count_from_chain:
  "chain (pcbs k) p as (head k) \<Longrightarrow> as \<noteq> [] \<Longrightarrow> head k \<notin> set (tl as) \<Longrightarrow>
     count_from p n k = Some (n + of_nat (length as))"
proof (induction as arbitrary: p n)
  case (Cons a as)
  show ?case
  proof (cases as)
    case Nil
    then show ?thesis using Cons.prems by (simp add: count_from.simps)
  next
    case (Cons b bs)
    then have "p_next (pcbs k p) = b" "b \<noteq> head k" "p = a" using Cons.prems by auto
    moreover have "count_from b (n + 1) k = Some (n + 1 + of_nat (length as))"
      using Cons.IH [of b "n + 1"] Cons.prems Cons by simp
    ultimately show ?thesis using Cons by (simp add: count_from.simps [of a] Let_def ac_simps)
  qed
qed simp

text \<open>The ring read from \<^verbatim>\<open>head\<close>, as the code's loops read it.\<close>

lemma run_queue_from_head:
  assumes "run_queue k qs"
  obtains as where "chain (pcbs k) (head k) as (head k)" "as \<noteq> []" "hd as = head k"
    "head k \<notin> set (tl as)" "length as = length qs" "set as = set qs" "distinct as"
    "\<And>xs ys. qs = xs @ head k # ys \<Longrightarrow> as = head k # ys @ xs"
proof -
  from assms obtain xs ys where qs: "qs = xs @ head k # ys"
    unfolding run_queue_def by (meson split_list)
  have "chain (pcbs k) (head k) ((head k # ys) @ xs) (head k)"
    using chain_rotate [of "pcbs k" xs "head k # ys"] assms qs by (simp add: run_queue_def)
  moreover have "distinct qs" using assms by (simp add: run_queue_def)
  ultimately show ?thesis
    using qs by (intro that [of "(head k # ys) @ xs"]) (auto simp: append_eq_append_conv2
        append_eq_Cons_conv Cons_eq_append_conv)
qed

lemma run_queue_next:
  assumes "run_queue k qs"
  shows "p_next (pcbs k (current k)) = hd qs"
proof -
  have "qs = butlast qs @ [current k]" using assms append_butlast_last_id [of qs]
    by (simp add: run_queue_def)
  then have "chain (pcbs k) (hd qs) (butlast qs @ [current k]) (hd qs)"
    using assms by (simp add: run_queue_def)
  then show ?thesis by simp
qed

lemma run_queue_nonnull: "run_queue k qs \<Longrightarrow> head k \<noteq> 0 \<and> current k \<noteq> 0"
  by (metis last_in_set run_queue_def)

lemma run_queue_cong:
  assumes "run_queue k qs" and "\<And>p. p_next (pcbs k' p) = p_next (pcbs k p)"
    and "head k' = head k" and "qs = zs @ n # rest" and "current k' = n"
  shows "run_queue k' (rest @ zs @ [n])"
proof -
  have "chain (pcbs k) (hd qs) ((zs @ [n]) @ rest) (hd qs)"
    using assms(1,4) by (simp add: run_queue_def)
  then have "chain (pcbs k) (hd (rest @ zs @ [n])) (rest @ zs @ [n]) (hd (rest @ zs @ [n]))"
    using chain_rotate [of "pcbs k" "zs @ [n]" rest] assms(4) by (cases "rest = []") auto
  then show ?thesis
    using assms chain_cong [of "rest @ zs @ [n]" "pcbs k'" "pcbs k"]
    by (auto simp: run_queue_def)
qed

lemma run_queue_same:
  assumes "run_queue k qs" and "\<And>p. p_next (pcbs k' p) = p_next (pcbs k p)"
    and "head k' = head k" and "current k' = current k"
  shows "run_queue k' qs"
  using assms chain_cong [of qs "pcbs k'" "pcbs k" "hd qs" "hd qs"] by (simp add: run_queue_def)

lemma skip_zombies_first:
  "chain (pcbs k) p zs n \<Longrightarrow> \<forall>z\<in>set zs. p_state (pcbs k z) = ZOMBIE \<Longrightarrow>
     p_state (pcbs k n) \<noteq> ZOMBIE \<Longrightarrow> unat checked + length zs \<le> unat tot \<Longrightarrow>
     skip_zombies tot p checked k = n"
proof (induction zs arbitrary: p checked)
  case Nil
  then show ?case by (simp add: skip_zombies.simps [of tot n])
next
  case (Cons z zs)
  have lt: "checked < tot" using Cons.prems(4) by (simp add: word_less_nat_alt)
  have "unat (checked + 1) = unat checked + 1"
    using unat_plus_one [of checked tot] lt by simp
  then have "skip_zombies tot (p_next (pcbs k z)) (checked + 1) k = n"
    using Cons by simp
  then show ?case using Cons.prems lt by (subst skip_zombies.simps) simp
qed

lemma skip_zombies_in:
  "p \<in> S \<Longrightarrow> (\<And>q. q \<in> S \<Longrightarrow> p_next (pcbs k q) \<in> S) \<Longrightarrow> skip_zombies tot p checked k \<in> S"
proof (induction tot p checked k rule: skip_zombies.induct)
  case (1 tot p checked k)
  show ?case
  proof (cases "p_state (pcbs k p) = ZOMBIE \<and> checked < tot")
    case True
    then show ?thesis using 1 by (subst skip_zombies.simps) simp
  next
    case False
    then show ?thesis using 1(2) by (subst skip_zombies.simps) auto
  qed
qed

lemma run_queue_closed:
  assumes "run_queue k qs" and "q \<in> set qs"
  shows "p_next (pcbs k q) \<in> set qs"
proof -
  from assms(2) obtain xs ys where qs: "qs = xs @ q # ys" by (meson split_list)
  show ?thesis
  proof (cases ys)
    case Nil
    then have "q = current k" using assms(1) qs by (simp add: run_queue_def)
    then show ?thesis using run_queue_next [OF assms(1)] hd_in_set [of qs] qs by simp
  next
    case (Cons y ys')
    then show ?thesis using assms(1) qs by (auto simp: run_queue_def)
  qed
qed

section \<open>The timer tick\<close>

text \<open>The control block of the process that loses the processor, and of the one that gets it.\<close>

definition tick_down :: "PCB \<Rightarrow> PCB" where
  "tick_down p = (if ticks_remaining p > 0 then p\<lparr>ticks_remaining := ticks_remaining p - 1\<rparr> else p)"

definition preempted :: "InterruptFrame \<Rightarrow> PCB \<Rightarrow> PCB" where
  "preempted frame p = (tick_down p)\<lparr>
     p_state := (if p_state p = RUNNING then READY else p_state p), regs := frame\<rparr>"

definition dispatched :: "PCB \<Rightarrow> PCB" where
  "dispatched p = p\<lparr>p_state := RUNNING, ticks_remaining := get_quantum (priority p)\<rparr>"

lemma schedule_keeps_running:
  assumes "current k \<noteq> 0" and "head k \<noteq> 0" and "1 < ticks_remaining (pcbs k (current k))"
  shows "schedule frame k = Some (set_pcb (current k) tick_down k, frame)"
proof -
  let ?t = "ticks_remaining (pcbs k (current k))"
  have t: "0 < ?t" using assms(3) by (rule le_less_trans [rotated]) simp
  have "?t - 1 \<noteq> 0" using assms(3) by auto
  then have "0 < ?t - 1" by (simp add: word_greater_zero_iff)
  moreover have "set_pcb (current k) tick_down k
      = set_pcb (current k) (\<lambda>p. p\<lparr>ticks_remaining := ticks_remaining p - 1\<rparr>) k"
    using t by (simp add: set_pcb_def tick_down_def)
  ultimately show ?thesis using assms(1,2) t by (simp add: schedule_def Let_def)
qed

text \<open>The rest of the handler once the time slice is used up.\<close>

lemma run_queue_count:
  assumes "run_queue k qs" and "length qs < 256" and "\<And>p. p_next (pcbs k' p) = p_next (pcbs k p)"
    and "head k' = head k"
  shows "\<exists>tot. count_from (head k) 0 k' = Some tot \<and> unat tot = length qs"
proof -
  obtain as where as: "chain (pcbs k) (head k) as (head k)" "as \<noteq> []" "head k \<notin> set (tl as)"
    "length as = length qs" using run_queue_from_head [OF assms(1)] by metis
  have "chain (pcbs k') (head k) as (head k)"
    using as(1) chain_cong [of as "pcbs k'" "pcbs k"] assms(3) by simp
  then have "count_from (head k) 0 k' = Some (of_nat (length qs))"
    using count_from_chain [of k' "head k" as 0] as assms(4) by simp
  moreover have "unat (of_nat (length qs) :: u8) = length qs"
    using assms(2) by (intro unat_of_nat_fits) simp
  ultimately show ?thesis by blast
qed

definition slice_over :: "kern \<Rightarrow> kern" where
  "slice_over k = set_pcb (current k) (\<lambda>p. (tick_down p)\<lparr>p_state :=
     (if p_state p = RUNNING then READY else p_state p)\<rparr>) k"

lemma slice_over_simps [simp]:
  "p_next (pcbs (slice_over k) p) = p_next (pcbs k p)"
  "head (slice_over k) = head k" "current (slice_over k) = current k"
  "kheap (slice_over k) = kheap k" "kpmm (slice_over k) = kpmm k"
  "p_state (pcbs (slice_over k) p) = ZOMBIE \<longleftrightarrow> p_state (pcbs k p) = ZOMBIE"
  by (simp_all add: slice_over_def tick_down_def)

lemma schedule_unfold:
  assumes "current k \<noteq> 0" and "head k \<noteq> 0" and "ticks_remaining (pcbs k (current k)) \<le> 1"
    and "count_from (head k) 0 (slice_over k) = Some tot"
    and "skip_zombies tot (p_next (pcbs k (current k))) 0 (slice_over k) = nxt"
  shows "schedule frame k =
    (if p_state (pcbs k nxt) = ZOMBIE then Some (slice_over k, frame)
     else let k1 = (set_pcb (current k) (\<lambda>p. p\<lparr>regs := frame\<rparr>) (slice_over k))\<lparr>current := nxt\<rparr>
          in Some ((set_pcb nxt dispatched k1)\<lparr>tss_rsp0 := p_stack (pcbs k nxt) + 4096\<rparr>,
                   regs (pcbs k1 nxt)))"
proof -
  let ?c = "current k"
  define k1 where "k1 = (if ticks_remaining (pcbs k ?c) > 0
      then set_pcb ?c (\<lambda>p. p\<lparr>ticks_remaining := ticks_remaining p - 1\<rparr>) k else k)"
  have "ticks_remaining (pcbs k ?c) = 0 \<or> ticks_remaining (pcbs k ?c) = 1"
    using assms(3) by (simp add: word_le_nat_alt word_unat_eq_iff) linarith
  then have t0: "ticks_remaining (pcbs k1 ?c) = 0" by (auto simp: k1_def)
  have c1: "current k1 = ?c" "head k1 = head k" by (simp_all add: k1_def)
  have k2: "(if p_state (pcbs k1 ?c) = RUNNING then set_pcb ?c (\<lambda>p. p\<lparr>p_state := READY\<rparr>) k1 else k1)
      = slice_over k"
    by (auto simp: k1_def slice_over_def tick_down_def set_pcb_def)
  have stk: "p_stack (pcbs (slice_over k) p) = p_stack (pcbs k p)" for p
    by (simp add: slice_over_def tick_down_def)
  have two: "set_pcb a (\<lambda>p. p\<lparr>ticks_remaining := get_quantum (priority p)\<rparr>)
      (set_pcb a (\<lambda>p. p\<lparr>p_state := RUNNING\<rparr>) k') = set_pcb a dispatched k'" for a k'
    by (simp add: set_pcb_def dispatched_def)
  have fin: "regs (pcbs (set_pcb a dispatched k') a) = regs (pcbs k' a)"
    "p_stack (pcbs (set_pcb a dispatched k') a) = p_stack (pcbs k' a)" for a k'
    by (simp_all add: dispatched_def)
  have "schedule frame k = switch_to_next frame (slice_over k)"
    using assms(1,2) t0 unfolding schedule_def k1_def [symmetric] Let_def k2 c1 by simp
  then show ?thesis
    by (simp add: switch_to_next_def two Let_def assms(4,5) fin stk)
qed

lemma slice_over_regs:
  "set_pcb (current k) (\<lambda>p. p\<lparr>regs := frame\<rparr>) (slice_over k) = set_pcb (current k) (preempted frame) k"
  by (simp add: slice_over_def set_pcb_def preempted_def tick_down_def)

lemma schedule_switches:
  assumes rq: "run_queue k qs" and len: "length qs < 256"
    and t: "ticks_remaining (pcbs k (current k)) \<le> 1"
    and qs: "qs = zs @ n # rest" and zs: "\<forall>z\<in>set zs. p_state (pcbs k z) = ZOMBIE"
    and n: "p_state (pcbs k n) \<noteq> ZOMBIE"
  shows "\<exists>k'. schedule frame k = Some (k', if n = current k then frame else regs (pcbs k n)) \<and>
    run_queue k' (rest @ zs @ [n]) \<and> head k' = head k \<and>
    kheap k' = kheap k \<and> kpmm k' = kpmm k \<and>
    tss_rsp0 k' = p_stack (pcbs k n) + 4096 \<and>
    pcbs k' = (let m = (pcbs k)(current k := preempted frame (pcbs k (current k)))
               in m(n := dispatched (m n)))"
proof -
  obtain tot where tot: "count_from (head k) 0 (slice_over k) = Some tot" "unat tot = length qs"
    using run_queue_count [OF rq len, of "slice_over k"] by auto
  have "chain (pcbs (slice_over k)) (hd qs) zs n"
    using rq qs chain_cong [of zs "pcbs (slice_over k)" "pcbs k"]
    by (auto simp: run_queue_def)
  then have "skip_zombies tot (hd qs) 0 (slice_over k) = n"
    using zs n tot(2) qs by (intro skip_zombies_first) auto
  then have sk: "skip_zombies tot (p_next (pcbs k (current k))) 0 (slice_over k) = n"
    by (simp add: run_queue_next [OF rq])
  note nn = run_queue_nonnull [OF rq]
  define k1 where "k1 = (set_pcb (current k) (preempted frame) k)\<lparr>current := n\<rparr>"
  let ?k' = "(set_pcb n dispatched k1)\<lparr>tss_rsp0 := p_stack (pcbs k n) + 4096\<rparr>"
  have "schedule frame k = Some (?k', regs (pcbs k1 n))"
    using schedule_unfold [OF _ _ t tot(1) sk, of frame] nn n
    by (simp add: slice_over_regs k1_def Let_def)
  moreover have "regs (pcbs k1 n) = (if n = current k then frame else regs (pcbs k n))"
    by (simp add: k1_def preempted_def)
  moreover have "run_queue ?k' (rest @ zs @ [n])"
    by (rule run_queue_cong [OF rq _ _ qs]) (auto simp: k1_def preempted_def dispatched_def tick_down_def)
  ultimately show ?thesis
    by (intro exI [of _ ?k']) (auto simp: k1_def set_pcb_def Let_def fun_eq_iff)
qed

text \<open>
  C4: when the time slice is used up, \<^verbatim>\<open>schedule\<close> hands the processor to the next process of
  the ring that is not a zombie: it saves the interrupted frame in the old process, loads the
  saved registers, quantum and stack of the new one, and the ring is rotated; nothing else of any
  process changes.
\<close>

theorem schedule_round_robin:
  assumes "run_queue k (zs @ n # rest)" and "length (zs @ n # rest) < 256"
    and "ticks_remaining (pcbs k (current k)) \<le> 1"
    and "\<forall>z\<in>set zs. p_state (pcbs k z) = ZOMBIE" and "p_state (pcbs k n) \<noteq> ZOMBIE"
  shows "\<exists>k'. schedule frame k = Some (k', if n = current k then frame else regs (pcbs k n)) \<and>
    run_queue k' (rest @ zs @ [n]) \<and> tss_rsp0 k' = p_stack (pcbs k n) + 4096 \<and>
    pcbs k' = (let m = (pcbs k)(current k := preempted frame (pcbs k (current k)))
               in m(n := dispatched (m n)))"
  using schedule_switches [OF assms(1,2,3) refl assms(4,5), of frame] by blast

text \<open>Three processes: \<open>0x3000\<close> runs, \<open>0x1000\<close> is the head, \<open>0x2000\<close> a zombie.\<close>

definition ring_pcb :: "u64 \<Rightarrow> ProcessState \<Rightarrow> u64 \<Rightarrow> PCB" where
  "ring_pcb nxt st stack = zero_pcb\<lparr>p_next := nxt, p_state := st, p_stack := stack\<rparr>"

definition ring_kern :: kern where
  "ring_kern = fresh_kern\<lparr>head := 0x1000, current := 0x3000,
     pcbs := (pcbs fresh_kern)(0x1000 := ring_pcb 0x2000 READY 0x5000,
       0x2000 := ring_pcb 0x3000 ZOMBIE 0x6000, 0x3000 := ring_pcb 0x1000 RUNNING 0x7000)\<rparr>"

lemma ring_kern_queue: "run_queue ring_kern [0x1000, 0x2000, 0x3000]"
  by (simp add: run_queue_def ring_kern_def ring_pcb_def)

lemma schedule_round_robin_witness:
  "\<exists>k'. schedule zero_frame ring_kern = Some (k', zero_frame) \<and>
     run_queue k' [0x2000, 0x3000, 0x1000] \<and> tss_rsp0 k' = 0x6000"
proof -
  have h: "run_queue ring_kern ([] @ 0x1000 # [0x2000, 0x3000])" using ring_kern_queue by simp
  have t: "ticks_remaining (pcbs ring_kern (current ring_kern)) \<le> 1"
    and r: "p_state (pcbs ring_kern 0x1000) \<noteq> ZOMBIE" "current ring_kern = 0x3000"
    "regs (pcbs ring_kern 0x1000) = zero_frame" "p_stack (pcbs ring_kern 0x1000) = 0x5000"
    by (simp_all add: ring_kern_def ring_pcb_def zero_pcb_def)
  from schedule_round_robin [OF h _ t _ r(1), of zero_frame] r(2-4) show ?thesis by auto
qed

lemma schedule_zombies:
  assumes "run_queue k qs" and "length qs < 256" and "\<forall>q\<in>set qs. p_state (pcbs k q) = ZOMBIE"
  shows "\<exists>k'. schedule frame k = Some (k', frame) \<and> run_queue k' qs \<and> current k' = current k \<and>
    head k' = head k \<and> kheap k' = kheap k \<and> kpmm k' = kpmm k \<and>
    pcbs k' = (pcbs k)(current k := tick_down (pcbs k (current k)))"
proof -
  note nn = run_queue_nonnull [OF assms(1)]
  have cur: "current k \<in> set qs" using assms(1) by (metis last_in_set run_queue_def)
  have same: "run_queue k' qs" if "pcbs k' = (pcbs k)(current k := tick_down (pcbs k (current k)))"
    "head k' = head k" "current k' = current k" for k'
    by (rule run_queue_same [OF assms(1)]) (simp_all add: that tick_down_def)
  show ?thesis
  proof (cases "ticks_remaining (pcbs k (current k)) \<le> 1")
    case False
    then have "1 < ticks_remaining (pcbs k (current k))" by simp
    from schedule_keeps_running [OF conjunct2 [OF nn] conjunct1 [OF nn] this, of frame]
    show ?thesis using same by (auto simp: set_pcb_def)
  next
    case True
    obtain tot where tot: "count_from (head k) 0 (slice_over k) = Some tot"
      using run_queue_count [OF assms(1,2), of "slice_over k"] by auto
    let ?n = "skip_zombies tot (p_next (pcbs k (current k))) 0 (slice_over k)"
    have "?n \<in> set qs"
      using run_queue_closed [OF assms(1)] cur by (intro skip_zombies_in) simp_all
    then have "schedule frame k = Some (slice_over k, frame)"
      using schedule_unfold [OF _ _ True tot refl, of frame] nn assms(3) by simp
    moreover have "pcbs (slice_over k) = (pcbs k)(current k := tick_down (pcbs k (current k)))"
      using assms(3) cur by (auto simp: slice_over_def set_pcb_def tick_down_def)
    ultimately show ?thesis using same [of "slice_over k"] by auto
  qed
qed

text \<open>
  when every process of the ring is a zombie, \<^verbatim>\<open>schedule\<close> returns with the interrupted
  frame, the same current process and the same ring.
\<close>

theorem schedule_all_zombies:
  assumes "run_queue k qs" and "length qs < 256" and "\<forall>q\<in>set qs. p_state (pcbs k q) = ZOMBIE"
  shows "\<exists>k'. schedule frame k = Some (k', frame) \<and> run_queue k' qs \<and> current k' = current k \<and>
    pcbs k' = (pcbs k)(current k := tick_down (pcbs k (current k)))"
  using schedule_zombies [OF assms, of frame] by blast

lemma schedule_all_zombies_witness:
  "\<exists>k'. schedule zero_frame (kill_process 0x1000 (kill_process 0x3000 ring_kern))
     = Some (k', zero_frame) \<and> current k' = 0x3000"
  (is "\<exists>k'. schedule _ ?k = _ \<and> _")
proof -
  have q: "run_queue ?k [0x1000, 0x2000, 0x3000]"
    "\<forall>q\<in>set [0x1000, 0x2000, 0x3000]. p_state (pcbs ?k q) = ZOMBIE" "current ?k = 0x3000"
    by (simp_all add: run_queue_def ring_kern_def ring_pcb_def kill_process_def)
  from schedule_all_zombies [OF q(1) _ q(2), of zero_frame] q(3) show ?thesis by auto
qed

section \<open>Every process gets the processor\<close>

text \<open>A sequence of timer ticks; the frames are whatever the interrupted code leaves.\<close>

fun run_ticks :: "InterruptFrame list \<Rightarrow> kern \<Rightarrow> kern option" where
  "run_ticks [] k = Some k"
| "run_ticks (f # fs) k =
     (case schedule f k of None \<Rightarrow> None | Some (k', f') \<Rightarrow> run_ticks fs k')"

lemma run_ticks_append:
  "run_ticks (fs @ gs) k = (case run_ticks fs k of None \<Rightarrow> None | Some k' \<Rightarrow> run_ticks gs k')"
  by (induction fs arbitrary: k) (auto split: option.splits)

lemma get_quantum_le: "unat (get_quantum prio) \<le> 4"
  by (simp add: get_quantum_def)

text \<open>What a tick keeps of a ring: its zombies, and slices of at most four ticks.\<close>

definition same_zombies :: "kern \<Rightarrow> kern \<Rightarrow> bool" where
  "same_zombies k k' \<longleftrightarrow> (\<forall>p. p_state (pcbs k' p) = ZOMBIE \<longleftrightarrow> p_state (pcbs k p) = ZOMBIE)"

definition slice_of :: "kern \<Rightarrow> nat" where
  "slice_of k = unat (ticks_remaining (pcbs k (current k)))"

lemma ticks_until_switch:
  assumes "run_queue k (zs @ n # rest)" and "length (zs @ n # rest) < 256"
    and "\<forall>z\<in>set zs. p_state (pcbs k z) = ZOMBIE" and "p_state (pcbs k n) \<noteq> ZOMBIE"
    and "length fs = max 1 (slice_of k)"
  shows "\<exists>k'. run_ticks fs k = Some k' \<and> run_queue k' (rest @ zs @ [n]) \<and>
    same_zombies k k' \<and> slice_of k' \<le> 4"
  using assms
proof (induction fs arbitrary: k)
  case Nil
  then show ?case by simp
next
  case (Cons f fs)
  note nn = run_queue_nonnull [OF Cons.prems(1)]
  have cur: "current k \<notin> set zs"
    using Cons.prems(1) unfolding run_queue_def
    by (metis distinct_append disjoint_iff last_appendR last_in_set list.distinct(1))
  show ?case
  proof (cases "ticks_remaining (pcbs k (current k)) \<le> 1")
    case True
    then have "slice_of k \<le> 1" by (simp add: slice_of_def word_le_nat_alt)
    then have fs: "fs = []" using Cons.prems(5) by simp
    obtain k' where k': "schedule f k = Some (k', if n = current k then f else regs (pcbs k n))"
      "run_queue k' (rest @ zs @ [n])" "pcbs k' = (let m = (pcbs k)(current k :=
        preempted f (pcbs k (current k))) in m(n := dispatched (m n)))"
      using schedule_switches [OF Cons.prems(1,2) True refl Cons.prems(3,4), of f] by blast
    have c': "current k' = n" using k'(2) by (simp add: run_queue_def)
    have "same_zombies k k'"
      using k'(3) Cons.prems(4) by (auto simp: same_zombies_def preempted_def dispatched_def
          tick_down_def Let_def)
    moreover have "slice_of k' \<le> 4"
      using get_quantum_le by (simp add: slice_of_def c' k'(3) dispatched_def Let_def)
    ultimately show ?thesis using k'(1,2) fs by simp
  next
    case False
    then have gt: "1 < ticks_remaining (pcbs k (current k))" by simp
    then have st: "slice_of k = Suc (unat (ticks_remaining (pcbs k (current k)) - 1))"
      by (simp add: slice_of_def unat_pred word_less_nat_alt)
    let ?k' = "set_pcb (current k) tick_down k"
    have td: "p_state (tick_down p) = p_state p" "p_next (tick_down p) = p_next p" for p
      by (simp_all add: tick_down_def)
    have rq: "run_queue ?k' (zs @ n # rest)"
      by (rule run_queue_same [OF Cons.prems(1)]) (simp_all add: td)
    have "0 < ticks_remaining (pcbs k (current k))" using gt by (rule le_less_trans [rotated]) simp
    then have sl: "slice_of ?k' = slice_of k - 1"
      using st by (simp add: slice_of_def tick_down_def)
    have "1 < slice_of k" using gt by (simp add: slice_of_def word_less_nat_alt)
    then have "length fs = max 1 (slice_of ?k')" using Cons.prems(5) sl by simp
    note IH = Cons.IH [OF rq Cons.prems(2) _ _ this]
    have "\<forall>z\<in>set zs. p_state (pcbs ?k' z) = ZOMBIE" "p_state (pcbs ?k' n) \<noteq> ZOMBIE"
      using Cons.prems(3,4) td by auto
    from IH [OF this] obtain k'' where "run_ticks fs ?k' = Some k''" "run_queue k'' (rest @ zs @ [n])"
      "same_zombies ?k' k''" "slice_of k'' \<le> 4" by blast
    moreover have "same_zombies k k''"
      using \<open>same_zombies ?k' k''\<close> td by (auto simp: same_zombies_def)
    ultimately show ?thesis
      using schedule_keeps_running [OF conjunct2 [OF nn] conjunct1 [OF nn] gt, of f] by auto
  qed
qed

lemma first_alive:
  assumes "p_state (pcbs k p) \<noteq> ZOMBIE"
  shows "\<exists>zs n rest. xs @ p # ys = zs @ n # rest \<and> (\<forall>z\<in>set zs. p_state (pcbs k z) = ZOMBIE) \<and>
    p_state (pcbs k n) \<noteq> ZOMBIE \<and>
    (n = p \<and> rest = ys \<or> (\<exists>xs'. xs = zs @ n # xs' \<and> rest = xs' @ p # ys))"
proof (induction xs)
  case Nil
  then show ?case using assms by (intro exI [of _ "[]"] exI [of _ p] exI [of _ ys]) simp
next
  case (Cons x xs)
  show ?case
  proof (cases "p_state (pcbs k x) = ZOMBIE")
    case True
    from Cons obtain zs n rest where "xs @ p # ys = zs @ n # rest"
      "\<forall>z\<in>set zs. p_state (pcbs k z) = ZOMBIE" "p_state (pcbs k n) \<noteq> ZOMBIE"
      "n = p \<and> rest = ys \<or> (\<exists>xs'. xs = zs @ n # xs' \<and> rest = xs' @ p # ys)" by blast
    then show ?thesis using True
      by (intro exI [of _ "x # zs"] exI [of _ n] exI [of _ rest]) auto
  next
    case False
    then show ?thesis
      by (intro exI [of _ "[]"] exI [of _ x] exI [of _ "xs @ p # ys"]) auto
  qed
qed

lemma reaches_current:
  assumes "run_queue k (xs @ p # ys)" and "length (xs @ p # ys) < 256" and "slice_of k \<le> 4"
    and "p_state (pcbs k p) \<noteq> ZOMBIE" and "length fs = 4 * (length xs + 1)"
  shows "\<exists>j\<le>length fs. \<exists>k'. run_ticks (take j fs) k = Some k' \<and> current k' = p"
  using assms
proof (induction "length xs" arbitrary: xs ys fs k rule: less_induct)
  case less
  obtain zs n rest where s: "xs @ p # ys = zs @ n # rest"
    "\<forall>z\<in>set zs. p_state (pcbs k z) = ZOMBIE" "p_state (pcbs k n) \<noteq> ZOMBIE"
    "n = p \<and> rest = ys \<or> (\<exists>xs'. xs = zs @ n # xs' \<and> rest = xs' @ p # ys)"
    using first_alive [OF less.prems(4), of xs ys] by blast
  let ?j = "max 1 (slice_of k)"
  have j4: "?j \<le> 4" using less.prems(3) by simp
  have "length (take ?j fs) = ?j" using j4 less.prems(5) by simp
  from ticks_until_switch [OF less.prems(1,2) [unfolded s(1)] s(2,3) this]
  obtain k1 where k1: "run_ticks (take ?j fs) k = Some k1" "run_queue k1 (rest @ zs @ [n])"
    "same_zombies k k1" "slice_of k1 \<le> 4" by blast
  from s(4) show ?case
  proof (elim disjE exE conjE)
    assume "n = p"
    then have "current k1 = p" using k1(2) by (simp add: run_queue_def)
    then show ?thesis using k1(1) j4 less.prems(5) by (intro exI [of _ ?j]) auto
  next
    fix xs' assume xs: "xs = zs @ n # xs'" and r: "rest = xs' @ p # ys"
    let ?gs = "take (4 * (length xs' + 1)) (drop ?j fs)"
    have rq: "run_queue k1 (xs' @ p # (ys @ zs @ [n]))" using k1(2) r by simp
    have small: "length (xs' @ p # (ys @ zs @ [n])) < 256" using less.prems(2) xs by simp
    have alive: "p_state (pcbs k1 p) \<noteq> ZOMBIE"
      using k1(3) less.prems(4) by (simp add: same_zombies_def)
    have len: "length ?gs = 4 * (length xs' + 1)" using less.prems(5) xs j4 by simp
    have "length xs' < length xs" using xs by simp
    from less.hyps [OF this rq small k1(4) alive len]
    obtain i k2 where i: "i \<le> length ?gs" "run_ticks (take i ?gs) k1 = Some k2"
      "current k2 = p" by blast
    have "min i (4 * (length xs' + 1)) = i" using i(1) unfolding len by (rule min_absorb1)
    then have "take (?j + i) fs = take ?j fs @ take i ?gs" by (simp only: take_add take_take)
    then have "run_ticks (take (?j + i) fs) k = Some k2"
      using k1(1) i(2) by (simp add: run_ticks_append)
    moreover have "?j + i \<le> length fs" using i(1) len less.prems(5) xs j4 by simp
    ultimately show ?thesis using i(3) by blast
  qed
qed

text \<open>
  C6: no starvation.  A process that is not a zombie, \<open>i\<close>-th in the ring counted from the one
  after the current, is given the processor within \<open>4 (i + 1)\<close> timer ticks, whatever the
  priorities and the frames of the interrupted code.
\<close>

theorem schedule_no_starvation:
  assumes "run_queue k qs" and "length qs < 256"
    and "unat (ticks_remaining (pcbs k (current k))) \<le> 4"
    and "i < length qs" and "p_state (pcbs k (qs ! i)) \<noteq> ZOMBIE" and "length fs = 4 * (i + 1)"
  shows "\<exists>j\<le>length fs. \<exists>k'. run_ticks (take j fs) k = Some k' \<and> current k' = qs ! i"
proof -
  have qs: "qs = take i qs @ qs ! i # drop (Suc i) qs" using assms(4) by (rule id_take_nth_drop)
  show ?thesis
    using reaches_current [of k "take i qs" "qs ! i" "drop (Suc i) qs" fs] assms qs
    by (simp add: slice_of_def)
qed

lemma schedule_no_starvation_witness:
  "\<exists>j\<le>12. \<exists>k'. run_ticks (take j (replicate 12 zero_frame)) ring_kern = Some k' \<and>
     current k' = 0x3000"
proof -
  have "unat (ticks_remaining (pcbs ring_kern (current ring_kern))) \<le> 4"
    "p_state (pcbs ring_kern ([0x1000, 0x2000, 0x3000] ! 2)) \<noteq> ZOMBIE"
    by (simp_all add: ring_kern_def ring_pcb_def zero_pcb_def)
  from schedule_no_starvation [OF ring_kern_queue _ this(1) _ this(2), of "replicate 12 zero_frame"]
  show ?thesis by simp
qed

section \<open>Changing the ring\<close>

lemma chain_relink:
  assumes "chain m p as q" and "as \<noteq> []" and "distinct as"
    and "\<And>a. a \<in> set (butlast as) \<Longrightarrow> p_next (m' a) = p_next (m a)" and "p_next (m' (last as)) = r"
  shows "chain m' p as r"
proof -
  have as: "as = butlast as @ [last as]" using assms(2) by simp
  have "chain m p (butlast as @ [last as]) q" using assms(1) as by simp
  then have "chain m p (butlast as) (last as)" by simp
  then have "chain m' p (butlast as) (last as)"
    using chain_cong [of "butlast as" m' m] assms(4) by blast
  then have "chain m' p (butlast as @ [last as]) r" using assms(5) by simp
  then show ?thesis using as by simp
qed

lemma run_queue_split:
  assumes "run_queue k qs"
  obtains xs ys where "qs = xs @ head k # ys" "chain (pcbs k) (head k) (head k # ys @ xs) (head k)"
    "head k \<notin> set (ys @ xs)"
proof -
  from assms obtain xs ys where qs: "qs = xs @ head k # ys"
    unfolding run_queue_def by (meson split_list)
  have "chain (pcbs k) (head k) ((head k # ys) @ xs) (head k)"
    using chain_rotate [of "pcbs k" xs "head k # ys"] assms qs by (simp add: run_queue_def)
  then show ?thesis using that [OF qs] assms qs by (auto simp: run_queue_def)
qed

text \<open>Linking a new block in before the head.\<close>

lemma run_queue_insert:
  assumes rq: "run_queue k qs" and neu: "neu \<notin> set qs" "neu \<noteq> 0"
    and last: "last_from (head k) k = Some t"
    and m: "p_next (pcbs k' t) = neu" "p_next (pcbs k' neu) = head k"
      "\<And>p. p \<noteq> t \<Longrightarrow> p \<noteq> neu \<Longrightarrow> p_next (pcbs k' p) = p_next (pcbs k p)"
    and hc: "head k' = head k" "current k' = current k"
  shows "\<exists>xs ys. qs = xs @ head k # ys \<and> run_queue k' (xs @ neu # head k # ys)"
proof -
  obtain xs ys where s: "qs = xs @ head k # ys"
    "chain (pcbs k) (head k) (head k # ys @ xs) (head k)" "head k \<notin> set (ys @ xs)"
    by (rule run_queue_split [OF rq])
  let ?as = "head k # ys @ xs"
  have t: "t = last ?as" using last_from_chain [OF s(2)] s(3) last by simp
  have dist: "distinct ?as" using rq s(1) by (auto simp: run_queue_def)
  have out: "a \<noteq> t \<and> a \<noteq> neu" if "a \<in> set (butlast ?as)" for a
  proof
    have "distinct (butlast ?as @ [last ?as])" using dist by (subst append_butlast_last_id) simp_all
    then show "a \<noteq> t" using that unfolding t by auto
    show "a \<noteq> neu" using in_set_butlastD [OF that] neu(1) s(1) by auto
  qed
  have "chain (pcbs k') (head k) ?as neu"
    using m t out by (intro chain_relink [OF s(2) _ dist]) auto
  then have "chain (pcbs k') (head k) ((head k # ys) @ (xs @ [neu])) (head k)"
    using m(2) by auto
  then have "chain (pcbs k') (hd (xs @ [neu])) ((xs @ [neu]) @ head k # ys) (hd (xs @ [neu]))"
    using chain_rotate [of "pcbs k'" "head k # ys" "xs @ [neu]"] by simp
  then have "run_queue k' (xs @ neu # head k # ys)"
    using rq s(1) neu hc by (cases xs) (auto simp: run_queue_def)
  then show ?thesis using s(1) by blast
qed

text \<open>What \<^verbatim>\<open>scheduler_add\<close> does once the block and the stack are there.\<close>

lemma scheduler_add_made:
  assumes "heap_inv (kheap k)" and "pmm_inv (kpmm k)" and "entry \<noteq> 0" and "nm \<noteq> []"
    and ring: "head k = 0 \<and> qs = [] \<or> run_queue k qs \<and> set qs \<subseteq> heap_live (kheap k)"
    and km: "kmalloc SIZEOF_PCB (kheap k) = Some (h, p)" "p \<noteq> 0" and al: "pmm_alloc (kpmm k) = (fr, stack)"
  shows "\<exists>k' n. create_process (Some nm) entry prio k
        = Some (with_process p (new_pcb nm entry prio stack (reg_cr3 k) (next_pid k)) h fr k, p) \<and>
    scheduler_add (Some nm) entry prio k = Some k' \<and>
    kheap k' = h \<and> kpmm k' = fr \<and> next_pid k' = next_pid k + 1 \<and>
    pcbs k' p = (new_pcb nm entry prio stack (reg_cr3 k) (next_pid k))\<lparr>ticks_remaining := get_quantum prio,
      p_next := n, p_state := (if head k = 0 then RUNNING else READY)\<rparr> \<and>
    (\<forall>q. q \<noteq> p \<longrightarrow> (\<exists>n. pcbs k' q = (pcbs k q)\<lparr>p_next := n\<rparr>)) \<and>
    (if head k = 0 then head k' = p \<and> current k' = p \<and> run_queue k' [p]
     else head k' = head k \<and> current k' = current k \<and>
       (\<exists>xs ys. qs = xs @ head k # ys \<and> run_queue k' (xs @ p # head k # ys)))"
  using assms(1-4)
proof (cases rule: create_process_cases [where prio = prio])
  case no_heap
  then show ?thesis using km by simp
next
  case (made p' h' fr' stack')
  then have [simp]: "p' = p" "h' = h" "fr' = fr" "stack' = stack" using km al by simp_all
  let ?b = "new_pcb nm entry prio stack (reg_cr3 k) (next_pid k)"
  let ?k1 = "set_pcb p (\<lambda>p. p\<lparr>ticks_remaining := get_quantum prio\<rparr>) (with_process p ?b h fr k)"
  have c: "create_process (Some nm) entry prio k = Some (with_process p ?b h fr k, p)" using made(4) by simp
  note live = kheap.alloc_fresh [OF assms(1) km]
  have same: "\<exists>n. (pcbs k q) = (pcbs k q)\<lparr>p_next := n\<rparr>" for q by (rule exI [of _ "p_next (pcbs k q)"]) simp
  show ?thesis
  proof (cases "head k = 0")
    case True
    then show ?thesis using c km same
      by (auto simp: scheduler_add_def Let_def run_queue_def)
  next
    case False
    then have rq: "run_queue k qs" and sub: "set qs \<subseteq> heap_live (kheap k)" using ring by auto
    have p: "p \<notin> set qs" using live sub by auto
    obtain xs ys where s: "qs = xs @ head k # ys"
      "chain (pcbs k) (head k) (head k # ys @ xs) (head k)" "head k \<notin> set (ys @ xs)"
      by (rule run_queue_split [OF rq])
    define t where "t = last (head k # ys @ xs)"
    have "chain (pcbs ?k1) (head k) (head k # ys @ xs) (head k)"
      using s(2) p s(1) by (subst chain_cong [of _ _ "pcbs k"]) auto
    from last_from_chain [of ?k1 "head k" "head k # ys @ xs"] this s(3)
    have lf: "last_from (head k) ?k1 = Some t" by (simp add: t_def)
    have lf0: "last_from (head k) k = Some t" using last_from_chain [OF s(2)] s(3) by (simp add: t_def)
    have "t \<in> set (head k # ys @ xs)" unfolding t_def by (rule last_in_set) simp
    then have tp: "t \<noteq> p" using p s(1) by auto
    define k2 where "k2 = set_pcb p (\<lambda>p. p\<lparr>p_state := READY\<rparr>) (set_pcb p (\<lambda>p. p\<lparr>p_next := head k\<rparr>)
      (set_pcb t (\<lambda>q. q\<lparr>p_next := p\<rparr>) ?k1))"
    have add: "scheduler_add (Some nm) entry prio k = Some k2"
      using km c lf False by (simp add: scheduler_add_def Let_def k2_def)
    have "\<exists>xs ys. qs = xs @ head k # ys \<and> run_queue k2 (xs @ p # head k # ys)"
      by (rule run_queue_insert [OF rq p km(2) lf0]) (use tp in \<open>auto simp: k2_def\<close>)
    moreover have "pcbs k2 p = ?b\<lparr>ticks_remaining := get_quantum prio, p_next := head k, p_state := READY\<rparr>"
      using tp by (simp add: k2_def)
    moreover have "\<exists>n. pcbs k2 q = (pcbs k q)\<lparr>p_next := n\<rparr>" if "q \<noteq> p" for q
      using that same [of q] by (auto simp: k2_def)
    ultimately show ?thesis using add c False
      by (intro exI [of _ k2] exI [of _ "head k"]) (simp add: k2_def)
  qed
qed

text \<open>
  with a page left, \<^verbatim>\<open>scheduler_add\<close> of a valid process changes nothing when the heap is
  exhausted; otherwise the new process, with a block that was not in use, is the whole ring and
  running when there was no ring, and else is linked in just before \<^verbatim>\<open>head\<close>, ready, with its
  quantum, the current process unchanged.
\<close>

theorem scheduler_add_links:
  assumes "heap_inv (kheap k)" and "pmm_inv (kpmm k)" and "entry \<noteq> 0" and "nm \<noteq> []"
    and "head k = 0 \<and> qs = [] \<or> run_queue k qs \<and> set qs \<subseteq> heap_live (kheap k)"
  shows "\<exists>k'. scheduler_add (Some nm) entry prio k = Some k' \<and>
    (k' = k \<or> (\<exists>neu. neu \<notin> heap_live (kheap k) \<and>
       heap_live (kheap k') = insert neu (heap_live (kheap k)) \<and>
       ticks_remaining (pcbs k' neu) = get_quantum prio \<and> rip (regs (pcbs k' neu)) = entry \<and>
       (if head k = 0 then run_queue k' [neu] \<and> p_state (pcbs k' neu) = RUNNING
        else current k' = current k \<and> head k' = head k \<and> p_state (pcbs k' neu) = READY \<and>
             (\<exists>xs ys. qs = xs @ head k # ys \<and> run_queue k' (xs @ neu # head k # ys)))))"
  using assms(1-4)
proof (cases rule: create_process_cases [where prio = prio])
  case no_heap
  then show ?thesis by (simp add: scheduler_add_def)
next
  case (made p h fr stack)
  note live = kheap.alloc_fresh [OF assms(1) made(1,2)]
  from scheduler_add_made [OF assms made(1,2,3), of prio] obtain k' n where
    k': "scheduler_add (Some nm) entry prio k = Some k'" "kheap k' = h"
      "pcbs k' p = (new_pcb nm entry prio stack (reg_cr3 k) (next_pid k))\<lparr>ticks_remaining := get_quantum prio,
        p_next := n, p_state := (if head k = 0 then RUNNING else READY)\<rparr>"
      "if head k = 0 then head k' = p \<and> current k' = p \<and> run_queue k' [p]
       else head k' = head k \<and> current k' = current k \<and>
         (\<exists>xs ys. qs = xs @ head k # ys \<and> run_queue k' (xs @ p # head k # ys))" by blast
  then show ?thesis using live by (intro exI [of _ k']) (auto simp: new_pcb_fields)
qed

lemma scheduler_add_links_witness:
  "\<exists>k'. scheduler_add (Some [0x61]) 0x100020 0 fresh_kern = Some k' \<and>
     (k' = fresh_kern \<or> (\<exists>neu. run_queue k' [neu] \<and> ticks_remaining (pcbs k' neu) = 4))"
proof -
  have h: "head fresh_kern = 0 \<and> ([] :: u64 list) = [] \<or>
    run_queue fresh_kern [] \<and> set [] \<subseteq> heap_live (kheap fresh_kern)" by (simp add: fresh_kern_def)
  have "(0x100020 :: u64) \<noteq> 0" "[0x61 :: u8] \<noteq> []" by simp_all
  from scheduler_add_links [OF fresh_kern_inv(1,2) this h, of 0]
  show ?thesis by (auto simp: get_quantum_def fresh_kern_def split: if_splits)
qed

section \<open>Removal and the reaper\<close>

lemma remove_from_chain:
  "chain (pcbs k) p as (head k) \<Longrightarrow> as \<noteq> [] \<Longrightarrow> head k \<notin> set (tl as) \<Longrightarrow>
     remove_from p n k = Some (case find (\<lambda>q. pid (pcbs k q) = n) as of None \<Rightarrow> k
       | Some q \<Rightarrow> kill_process q k)"
proof (induction as arbitrary: p)
  case (Cons a as)
  show ?case
  proof (cases "pid (pcbs k a) = n")
    case True
    then show ?thesis using Cons.prems by (simp add: remove_from.simps [of a])
  next
    case False
    show ?thesis
    proof (cases as)
      case Nil
      then show ?thesis using Cons.prems False by (simp add: remove_from.simps [of a] Let_def)
    next
      case (Cons b bs)
      then have "p_next (pcbs k a) = b" "b \<noteq> head k" "p = a" using Cons.prems by auto
      then show ?thesis using Cons.IH [of b] Cons.prems Cons False
        by (simp add: remove_from.simps [of a] Let_def)
    qed
  qed
qed simp

text \<open>
  on a ring \<^verbatim>\<open>schedular_remove\<close> ends; it kills one process of that number when there is one
  and changes nothing otherwise.  The ring itself stays as it is.
\<close>

theorem schedular_remove_kills:
  assumes "run_queue k qs"
  shows "\<exists>k'. schedular_remove n k = Some k' \<and> run_queue k' qs \<and>
    (if \<exists>q\<in>set qs. pid (pcbs k q) = n
     then \<exists>q\<in>set qs. pid (pcbs k q) = n \<and> k' = kill_process q k else k' = k)"
proof -
  obtain xs ys where s: "qs = xs @ head k # ys"
    "chain (pcbs k) (head k) (head k # ys @ xs) (head k)" "head k \<notin> set (ys @ xs)"
    by (rule run_queue_split [OF assms])
  let ?as = "head k # ys @ xs"
  have rm: "schedular_remove n k = Some (case find (\<lambda>q. pid (pcbs k q) = n) ?as of None \<Rightarrow> k
       | Some q \<Rightarrow> kill_process q k)"
    using remove_from_chain [OF s(2), of n] s(3) run_queue_nonnull [OF assms]
    by (simp add: schedular_remove_def)
  have set: "set ?as = set qs" using s(1) by auto
  have same: "run_queue (kill_process q k) qs" for q
    by (rule run_queue_same [OF assms]) (simp_all add: kill_process_def)
  show ?thesis
  proof (cases "find (\<lambda>q. pid (pcbs k q) = n) ?as")
    case None
    then have "\<not> (\<exists>q. q \<in> set ?as \<and> pid (pcbs k q) = n)"
      by (rule find_None_iff [THEN iffD1])
    then have "\<not> (\<exists>q\<in>set qs. pid (pcbs k q) = n)" unfolding set by metis
    then show ?thesis using rm None assms by simp
  next
    case (Some q)
    then have "q \<in> set ?as \<and> pid (pcbs k q) = n" unfolding find_Some_iff by (metis nth_mem)
    then have q: "q \<in> set qs \<and> pid (pcbs k q) = n" unfolding set .
    then have "\<exists>q\<in>set qs. pid (pcbs k q) = n" by blast
    note goal = if_P [OF this]
    show ?thesis unfolding goal
      using q same [of q] rm [unfolded Some option.case] by blast
  qed
qed

lemma schedular_remove_kills_witness:
  "\<exists>k' q. schedular_remove 0 ring_kern = Some k' \<and> run_queue k' [0x1000, 0x2000, 0x3000] \<and>
     q \<in> {0x1000, 0x2000, 0x3000} \<and> k' = kill_process q ring_kern"
proof -
  have "\<exists>q\<in>set [0x1000, 0x2000, 0x3000]. pid (pcbs ring_kern q) = 0"
    by (simp add: ring_kern_def ring_pcb_def zero_pcb_def)
  with schedular_remove_kills [OF ring_kern_queue, of 0] show ?thesis by auto
qed

text \<open>What the reaper leaves in the ring, and what it frees.\<close>

definition kept :: "kern \<Rightarrow> u64 \<Rightarrow> bool" where
  "kept k p \<longleftrightarrow> p = head k \<or> p = current k \<or> p_state (pcbs k p) \<noteq> ZOMBIE"

text \<open>The kernel after the processes \<open>fs\<close> were freed: only ring links and the allocators differ.\<close>

definition reaped :: "u64 set \<Rightarrow> kern \<Rightarrow> kern \<Rightarrow> bool" where
  "reaped fs k k' \<longleftrightarrow> heap_inv (kheap k') \<and> heap_live (kheap k') = heap_live (kheap k) - fs \<and>
     pmm_inv (kpmm k') \<and>
     pmm_live (kpmm k') = pmm_live (kpmm k) - (\<lambda>p. p_stack (pcbs k p)) ` fs \<and>
     head k' = head k \<and> current k' = current k \<and>
     (\<forall>p. \<exists>nxt. pcbs k' p = (pcbs k p)\<lparr>p_next := nxt\<rparr>)"

lemma reaped_same:
  assumes "reaped fs k k'"
  shows "p_stack (pcbs k' p) = p_stack (pcbs k p)" "kept k' p = kept k p"
proof -
  obtain nxt where "pcbs k' p = (pcbs k p)\<lparr>p_next := nxt\<rparr>"
    using assms unfolding reaped_def by blast
  then show "p_stack (pcbs k' p) = p_stack (pcbs k p)" "kept k' p = kept k p"
    using assms by (simp_all add: kept_def reaped_def)
qed

lemma reaped_trans:
  assumes "reaped fs k k1" and "reaped gs k1 k2"
  shows "reaped (fs \<union> gs) k k2"
proof -
  have n: "\<exists>nxt. pcbs k2 p = (pcbs k p)\<lparr>p_next := nxt\<rparr>" for p
    using assms unfolding reaped_def by (metis PCB.update_convs(5) PCB.surjective)
  have "(\<lambda>p. p_stack (pcbs k1 p)) ` gs = (\<lambda>p. p_stack (pcbs k p)) ` gs"
    using reaped_same(1) [OF assms(1)] by simp
  then show ?thesis using assms n unfolding reaped_def image_Un by (simp add: Diff_Un) blast
qed

text \<open>Unlinking and freeing one process.\<close>

definition unlink :: "u64 \<Rightarrow> u64 \<Rightarrow> kern \<Rightarrow> kern" where
  "unlink prev cur k = set_pcb prev (\<lambda>p. p\<lparr>p_next := p_next (pcbs k cur)\<rparr>) k"

lemma reap_one:
  assumes "heap_inv (kheap k)" and "pmm_inv (kpmm k)" and "c \<in> heap_live (kheap k)"
    and "p_stack (pcbs k c) \<in> pmm_live (kpmm k)" and "prev \<noteq> c"
    and "c \<noteq> head k" and "\<not> kept k c"
  obtains k1 where "reaped {c} k k1" "pcbs k1 = pcbs (unlink prev c k)"
    "reap_from (Suc s) prev c k = reap_from s prev (p_next (pcbs k c)) k1"
proof -
  from kheap.free_live [OF assms(1,3)] obtain h where h: "kfree c (kheap k) = Some h"
    "heap_inv h" "heap_live h = heap_live (kheap k) - {c}" by blast
  from pages.free_live [OF assms(2,4)] have fr: "pmm_inv (pmm_free (p_stack (pcbs k c)) (kpmm k))"
    "pmm_live (pmm_free (p_stack (pcbs k c)) (kpmm k)) = pmm_live (kpmm k) - {p_stack (pcbs k c)}"
    by (auto simp: pmm_free_req_def)
  define k1 where "k1 = (unlink prev c k)\<lparr>kpmm := pmm_free (p_stack (pcbs k c)) (kpmm k), kheap := h\<rparr>"
  have self: "\<exists>nxt. b = b\<lparr>p_next := nxt\<rparr>" for b :: PCB
    by (rule exI [of _ "p_next b"]) simp
  have "reaped {c} k k1"
    using h fr self by (auto simp: reaped_def k1_def unlink_def)
  moreover have "reap_from (Suc s) prev c k = reap_from s prev (p_next (pcbs k c)) k1"
    using assms(5-7) h(1) by (simp add: kept_def unlink_def k1_def Let_def)
  ultimately show ?thesis by (intro that [of k1]) (simp_all add: k1_def)
qed

lemma reap_from_filters:
  assumes "heap_inv (kheap k)" and "pmm_inv (kpmm k)"
    and "chain (pcbs k) (head k) (pre @ prev # rest) (head k)" and "distinct (pre @ prev # rest)"
    and "head k \<notin> set rest" and "length rest \<le> s"
    and "{p \<in> set rest. \<not> kept k p} \<subseteq> heap_live (kheap k)"
    and "(\<lambda>p. p_stack (pcbs k p)) ` {p \<in> set rest. \<not> kept k p} \<subseteq> pmm_live (kpmm k)"
    and "inj_on (\<lambda>p. p_stack (pcbs k p)) {p \<in> set rest. \<not> kept k p}"
  shows "\<exists>k'. reap_from s prev (p_next (pcbs k prev)) k = Some k' \<and>
    reaped {p \<in> set rest. \<not> kept k p} k k' \<and>
    chain (pcbs k') (head k) (pre @ prev # filter (kept k) rest) (head k)"
  using assms
proof (induction rest arbitrary: s pre prev k)
  case Nil
  have "p_next (pcbs k prev) = head k" using Nil.prems(3) by auto
  then have "reap_from s prev (p_next (pcbs k prev)) k = Some k" by (cases s) auto
  moreover have "\<exists>nxt. b = b\<lparr>p_next := nxt\<rparr>" for b :: PCB
    by (rule exI [of _ "p_next b"]) simp
  ultimately show ?case using Nil.prems by (simp add: reaped_def)
next
  case (Cons c rest)
  obtain s' where s: "s = Suc s'" using Cons.prems(6) by (cases s) auto
  have c: "p_next (pcbs k prev) = c" "c \<noteq> head k" "prev \<noteq> c" "c \<notin> set rest"
    using Cons.prems(3-5) by auto
  show ?case
  proof (cases "kept k c")
    case True
    have "reap_from s prev c k = reap_from s' c (p_next (pcbs k c)) k"
      using True c s by (auto simp: kept_def)
    moreover have "{p \<in> set (c # rest). \<not> kept k p} = {p \<in> set rest. \<not> kept k p}" using True by auto
    ultimately show ?thesis
      using Cons.IH [of k "pre @ [prev]" c s'] Cons.prems c s True by auto
  next
    case False
    let ?rm = "{p \<in> set rest. \<not> kept k p}"
    have rm: "{p \<in> set (c # rest). \<not> kept k p} = insert c ?rm" "c \<notin> ?rm" using False c by auto
    note prems = Cons.prems(7-9) [unfolded rm(1)]
    have a: "c \<in> heap_live (kheap k)" and b: "p_stack (pcbs k c) \<in> pmm_live (kpmm k)"
      using prems(1,2) by blast+
    obtain k1 where k1: "reaped {c} k k1" "pcbs k1 = pcbs (unlink prev c k)"
      "reap_from (Suc s') prev c k = reap_from s' prev (p_next (pcbs k c)) k1"
      by (rule reap_one [OF Cons.prems(1,2) a b c(3,2) False, where s = s'])
    note same = reaped_same [OF k1(1)]
    have k1': "heap_inv (kheap k1)" "pmm_inv (kpmm k1)" "head k1 = head k"
      "heap_live (kheap k1) = heap_live (kheap k) - {c}"
      "pmm_live (kpmm k1) = pmm_live (kpmm k) - {p_stack (pcbs k c)}"
      using k1(1) by (auto simp: reaped_def)
    have nx: "p_next (pcbs k1 prev) = p_next (pcbs k c)" by (simp add: k1(2) unlink_def)
    have far: "p_next (pcbs k1 p) = p_next (pcbs k p)" if "p \<noteq> prev" for p
      using that by (simp add: k1(2) unlink_def)
    have "chain (pcbs k) (head k) pre prev" "chain (pcbs k) (p_next (pcbs k c)) rest (head k)"
      using Cons.prems(3) c by auto
    then have "chain (pcbs k1) (head k) pre prev" "chain (pcbs k1) (p_next (pcbs k c)) rest (head k)"
      using chain_off [of prev pre "pcbs k1" "pcbs k", OF _ far]
        chain_off [of prev rest "pcbs k1" "pcbs k", OF _ far] Cons.prems(4) by auto
    then have "chain (pcbs k1) (head k) (pre @ prev # rest) (head k)" using nx by auto
    moreover have inj: "inj_on (\<lambda>p. p_stack (pcbs k p)) ?rm"
      and out: "p_stack (pcbs k c) \<notin> (\<lambda>p. p_stack (pcbs k p)) ` ?rm"
      using prems(3) rm(2) by (simp_all add: inj_on_insert)
    moreover have "?rm \<subseteq> heap_live (kheap k1)" using prems(1) rm(2) unfolding k1' by blast
    moreover have "(\<lambda>p. p_stack (pcbs k p)) ` ?rm \<subseteq> pmm_live (kpmm k1)"
      using prems(2) out unfolding k1' by blast
    ultimately obtain k' where k': "reap_from s' prev (p_next (pcbs k1 prev)) k1 = Some k'"
      "reaped ?rm k1 k'" "chain (pcbs k') (head k) (pre @ prev # filter (kept k) rest) (head k)"
      using Cons.IH [of k1 pre prev s'] Cons.prems(4-6) s k1'(1-3) same by auto
    have "reaped (insert c ?rm) k k'" using reaped_trans [OF k1(1) k'(2)] by simp
    then show ?thesis unfolding rm(1) using k1(3) k'(1,3) c(1) s nx False by auto
  qed
qed

lemma reaper_pass_reaps:
  assumes "heap_inv (kheap k)" and "pmm_inv (kpmm k)" and "run_queue k qs" and "length qs \<le> 101"
    and "{p \<in> set qs. \<not> kept k p} \<subseteq> heap_live (kheap k)"
    and "(\<lambda>p. p_stack (pcbs k p)) ` {p \<in> set qs. \<not> kept k p} \<subseteq> pmm_live (kpmm k)"
    and "inj_on (\<lambda>p. p_stack (pcbs k p)) {p \<in> set qs. \<not> kept k p}"
  shows "\<exists>k'. reaper_pass k = Some k' \<and> run_queue k' (filter (kept k) qs) \<and>
    reaped {p \<in> set qs. \<not> kept k p} k k'"
proof -
  obtain xs ys where s: "qs = xs @ head k # ys"
    "chain (pcbs k) (head k) (head k # ys @ xs) (head k)" "head k \<notin> set (ys @ xs)"
    by (rule run_queue_split [OF assms(3)])
  let ?rest = "ys @ xs"
  have kh: "kept k (head k)" by (simp add: kept_def)
  then have rm: "{p \<in> set ?rest. \<not> kept k p} = {p \<in> set qs. \<not> kept k p}" using s(1) by auto
  have dist: "distinct ([] @ head k # ?rest)" using assms(3) s(1) by (auto simp: run_queue_def)
  have len: "length ?rest \<le> 100" using assms(4) s(1) by simp
  have ch: "chain (pcbs k) (head k) ([] @ head k # ?rest) (head k)" using s(2) by simp
  from reap_from_filters [OF assms(1,2) ch dist s(3) len, unfolded rm, OF assms(5-7)]
  obtain k' where k': "reap_from 100 (head k) (p_next (pcbs k (head k))) k = Some k'"
    "reaped {p \<in> set qs. \<not> kept k p} k k'"
    "chain (pcbs k') (head k) (head k # filter (kept k) ys @ filter (kept k) xs) (head k)" by auto
  have "reaper_pass k = Some k'"
    using k'(1) run_queue_nonnull [OF assms(3)] by (simp add: reaper_pass_def scheduler_get_head_def)
  moreover have "run_queue k' (filter (kept k) qs)"
  proof -
    let ?fx = "filter (kept k) xs" and ?fy = "head k # filter (kept k) ys"
    have "chain (pcbs k') (hd (?fx @ ?fy)) (?fx @ ?fy) (hd (?fx @ ?fy))"
      using chain_rotate [of "pcbs k'" ?fy ?fx] k'(3) by (cases "?fx = []") auto
    moreover have "filter (kept k) qs = ?fx @ ?fy" using s(1) kh by simp
    moreover have "last (filter (kept k) qs) = current k"
    proof -
      have "qs = butlast qs @ [current k]" using assms(3) append_butlast_last_id [of qs]
        by (simp add: run_queue_def)
      from arg_cong [OF this, of "filter (kept k)"]
      have "filter (kept k) qs = filter (kept k) (butlast qs) @ [current k]" by (simp add: kept_def)
      then show ?thesis by simp
    qed
    moreover have "head k' = head k" "current k' = current k" using k'(2) by (simp_all add: reaped_def)
    moreover have "distinct (filter (kept k) qs)" "0 \<notin> set (filter (kept k) qs)"
      "head k \<in> set (filter (kept k) qs)" using assms(3) kh by (simp_all add: run_queue_def)
    ultimately show ?thesis unfolding run_queue_def by (metis empty_iff list.set(1))
  qed
  ultimately show ?thesis using k'(2) by blast
qed

text \<open>
  C28: one pass of the reaper over a ring of at most 101 processes ends; it unlinks exactly the
  zombies other than \<^verbatim>\<open>head\<close> and the current process, frees the control block and the stack of
  each, and keeps the order of the rest.  A zombie at the head is never reaped.
\<close>

theorem reaper_pass_frees_zombies:
  assumes "heap_inv (kheap k)" and "pmm_inv (kpmm k)" and "run_queue k qs" and "length qs \<le> 101"
    and "{p \<in> set qs. \<not> kept k p} \<subseteq> heap_live (kheap k)"
    and "(\<lambda>p. p_stack (pcbs k p)) ` {p \<in> set qs. \<not> kept k p} \<subseteq> pmm_live (kpmm k)"
    and "inj_on (\<lambda>p. p_stack (pcbs k p)) {p \<in> set qs. \<not> kept k p}"
  shows "\<exists>k'. reaper_pass k = Some k' \<and> run_queue k' (filter (kept k) qs) \<and>
    reaped {p \<in> set qs. \<not> kept k p} k k'"
  by (rule reaper_pass_reaps [OF assms])

text \<open>A ring whose zombie has its block and its stack from the allocators.\<close>

definition zombie_kern :: "heap \<Rightarrow> kern" where
  "zombie_kern h = fresh_kern\<lparr>kheap := h,
     kpmm := small_pmm\<lparr>bitmap := [3, 0, 255], free_pages := 14\<rparr>, head := 0x1000, current := 0x3000,
     pcbs := (pcbs fresh_kern)(0x1000 := ring_pcb 0x200020 READY 0x5000,
       0x200020 := ring_pcb 0x3000 ZOMBIE 0x1000, 0x3000 := ring_pcb 0x1000 RUNNING 0x7000)\<rparr>"

lemma zombie_kern_parts:
  obtains h where "heap_inv h" "0x200020 \<in> heap_live h" "pmm_inv (kpmm (zombie_kern h))"
    "0x1000 \<in> pmm_live (kpmm (zombie_kern h))"
proof -
  obtain h r where km: "kmalloc SIZEOF_PCB fresh_heap = Some (h, r)" "unat r = 0x200020"
    using kmalloc_first_fit [OF fresh_heap_view, of SIZEOF_PCB] by (auto simp: fresh_heap_start)
  have r: "r = 0x200020" using km(2) by (simp add: word_unat_eq_iff)
  have inv: "heap_inv fresh_heap" using fresh_heap_view by (auto simp: heap_inv_def)
  have h: "heap_inv h" "0x200020 \<in> heap_live h"
    using kheap.alloc_inv [OF inv km(1)] kheap.alloc_fresh [OF inv km(1)] r by auto
  have req: "pmm_alloc_req () small_pmm = Some (small_pmm\<lparr>bitmap := [3, 0, 255], free_pages := 14\<rparr>, 4096)"
    by (simp add: pmm_alloc_req_def small_pmm_alloc)
  show ?thesis
    by (rule that [OF h])
      (use pages.alloc_inv [OF small_pmm_inv req] pages.alloc_fresh [OF small_pmm_inv req] in
        \<open>simp_all add: zombie_kern_def\<close>)
qed

lemma reaper_pass_frees_zombies_witness:
  "\<exists>h k'. reaper_pass (zombie_kern h) = Some k' \<and> run_queue k' [0x1000, 0x3000] \<and>
     0x200020 \<notin> heap_live (kheap k')"
proof -
  obtain h where h: "heap_inv h" "0x200020 \<in> heap_live h" and p: "pmm_inv (kpmm (zombie_kern h))"
    "0x1000 \<in> pmm_live (kpmm (zombie_kern h))" by (rule zombie_kern_parts)
  let ?qs = "[0x1000, 0x200020, 0x3000]"
  have q: "run_queue (zombie_kern h) ?qs"
    by (simp add: run_queue_def zombie_kern_def ring_pcb_def)
  have rm: "{p \<in> set ?qs. \<not> kept (zombie_kern h) p} = {0x200020}"
    by (auto simp: kept_def zombie_kern_def ring_pcb_def)
  have f: "filter (kept (zombie_kern h)) ?qs = [0x1000, 0x3000]"
    by (simp add: kept_def zombie_kern_def ring_pcb_def)
  have z: "heap_inv (kheap (zombie_kern h))" "0x200020 \<in> heap_live (kheap (zombie_kern h))"
    "p_stack (pcbs (zombie_kern h) 0x200020) = 0x1000"
    using h by (simp_all add: zombie_kern_def ring_pcb_def)
  have "\<exists>k'. reaper_pass (zombie_kern h) = Some k' \<and> run_queue k' [0x1000, 0x3000] \<and>
      reaped {0x200020} (zombie_kern h) k'"
    using reaper_pass_frees_zombies [OF z(1) p(1) q, unfolded rm f] z(2,3) p(2) by simp
  then show ?thesis unfolding reaped_def by blast
qed

section \<open>The counter of the ring\<close>

text \<open>
  \<^verbatim>\<open>total\<close> is a \<^verbatim>\<open>uint8_t\<close>, so a ring of 256 processes is counted as 0: when the next process
  is a zombie, no other is looked for, and the processor stays with a process that has used up
  its slice however many others are ready.
\<close>

theorem schedule_256_no_switch:
  assumes "run_queue k qs" and "length qs = 256"
    and "ticks_remaining (pcbs k (current k)) \<le> 1" and "p_state (pcbs k (hd qs)) = ZOMBIE"
  shows "schedule frame k = Some (slice_over k, frame) \<and>
    ticks_remaining (pcbs (slice_over k) (current (slice_over k))) = 0"
proof -
  obtain as where as: "chain (pcbs k) (head k) as (head k)" "as \<noteq> []" "head k \<notin> set (tl as)"
    "length as = length qs" using run_queue_from_head [OF assms(1)] by metis
  have "chain (pcbs (slice_over k)) (head k) as (head k)"
    using as(1) chain_cong [of as "pcbs (slice_over k)" "pcbs k"] by simp
  then have c: "count_from (head k) 0 (slice_over k) = Some 0"
    using count_from_chain [of "slice_over k" "head k" as 0] as assms(2) by simp
  have "skip_zombies 0 (p_next (pcbs k (current k))) 0 (slice_over k) = hd qs"
    by (simp add: skip_zombies.simps run_queue_next [OF assms(1)])
  from schedule_unfold [OF _ _ assms(3) c this, of frame] run_queue_nonnull [OF assms(1)] assms(4)
  have "schedule frame k = Some (slice_over k, frame)" by simp
  moreover have "ticks_remaining (pcbs k (current k)) = 0 \<or> ticks_remaining (pcbs k (current k)) = 1"
    using assms(3) by (simp add: word_le_nat_alt word_unat_eq_iff) linarith
  then have "ticks_remaining (pcbs (slice_over k) (current k)) = 0"
    by (auto simp: slice_over_def tick_down_def)
  ultimately show ?thesis by simp
qed

text \<open>256 processes at the addresses 1 to 256: the first a zombie, the last running.\<close>

definition big_ring :: kern where
  "big_ring = fresh_kern\<lparr>head := 1, current := 256, pcbs := (\<lambda>a.
     ring_pcb (if a = 256 then 1 else a + 1)
       (if a = 1 then ZOMBIE else if a = 256 then RUNNING else READY) 0x5000)\<rparr>"

lemma small_unat: "n < 257 \<Longrightarrow> unat (of_nat n :: u64) = n"
  by (intro unat_of_nat_fits) simp

lemma big_ring_chain:
  "n \<le> 255 \<Longrightarrow> chain (pcbs big_ring) (of_nat (256 - n)) (map of_nat [256 - n..<257]) 1"
proof (induction n)
  case 0
  then show ?case by (simp add: big_ring_def ring_pcb_def)
next
  case (Suc n)
  have u: "[256 - Suc n..<257] = (256 - Suc n) # [256 - n..<257]"
    using Suc.prems by (simp add: upt_conv_Cons Suc_diff_le [symmetric])
  have "unat (of_nat (256 - Suc n) :: u64) = 256 - Suc n" by (rule small_unat) simp
  then have ne: "(of_nat (256 - Suc n) :: u64) \<noteq> 256" by auto
  have "(of_nat (256 - Suc n) :: u64) + 1 = of_nat (Suc (256 - Suc n))" by simp
  also have "Suc (256 - Suc n) = 256 - n" using Suc.prems by simp
  finally have "(of_nat (256 - Suc n) :: u64) + 1 = of_nat (256 - n)" .
  then show ?case unfolding u using Suc ne by (simp add: big_ring_def ring_pcb_def)
qed

lemma big_ring_queue: "run_queue big_ring (map of_nat [1..<257])"
proof -
  let ?qs = "map (of_nat :: nat \<Rightarrow> u64) [1..<257]"
  have "inj_on (of_nat :: nat \<Rightarrow> u64) {1..<257}"
    by (rule inj_on_inverseI [of _ unat]) (simp add: small_unat)
  then have "distinct ?qs" by (simp add: distinct_map)
  moreover have "0 \<notin> set ?qs"
  proof
    assume "0 \<in> set ?qs"
    then obtain n where "1 \<le> n" "n < 257" "(0::u64) = of_nat n" by auto
    then show False using small_unat [of n] by (metis not_one_le_zero unsigned_0)
  qed
  moreover have "?qs = 1 # map of_nat [2..<257]" by (simp add: upt_conv_Cons)
  moreover have "last ?qs = 256" by (simp add: last_map)
  moreover have "chain (pcbs big_ring) 1 ?qs 1" using big_ring_chain [of 255] by simp
  moreover have "head big_ring = 1" "current big_ring = 256" by (simp_all add: big_ring_def)
  ultimately show ?thesis unfolding run_queue_def by (metis list.sel(1) list.set_intros(1) list.distinct(1))
qed

lemma schedule_256_no_switch_witness:
  "\<exists>k'. schedule zero_frame big_ring = Some (k', zero_frame) \<and> current k' = 256 \<and>
     p_state (pcbs k' 2) = READY"
proof -
  have len: "length (map (of_nat :: nat \<Rightarrow> u64) [1..<257]) = 256" by simp
  have h: "hd (map (of_nat :: nat \<Rightarrow> u64) [1..<257]) = 1" by (simp add: upt_conv_Cons)
  have b: "ticks_remaining (pcbs big_ring (current big_ring)) \<le> 1"
    "p_state (pcbs big_ring 1) = ZOMBIE"
    by (simp_all add: big_ring_def ring_pcb_def zero_pcb_def)
  from schedule_256_no_switch [OF big_ring_queue len b(1), unfolded h, OF b(2), of zero_frame]
  have "schedule zero_frame big_ring = Some (slice_over big_ring, zero_frame)" by blast
  then show ?thesis by (auto simp: slice_over_def big_ring_def ring_pcb_def)
qed

end
