(* ===== verification/Fifo.thy ===== *)
theory Fifo
  imports Livly_Prelude
begin

text \<open>
  The contract between an interrupt handler that puts bytes into a buffer and the code that takes
  them out: a bounded first-in first-out queue.  The keyboard's ring buffer of
  \<^verbatim>\<open>src/src/drivers/keyboard.c\<close> provides it; the shell and the editor read from it.  What the
  reader gets under any interleaving is proved here once.
\<close>

section \<open>Interleavings\<close>

text \<open>
  An interleaving of the two sides.  \<open>Pop\<close> is one turn of the reader's waiting loop: it takes an
  item when there is one.
\<close>

datatype 'a fifo_op = Push 'a | Pop

fun run_fifo ::
  "('a \<Rightarrow> 's \<Rightarrow> 's) \<Rightarrow> ('s \<Rightarrow> ('a \<times> 's) option) \<Rightarrow> 'a fifo_op list \<Rightarrow> 's \<Rightarrow> 'a list \<times> 's" where
  "run_fifo push pop [] s = ([], s)"
| "run_fifo push pop (Push x # ops) s = run_fifo push pop ops (push x s)"
| "run_fifo push pop (Pop # ops) s =
     (case pop s of None \<Rightarrow> run_fifo push pop ops s
      | Some (x, s') \<Rightarrow> (let (xs, s'') = run_fifo push pop ops s' in (x # xs, s'')))"

fun pushed :: "'a fifo_op list \<Rightarrow> 'a list" where
  "pushed [] = []"
| "pushed (Push x # ops) = x # pushed ops"
| "pushed (Pop # ops) = pushed ops"

text \<open>Starting with \<open>n\<close> items, no push finds \<open>room\<close> items waiting.\<close>

fun in_time :: "nat \<Rightarrow> nat \<Rightarrow> 'a fifo_op list \<Rightarrow> bool" where
  "in_time room n [] \<longleftrightarrow> True"
| "in_time room n (Push x # ops) \<longleftrightarrow> n < room \<and> in_time room (Suc n) ops"
| "in_time room n (Pop # ops) \<longleftrightarrow> in_time room (n - 1) ops"

lemma in_time_pushes: "n + length xs \<le> room \<Longrightarrow> in_time room n (map Push xs)"
  by (induction xs arbitrary: n) auto

lemma pushed_map_Push [simp]: "pushed (map Push xs) = xs"
  by (induction xs) auto

lemma pushed_append [simp]: "pushed (xs @ ys) = pushed xs @ pushed ys"
  by (induction xs rule: pushed.induct) auto

section \<open>The interface\<close>

locale bounded_fifo =
  fixes push :: "'a \<Rightarrow> 's \<Rightarrow> 's"
    and pop :: "'s \<Rightarrow> ('a \<times> 's) option"
    and items :: "'s \<Rightarrow> 'a list"
    and ok :: "'s \<Rightarrow> bool"
    and room :: nat
  assumes push_item: "ok s \<Longrightarrow> length (items s) < room \<Longrightarrow>
      ok (push x s) \<and> items (push x s) = items s @ [x]"
    and pop_none: "ok s \<Longrightarrow> items s = [] \<Longrightarrow> pop s = None"
    and pop_item: "ok s \<Longrightarrow> items s = x # xs \<Longrightarrow>
      \<exists>s'. pop s = Some (x, s') \<and> ok s' \<and> items s' = xs"
begin

text \<open>Whatever the interleaving, the reader gets the items in order, none lost and none twice.\<close>

lemma run_in_order:
  assumes "ok s" and "in_time room (length (items s)) ops" and "run_fifo push pop ops s = (xs, s')"
  shows "ok s' \<and> xs @ items s' = items s @ pushed ops"
  using assms
proof (induction ops arbitrary: s xs rule: pushed.induct)
  case 1
  then show ?case by simp
next
  case (2 x ops)
  then show ?case using push_item [of s x] 2(1) [of "push x s" xs] by simp
next
  case (3 ops)
  show ?case
  proof (cases "items s")
    case Nil
    then show ?thesis using 3 pop_none [of s] by simp
  next
    case (Cons y ys)
    from pop_item [OF 3(2) this] obtain t where t: "pop s = Some (y, t)" "ok t" "items t = ys"
      by blast
    obtain zs where zs: "run_fifo push pop ops t = (zs, s')" "xs = y # zs"
      using 3(4) t(1) by (auto split: prod.splits)
    then show ?thesis using 3(1) [OF t(2) _ zs(1)] 3(3) t Cons by simp
  qed
qed

lemma push_many:
  "ok s \<Longrightarrow> length (items s) + length xs \<le> room \<Longrightarrow>
     ok (fold push xs s) \<and> items (fold push xs s) = items s @ xs"
  by (induction xs arbitrary: s) (auto simp: push_item)

end

end
