(* ===== verification/Port_IO.thy ===== *)
theory Port_IO
  imports Livly_Prelude
begin

text \<open>
  Port input and output, \<^verbatim>\<open>src/src/kernel/io.h\<close>.  The devices behind the ports are a parameter: a
  state \<open>'d\<close> and the effect of each instruction on it; reading a port may change the device.
  Also the timer of \<^verbatim>\<open>src/src/kernel/timer.c\<close>, which is set up through two ports.
\<close>

record 'd ports =
  in8 :: "u16 \<Rightarrow> 'd \<Rightarrow> u8 \<times> 'd"
  out8 :: "u16 \<Rightarrow> u8 \<Rightarrow> 'd \<Rightarrow> 'd"
  in16 :: "u16 \<Rightarrow> 'd \<Rightarrow> u16 \<times> 'd"
  out16 :: "u16 \<Rightarrow> u16 \<Rightarrow> 'd \<Rightarrow> 'd"

definition inb :: "'d ports \<Rightarrow> u16 \<Rightarrow> 'd \<Rightarrow> u8 \<times> 'd" where
  "inb p port d = in8 p port d"

definition outb :: "'d ports \<Rightarrow> u16 \<Rightarrow> u8 \<Rightarrow> 'd \<Rightarrow> 'd" where
  "outb p port val d = out8 p port val d"

definition inw :: "'d ports \<Rightarrow> u16 \<Rightarrow> 'd \<Rightarrow> u16 \<times> 'd" where
  "inw p port d = in16 p port d"

definition outw :: "'d ports \<Rightarrow> u16 \<Rightarrow> u16 \<Rightarrow> 'd \<Rightarrow> 'd" where
  "outw p port val d = out16 p port val d"

section \<open>The timer\<close>

abbreviation TIMER_HZ :: nat where "TIMER_HZ \<equiv> 1000"

text \<open>\<^verbatim>\<open>uint16_t divisor = 1193180 / TIMER_HZ\<close>, sent low byte first.\<close>

definition divisor :: u16 where
  "divisor = of_nat (1193180 div TIMER_HZ)"

definition timer_init :: "'d ports \<Rightarrow> 'd \<Rightarrow> 'd" where
  "timer_init p d =
     (let d = outb p 0x43 0x36 d;
          d = outb p 0x40 (ucast (divisor AND 0xFF)) d
      in outb p 0x40 (ucast (drop_bit 8 divisor)) d)"

section \<open>Devices that record what is written\<close>

text \<open>Any device, with a log of the bytes written to its ports.\<close>

definition logged :: "'d ports \<Rightarrow> ('d \<times> (u16 \<times> u8) list) ports" where
  "logged p =
     \<lparr>in8 = (\<lambda>port (d, ws). let (v, d) = in8 p port d in (v, d, ws)),
      out8 = (\<lambda>port val (d, ws). (out8 p port val d, ws @ [(port, val)])),
      in16 = (\<lambda>port (d, ws). let (v, d) = in16 p port d in (v, d, ws)),
      out16 = (\<lambda>port val (d, ws). (out16 p port val d, ws))\<rparr>"

lemma logged_outb [simp]: "outb (logged p) port val (d, ws) = (outb p port val d, ws @ [(port, val)])"
  by (simp add: logged_def outb_def)

lemma logged_inb: "inb (logged p) port (d, ws) = (let (v, d) = inb p port d in (v, d, ws))"
  by (simp add: logged_def inb_def)

end
