(* ===== verification/Keyboard.thy ===== *)
theory Keyboard
  imports Fifo Port_IO
begin

text \<open>
  The keyboard driver \<^verbatim>\<open>src/src/drivers/keyboard.c\<close>: the interrupt handler that turns scan codes into
  bytes, the ring buffer between it and its readers, and the set-up of the controller.  A read of
  the character tables past their end, which C leaves undefined, is \<open>None\<close>.
\<close>

section \<open>State\<close>

abbreviation KB_BUFFER_SIZE :: nat where "KB_BUFFER_SIZE \<equiv> 1096"

record keyboard =
  letztes_zeichen :: u8
  shift_gedrueckt :: u8
  ctrl_gedrueckt :: u8
  extended :: u8
  kb_buffer :: "u8 list"
  kb_read_pos :: nat
  kb_write_pos :: nat

definition kb_start :: keyboard where
  "kb_start = \<lparr>letztes_zeichen = 0, shift_gedrueckt = 0, ctrl_gedrueckt = 0, extended = 0,
     kb_buffer = replicate KB_BUFFER_SIZE 0, kb_read_pos = 0, kb_write_pos = 0\<rparr>"

section \<open>The tables\<close>

definition ascii :: "string \<Rightarrow> u8 list" where
  "ascii = map of_char"

definition de_normal :: "u8 list" where
  "de_normal =
     [0] @ ascii ''^1234567890-='' @ [0] @
     [0] @ ascii ''qwertzuiop'' @ [0] @ ascii ''+'' @ [10] @
     [0] @ ascii ''asdfghjkl'' @ [0, 0] @ ascii ''^'' @
     [0] @ ascii ''<yxcvbnm,.-'' @ [0] @
     [0, 0] @ ascii '' ''"

definition de_shift :: "u8 list" where
  "de_shift =
     [0, 0] @ ascii ''!'' @ [0x22, 0] @ ascii ''$%&/()=?`'' @ [0] @
     [0] @ ascii ''QWERTZUIOP'' @ [0] @ ascii ''*'' @ [10] @
     [0] @ ascii ''ASDFGHJKL'' @ [0, 0, 0] @
     [0] @ ascii ''>YXCVBNM;:_'' @ [0] @
     [0, 0] @ ascii '' ''"

section \<open>The ring buffer\<close>

definition keyboard_push :: "u8 \<Rightarrow> keyboard \<Rightarrow> keyboard" where
  "keyboard_push c s =
     (let s = s\<lparr>kb_buffer := (kb_buffer s)[kb_write_pos s := c]\<rparr>
      in s\<lparr>kb_write_pos := (kb_write_pos s + 1) mod KB_BUFFER_SIZE\<rparr>)"

text \<open>\<open>None\<close> is another turn of the waiting loop of \<^verbatim>\<open>keyboard_read\<close>.\<close>

definition keyboard_read :: "keyboard \<Rightarrow> (u8 \<times> keyboard) option" where
  "keyboard_read s =
     (if kb_read_pos s = kb_write_pos s then None
      else Some (kb_buffer s ! kb_read_pos s,
                 s\<lparr>kb_read_pos := (kb_read_pos s + 1) mod KB_BUFFER_SIZE\<rparr>))"

definition keyboard_getchar :: "keyboard \<Rightarrow> u8" where
  "keyboard_getchar s = letztes_zeichen s"

section \<open>The handler\<close>

abbreviation KEY_UP :: u8 where "KEY_UP \<equiv> 0x80"
abbreviation KEY_DOWN :: u8 where "KEY_DOWN \<equiv> 0x81"
abbreviation KEY_LEFT :: u8 where "KEY_LEFT \<equiv> 0x82"
abbreviation KEY_RIGHT :: u8 where "KEY_RIGHT \<equiv> 0x83"
abbreviation KEY_CTRL_C :: u8 where "KEY_CTRL_C \<equiv> 0x84"
abbreviation KEY_CTRL_V :: u8 where "KEY_CTRL_V \<equiv> 0x85"
abbreviation KEY_CTRL_Z :: u8 where "KEY_CTRL_Z \<equiv> 0x86"
abbreviation KEY_CTRL_Y :: u8 where "KEY_CTRL_Y \<equiv> 0x87"
abbreviation KEY_CTRL_S :: u8 where "KEY_CTRL_S \<equiv> 0x88"
abbreviation KEY_SHIFT_UP :: u8 where "KEY_SHIFT_UP \<equiv> 0x89"
abbreviation KEY_SHIFT_DOWN :: u8 where "KEY_SHIFT_DOWN \<equiv> 0x8A"
abbreviation KEY_SHIFT_LEFT :: u8 where "KEY_SHIFT_LEFT \<equiv> 0x8B"
abbreviation KEY_SHIFT_RIGHT :: u8 where "KEY_SHIFT_RIGHT \<equiv> 0x8C"

text \<open>After the prefix \<^verbatim>\<open>0xE0\<close>: the arrow keys.\<close>

definition extended_key :: "u8 \<Rightarrow> keyboard \<Rightarrow> keyboard" where
  "extended_key scancode s =
     (let s = s\<lparr>extended := 0\<rparr>
      in if scancode \<ge> 0x80 then s
         else if scancode = 0x48 then
           keyboard_push (if shift_gedrueckt s \<noteq> 0 then KEY_SHIFT_UP else KEY_UP) s
         else if scancode = 0x50 then
           keyboard_push (if shift_gedrueckt s \<noteq> 0 then KEY_SHIFT_DOWN else KEY_DOWN) s
         else if scancode = 0x4B then
           keyboard_push (if shift_gedrueckt s \<noteq> 0 then KEY_SHIFT_LEFT else KEY_LEFT) s
         else if scancode = 0x4D then
           keyboard_push (if shift_gedrueckt s \<noteq> 0 then KEY_SHIFT_RIGHT else KEY_RIGHT) s
         else s)"

definition ctrl_key :: "u8 \<Rightarrow> keyboard \<Rightarrow> keyboard" where
  "ctrl_key scancode s =
     (if scancode = 0x1F then keyboard_push KEY_CTRL_S s
      else if scancode = 0x2E then keyboard_push KEY_CTRL_C s
      else if scancode = 0x2F then keyboard_push KEY_CTRL_V s
      else if scancode = 0x2C then keyboard_push KEY_CTRL_Y s
      else if scancode = 0x15 then keyboard_push KEY_CTRL_Z s
      else s)"

text \<open>The character of a key, read from one of the tables.\<close>

definition table_char :: "u8 \<Rightarrow> keyboard \<Rightarrow> u8 option" where
  "table_char scancode s =
     (let table = (if shift_gedrueckt s \<noteq> 0 then de_shift else de_normal)
      in if unat scancode < length table then Some (table ! unat scancode) else None)"

text \<open>\<^verbatim>\<open>keyboard_handler\<close>, for the byte it reads from the port.\<close>

definition handle_scancode :: "u8 \<Rightarrow> keyboard \<Rightarrow> keyboard option" where
  "handle_scancode scancode s =
     (if scancode = 0xE0 then Some (s\<lparr>extended := 1\<rparr>)
      else if extended s \<noteq> 0 then Some (extended_key scancode s)
      else if scancode = 0x2A \<or> scancode = 0x36 then Some (s\<lparr>shift_gedrueckt := 1\<rparr>)
      else if scancode = 0xAA \<or> scancode = 0xB6 then Some (s\<lparr>shift_gedrueckt := 0\<rparr>)
      else if scancode = 0x1D then Some (s\<lparr>ctrl_gedrueckt := 1\<rparr>)
      else if scancode = 0x9D then Some (s\<lparr>ctrl_gedrueckt := 0\<rparr>)
      else if scancode \<ge> 0x80 then Some s
      else if scancode = 0x01 then Some (keyboard_push 0x1B s)
      else if scancode = 0x0E then Some (keyboard_push 8 s)
      else if ctrl_gedrueckt s \<noteq> 0 then Some (ctrl_key scancode s)
      else case table_char scancode s of None \<Rightarrow> None
        | Some c \<Rightarrow> Some (if c \<noteq> 0 then keyboard_push c (s\<lparr>letztes_zeichen := c\<rparr>) else s))"

abbreviation KEYBOARD_PORT :: u16 where "KEYBOARD_PORT \<equiv> 0x60"

definition keyboard_handler :: "'d ports \<Rightarrow> 'd \<Rightarrow> keyboard \<Rightarrow> ('d \<times> keyboard) option" where
  "keyboard_handler p d s =
     (let (scancode, d) = inb p KEYBOARD_PORT d
      in map_option (Pair d) (handle_scancode scancode s))"

section \<open>Setting up the controller\<close>

abbreviation PS2_DATA :: u16 where "PS2_DATA \<equiv> 0x60"
abbreviation PS2_STATUS :: u16 where "PS2_STATUS \<equiv> 0x64"
abbreviation PS2_CMD :: u16 where "PS2_CMD \<equiv> 0x64"

text \<open>\<^verbatim>\<open>while (timeout--) if (...) return;\<close>: at most \<open>timeout\<close> reads of the status port.\<close>

fun ps2_wait_write :: "nat \<Rightarrow> 'd ports \<Rightarrow> 'd \<Rightarrow> 'd" where
  "ps2_wait_write 0 p d = d"
| "ps2_wait_write (Suc n) p d =
     (let (status, d) = inb p PS2_STATUS d
      in if status AND 0x02 = 0 then d else ps2_wait_write n p d)"

fun ps2_wait_read :: "nat \<Rightarrow> 'd ports \<Rightarrow> 'd \<Rightarrow> 'd" where
  "ps2_wait_read 0 p d = d"
| "ps2_wait_read (Suc n) p d =
     (let (status, d) = inb p PS2_STATUS d
      in if status AND 0x01 \<noteq> 0 then d else ps2_wait_read n p d)"

abbreviation TIMEOUT :: nat where "TIMEOUT \<equiv> 100000"

text \<open>
  \<^verbatim>\<open>keyboard_init\<close>; the result holds the values it prints: the interrupt mask before, the
  controller's configuration, the answer to the reset and the mask after.
\<close>

definition keyboard_init :: "'d ports \<Rightarrow> 'd \<Rightarrow> 'd \<times> u8 list" where
  "keyboard_init p d =
     (let (mask_before, d) = inb p 0x21 d;
          d = ps2_wait_write TIMEOUT p d;
          d = outb p PS2_CMD 0xAD d;
          d = ps2_wait_write TIMEOUT p d;
          d = outb p PS2_CMD 0xA7 d;
          (_, d) = inb p PS2_DATA d;
          d = ps2_wait_write TIMEOUT p d;
          d = outb p PS2_CMD 0x20 d;
          d = ps2_wait_read TIMEOUT p d;
          (config, d) = inb p PS2_DATA d;
          new_config = (config OR 0x01 OR 0x40) AND NOT 0x10;
          d = ps2_wait_write TIMEOUT p d;
          d = outb p PS2_CMD 0x60 d;
          d = ps2_wait_write TIMEOUT p d;
          d = outb p PS2_DATA new_config d;
          d = ps2_wait_write TIMEOUT p d;
          d = outb p PS2_CMD 0xAE d;
          d = ps2_wait_write TIMEOUT p d;
          d = outb p PS2_DATA 0xFF d;
          d = ps2_wait_read TIMEOUT p d;
          (resp, d) = inb p PS2_DATA d;
          (mask, d) = inb p 0x21 d;
          d = outb p 0x21 (mask AND NOT 0x02) d;
          (mask_after, d) = inb p 0x21 d
      in (d, [mask_before, config, resp, mask_after]))"

section \<open>The buffer as a queue\<close>

definition kb_ok :: "keyboard \<Rightarrow> bool" where
  "kb_ok s \<longleftrightarrow> length (kb_buffer s) = KB_BUFFER_SIZE \<and> kb_read_pos s < KB_BUFFER_SIZE \<and>
     kb_write_pos s < KB_BUFFER_SIZE"

definition kb_count :: "keyboard \<Rightarrow> nat" where
  "kb_count s = (kb_write_pos s + KB_BUFFER_SIZE - kb_read_pos s) mod KB_BUFFER_SIZE"

text \<open>The bytes waiting to be read, oldest first.\<close>

definition kb_items :: "keyboard \<Rightarrow> u8 list" where
  "kb_items s = map (\<lambda>i. kb_buffer s ! ((kb_read_pos s + i) mod KB_BUFFER_SIZE)) [0..<kb_count s]"

lemma kb_items_length [simp]: "length (kb_items s) = kb_count s"
  by (simp add: kb_items_def)

lemma push_fields [simp]:
  "kb_read_pos (keyboard_push c s) = kb_read_pos s"
  "kb_write_pos (keyboard_push c s) = (kb_write_pos s + 1) mod KB_BUFFER_SIZE"
  "kb_buffer (keyboard_push c s) = (kb_buffer s)[kb_write_pos s := c]"
  "letztes_zeichen (keyboard_push c s) = letztes_zeichen s"
  "shift_gedrueckt (keyboard_push c s) = shift_gedrueckt s"
  "ctrl_gedrueckt (keyboard_push c s) = ctrl_gedrueckt s"
  "extended (keyboard_push c s) = extended s"
  by (simp_all add: keyboard_push_def)

text \<open>The position behind the last item is the write position; no other is.\<close>

lemma write_at_count:
  assumes "kb_ok s"
  shows "(kb_read_pos s + kb_count s) mod KB_BUFFER_SIZE = kb_write_pos s"
    and "i < kb_count s \<Longrightarrow> (kb_read_pos s + i) mod KB_BUFFER_SIZE \<noteq> kb_write_pos s"
proof -
  let ?r = "kb_read_pos s" and ?w = "kb_write_pos s"
  have b: "?r < KB_BUFFER_SIZE" "?w < KB_BUFFER_SIZE" using assms by (simp_all add: kb_ok_def)
  have c: "kb_count s = (if ?r \<le> ?w then ?w - ?r else ?w + KB_BUFFER_SIZE - ?r)"
  proof (cases "?r \<le> ?w")
    case True
    then have "?w + KB_BUFFER_SIZE - ?r = (?w - ?r) + KB_BUFFER_SIZE" by simp
    then show ?thesis using True b by (simp only: kb_count_def mod_add_self2) simp
  next
    case False
    then show ?thesis using b by (simp add: kb_count_def)
  qed
  show "(?r + kb_count s) mod KB_BUFFER_SIZE = ?w"
  proof (cases "?r \<le> ?w")
    case False
    then have "?r + kb_count s = ?w + KB_BUFFER_SIZE" using b c by simp
    then show ?thesis using b by (simp only: mod_add_self2) simp
  qed (use b c in simp)
  show "(?r + i) mod KB_BUFFER_SIZE \<noteq> ?w" if "i < kb_count s"
  proof (cases "?r + i < KB_BUFFER_SIZE")
    case True
    then show ?thesis using that b c by (auto split: if_splits)
  next
    case False
    then have "?r + i = (?r + i - KB_BUFFER_SIZE) + KB_BUFFER_SIZE" by simp
    then have "(?r + i) mod KB_BUFFER_SIZE = (?r + i - KB_BUFFER_SIZE) mod KB_BUFFER_SIZE"
      by (metis mod_add_self2)
    also have "\<dots> = ?r + i - KB_BUFFER_SIZE" using that b c by (auto split: if_splits)
    finally show ?thesis using that b c False by (auto split: if_splits)
  qed
qed

lemma kb_count_bound: "kb_count s < KB_BUFFER_SIZE"
  by (simp add: kb_count_def)

lemma push_count:
  assumes "kb_ok s"
  shows "kb_count (keyboard_push c s) = (kb_count s + 1) mod KB_BUFFER_SIZE"
proof -
  have "kb_read_pos s \<le> KB_BUFFER_SIZE" using assms by (simp add: kb_ok_def)
  then have "(kb_write_pos s + 1) mod KB_BUFFER_SIZE + KB_BUFFER_SIZE - kb_read_pos s
      = (kb_write_pos s + 1) mod KB_BUFFER_SIZE + (KB_BUFFER_SIZE - kb_read_pos s)"
    and "kb_write_pos s + KB_BUFFER_SIZE - kb_read_pos s
      = kb_write_pos s + (KB_BUFFER_SIZE - kb_read_pos s)" by simp_all
  then show ?thesis by (simp only: kb_count_def push_fields mod_add_left_eq) (simp add: mod_add_left_eq ac_simps)
qed

lemma push_ok: "kb_ok s \<Longrightarrow> kb_ok (keyboard_push c s)"
  by (simp add: kb_ok_def)

lemma push_items:
  assumes "kb_ok s" and "kb_count s < KB_BUFFER_SIZE - 1"
  shows "kb_items (keyboard_push c s) = kb_items s @ [c]"
proof -
  have n: "kb_count (keyboard_push c s) = Suc (kb_count s)"
    using assms(2) by (simp add: push_count [OF assms(1)])
  have w: "kb_write_pos s < length (kb_buffer s)" using assms(1) by (simp add: kb_ok_def)
  have old: "(kb_buffer s)[kb_write_pos s := c] ! ((kb_read_pos s + i) mod KB_BUFFER_SIZE)
      = kb_buffer s ! ((kb_read_pos s + i) mod KB_BUFFER_SIZE)" if "i < kb_count s" for i
    using write_at_count(2) [OF assms(1) that] by simp
  have new: "(kb_buffer s)[kb_write_pos s := c] ! ((kb_read_pos s + kb_count s) mod KB_BUFFER_SIZE) = c"
    using w by (simp only: write_at_count(1) [OF assms(1)] nth_list_update_eq)
  show ?thesis
    unfolding kb_items_def n push_fields by (simp only: upt_Suc_append le0 map_append list.map new)
      (simp add: old cong: map_cong)
qed

text \<open>With 1095 bytes waiting, one more leaves none.\<close>

lemma push_full:
  assumes "kb_ok s" and "kb_count s = KB_BUFFER_SIZE - 1"
  shows "kb_items (keyboard_push c s) = []"
  using assms(2) by (simp add: kb_items_def push_count [OF assms(1)])

lemma read_empty: "kb_ok s \<Longrightarrow> kb_items s = [] \<longleftrightarrow> kb_read_pos s = kb_write_pos s"
  using write_at_count(1) [of s] kb_count_bound [of s]
  by (auto simp: kb_items_def kb_ok_def) (simp add: kb_count_def)

lemma read_item:
  assumes "kb_ok s" and "kb_items s = x # xs"
  shows "\<exists>s'. keyboard_read s = Some (x, s') \<and> kb_ok s' \<and> kb_items s' = xs"
proof -
  let ?s = "s\<lparr>kb_read_pos := (kb_read_pos s + 1) mod KB_BUFFER_SIZE\<rparr>"
  have ne: "kb_read_pos s \<noteq> kb_write_pos s" using read_empty [OF assms(1)] assms(2) by simp
  have c: "kb_count s = Suc (length xs)" using assms(2) kb_items_length [of s] by simp
  have b: "kb_read_pos s < KB_BUFFER_SIZE" using assms(1) by (simp add: kb_ok_def)
  have up: "[0..<kb_count s] = 0 # map Suc [0..<length xs]"
    by (simp only: c upt_conv_Cons [of 0 "Suc _"] zero_less_Suc map_Suc_upt)
  have hd: "kb_buffer s ! kb_read_pos s = x" and
    tl: "xs = map (\<lambda>i. kb_buffer s ! ((kb_read_pos s + Suc i) mod KB_BUFFER_SIZE)) [0..<length xs]"
    using assms(2) b unfolding kb_items_def up by (auto simp: comp_def)
  have "kb_count ?s = length xs"
  proof (cases "kb_read_pos s + 1 = KB_BUFFER_SIZE")
    case True
    then have "kb_count s = (kb_write_pos s + 1) mod KB_BUFFER_SIZE" by (simp add: kb_count_def)
    moreover have "kb_write_pos s + 1 < KB_BUFFER_SIZE" using assms(1) ne True by (simp add: kb_ok_def)
    ultimately show ?thesis using c True by (simp add: kb_count_def)
  next
    case False
    then have r: "(kb_read_pos s + 1) mod KB_BUFFER_SIZE = kb_read_pos s + 1" using b by simp
    let ?m = "kb_write_pos s + KB_BUFFER_SIZE - (kb_read_pos s + 1)"
    have "kb_write_pos s + KB_BUFFER_SIZE - kb_read_pos s = Suc ?m" using b by simp
    then have "Suc ?m mod KB_BUFFER_SIZE = Suc (length xs)" using c by (simp only: kb_count_def)
    then have "?m mod KB_BUFFER_SIZE = length xs" by (simp add: mod_Suc split: if_splits)
    moreover have "kb_write_pos (s\<lparr>kb_read_pos := k\<rparr>) = kb_write_pos s"
      "kb_read_pos (s\<lparr>kb_read_pos := k\<rparr>) = k" for k by simp_all
    ultimately show ?thesis by (simp only: kb_count_def r)
  qed
  moreover have "(kb_read_pos s + Suc i) mod KB_BUFFER_SIZE
      = ((kb_read_pos s + 1) mod KB_BUFFER_SIZE + i) mod KB_BUFFER_SIZE" for i
    by (simp only: mod_add_left_eq) simp
  ultimately have "kb_items ?s = xs" using tl by (simp add: kb_items_def)
  moreover have "kb_ok ?s" using assms(1) by (simp add: kb_ok_def)
  ultimately show ?thesis using ne hd by (simp add: keyboard_read_def)
qed

interpretation kb: bounded_fifo keyboard_push keyboard_read kb_items kb_ok "KB_BUFFER_SIZE - 1"
proof unfold_locales
  show "kb_ok (keyboard_push x s) \<and> kb_items (keyboard_push x s) = kb_items s @ [x]"
    if "kb_ok s" "length (kb_items s) < KB_BUFFER_SIZE - 1" for s x
    using push_ok [OF that(1)] push_items [OF that(1)] that(2) by simp
  show "keyboard_read s = None" if "kb_ok s" "kb_items s = []" for s
    using that read_empty [OF that(1)] by (simp add: keyboard_read_def)
  show "\<exists>s'. keyboard_read s = Some (x, s') \<and> kb_ok s' \<and> kb_items s' = xs"
    if "kb_ok s" "kb_items s = x # xs" for s x xs by (rule read_item [OF that])
qed

section \<open>What the keys mean\<close>

text \<open>
  The keys without the buffer: whether shift, control and the prefix are pending, and what a scan
  code does to them and to the text.
\<close>

type_synonym modifiers = "bool \<times> bool \<times> bool"

definition mods :: "keyboard \<Rightarrow> modifiers" where
  "mods s = (shift_gedrueckt s \<noteq> 0, ctrl_gedrueckt s \<noteq> 0, extended s \<noteq> 0)"

definition arrows :: "(u8 \<times> u8 \<times> u8) list" where
  "arrows = [(0x48, KEY_UP, KEY_SHIFT_UP), (0x50, KEY_DOWN, KEY_SHIFT_DOWN),
     (0x4B, KEY_LEFT, KEY_SHIFT_LEFT), (0x4D, KEY_RIGHT, KEY_SHIFT_RIGHT)]"

definition ctrl_keys :: "(u8 \<times> u8) list" where
  "ctrl_keys = [(0x1F, KEY_CTRL_S), (0x2E, KEY_CTRL_C), (0x2F, KEY_CTRL_V), (0x2C, KEY_CTRL_Y),
     (0x15, KEY_CTRL_Z)]"

definition plain_key :: "bool \<Rightarrow> u8 \<Rightarrow> u8 list option" where
  "plain_key sh sc =
     (let table = (if sh then de_shift else de_normal)
      in if unat sc < 58 then Some (filter (\<lambda>c. c \<noteq> 0) [table ! unat sc]) else None)"

definition key_effect :: "u8 \<Rightarrow> modifiers \<Rightarrow> (modifiers \<times> u8 list) option" where
  "key_effect sc m =
     (let (sh, ct, ext) = m in
      if sc = 0xE0 then Some ((sh, ct, True), [])
      else if ext then
        Some ((sh, ct, False), case map_of arrows sc of None \<Rightarrow> []
          | Some (plain, shifted) \<Rightarrow> [if sh then shifted else plain])
      else if sc \<in> {0x2A, 0x36} then Some ((True, ct, ext), [])
      else if sc \<in> {0xAA, 0xB6} then Some ((False, ct, ext), [])
      else if sc = 0x1D then Some ((sh, True, ext), [])
      else if sc = 0x9D then Some ((sh, False, ext), [])
      else if sc \<ge> 0x80 then Some (m, [])
      else if sc = 0x01 then Some (m, [0x1B])
      else if sc = 0x0E then Some (m, [8])
      else if ct then Some (m, case map_of ctrl_keys sc of None \<Rightarrow> [] | Some c \<Rightarrow> [c])
      else map_option (Pair m) (plain_key sh sc))"

definition same_buffer :: "keyboard \<Rightarrow> keyboard \<Rightarrow> bool" where
  "same_buffer s t \<longleftrightarrow> kb_buffer s = kb_buffer t \<and> kb_read_pos s = kb_read_pos t \<and>
     kb_write_pos s = kb_write_pos t"

lemma same_buffer_refl [simp]: "same_buffer s s"
  by (simp add: same_buffer_def)

lemma same_buffer_push: "same_buffer s t \<Longrightarrow> same_buffer (keyboard_push c s) (keyboard_push c t)"
  by (simp add: same_buffer_def)

lemma same_buffer_read:
  assumes "same_buffer s t"
  shows "rel_option (rel_prod (=) same_buffer) (keyboard_read s) (keyboard_read t)"
  using assms by (simp add: keyboard_read_def same_buffer_def)

lemma same_buffer_items: "same_buffer s t \<Longrightarrow> kb_items s = kb_items t \<and> kb_ok s = kb_ok t"
  by (simp add: same_buffer_def kb_items_def kb_count_def kb_ok_def)

lemma mods_push [simp]: "mods (keyboard_push c s) = mods s"
  by (simp add: mods_def)

lemma table_lengths: "length de_normal = 58" "length de_shift = 58"
  by (simp_all add: de_normal_def de_shift_def ascii_def)

text \<open>The handler is the keys' meaning followed by a push of each byte.\<close>

lemma extended_key_effect:
  "mods (extended_key sc s) = (shift_gedrueckt s \<noteq> 0, ctrl_gedrueckt s \<noteq> 0, False) \<and>
   same_buffer (extended_key sc s) (fold keyboard_push (case map_of arrows sc of None \<Rightarrow> []
     | Some (plain, shifted) \<Rightarrow> [if shift_gedrueckt s \<noteq> 0 then shifted else plain]) s)"
proof -
  have "sc \<ge> 0x80 \<Longrightarrow> sc \<notin> {0x48, 0x50, 0x4B, 0x4D}" by auto
  then show ?thesis
    by (auto simp: extended_key_def arrows_def mods_def same_buffer_def keyboard_push_def Let_def)
qed

lemma ctrl_key_effect:
  "ctrl_key sc s = fold keyboard_push (case map_of ctrl_keys sc of None \<Rightarrow> [] | Some c \<Rightarrow> [c]) s"
  by (simp add: ctrl_key_def ctrl_keys_def)

lemma handle_scancode_effect:
  "case key_effect sc (mods s) of None \<Rightarrow> handle_scancode sc s = None
   | Some (m, cs) \<Rightarrow> \<exists>s'. handle_scancode sc s = Some s' \<and> mods s' = m \<and>
       same_buffer s' (fold keyboard_push cs s)"
proof (cases "sc = 0xE0 \<or> extended s \<noteq> 0")
  case True
  then show ?thesis using extended_key_effect [of sc s]
    by (auto simp: key_effect_def handle_scancode_def mods_def same_buffer_def)
next
  case False
  show ?thesis
  proof (cases "sc \<in> {0x2A, 0x36, 0xAA, 0xB6, 0x1D, 0x9D, 0x01, 0x0E} \<or> sc \<ge> 0x80")
    case True
    then show ?thesis using False
      by (auto simp: key_effect_def handle_scancode_def mods_def same_buffer_def)
  next
    case key: False
    show ?thesis
    proof (cases "ctrl_gedrueckt s \<noteq> 0")
      case True
      then show ?thesis using False key
        by (simp add: key_effect_def handle_scancode_def mods_def ctrl_key_effect)
          (simp add: mods_def [symmetric] ctrl_keys_def mods_push)
    next
      case plain: False
      let ?c = "(if shift_gedrueckt s \<noteq> 0 then de_shift else de_normal) ! unat sc"
      have h: "handle_scancode sc s = (if unat sc < 58
          then Some (if ?c \<noteq> 0 then keyboard_push ?c (s\<lparr>letztes_zeichen := ?c\<rparr>) else s) else None)"
        using False key plain
        by (simp add: handle_scancode_def table_char_def Let_def table_lengths)
      have k: "key_effect sc (mods s) = (if unat sc < 58
          then Some (mods s, if ?c \<noteq> 0 then [?c] else []) else None)"
        using False key plain by (simp add: key_effect_def mods_def plain_key_def Let_def)
      show ?thesis unfolding h k by (auto simp: mods_def same_buffer_def)
    qed
  qed
qed

section \<open>Interrupts and readers\<close>

text \<open>What happens: a scan code arrives, or a reader's waiting loop looks at the buffer once.\<close>

datatype kb_event = Scan u8 | Look

fun run_kb :: "kb_event list \<Rightarrow> keyboard \<Rightarrow> (u8 list \<times> keyboard) option" where
  "run_kb [] s = Some ([], s)"
| "run_kb (Scan sc # es) s =
     (case handle_scancode sc s of None \<Rightarrow> None | Some s \<Rightarrow> run_kb es s)"
| "run_kb (Look # es) s =
     (case keyboard_read s of None \<Rightarrow> run_kb es s
      | Some (c, s) \<Rightarrow> map_option (\<lambda>(cs, s). (c # cs, s)) (run_kb es s))"

text \<open>The same, seen from the queue: the bytes of each key, and where the reader looks.\<close>

fun queue_ops :: "kb_event list \<Rightarrow> modifiers \<Rightarrow> u8 fifo_op list option" where
  "queue_ops [] m = Some []"
| "queue_ops (Scan sc # es) m =
     (case key_effect sc m of None \<Rightarrow> None
      | Some (m, cs) \<Rightarrow> map_option ((@) (map Push cs)) (queue_ops es m))"
| "queue_ops (Look # es) m = map_option ((#) Pop) (queue_ops es m)"

lemma run_fifo_pushes:
  "run_fifo keyboard_push keyboard_read (map Push cs @ ops) s
     = run_fifo keyboard_push keyboard_read ops (fold keyboard_push cs s)"
  by (induction cs arbitrary: s) auto

lemma same_buffer_fold:
  "same_buffer s t \<Longrightarrow> same_buffer (fold keyboard_push cs s) (fold keyboard_push cs t)"
  by (induction cs arbitrary: s t) (auto simp: same_buffer_push)

lemma same_buffer_trans: "same_buffer s t \<Longrightarrow> same_buffer t u \<Longrightarrow> same_buffer s u"
  by (simp add: same_buffer_def)

lemma run_kb_fifo:
  assumes "queue_ops es (mods s) = Some ops" and "same_buffer s t"
  shows "\<exists>s'. run_kb es s = Some (fst (run_fifo keyboard_push keyboard_read ops t), s') \<and>
    same_buffer s' (snd (run_fifo keyboard_push keyboard_read ops t))"
  using assms
proof (induction es arbitrary: s t ops)
  case Nil
  then show ?case by simp
next
  case (Cons e es)
  show ?case
  proof (cases e)
    case (Scan sc)
    obtain m cs ops' where k: "key_effect sc (mods s) = Some (m, cs)" "queue_ops es m = Some ops'"
      "ops = map Push cs @ ops'" using Cons.prems(1) Scan by (auto split: option.splits)
    obtain s1 where s1: "handle_scancode sc s = Some s1" "mods s1 = m"
      "same_buffer s1 (fold keyboard_push cs s)"
      using handle_scancode_effect [of sc s] k(1) by auto
    have b: "same_buffer s1 (fold keyboard_push cs t)"
      by (rule same_buffer_trans [OF s1(3) same_buffer_fold [OF Cons.prems(2)]])
    from Cons.IH [of s1 ops', unfolded s1(2), OF k(2) b] s1(1) show ?thesis
      unfolding Scan k(3) run_fifo_pushes by simp
  next
    case Look
    obtain ops' where k: "queue_ops es (mods s) = Some ops'" "ops = Pop # ops'"
      using Cons.prems(1) Look by auto
    have r: "rel_option (rel_prod (=) same_buffer) (keyboard_read s) (keyboard_read t)"
      by (rule same_buffer_read [OF Cons.prems(2)])
    show ?thesis
    proof (cases "keyboard_read t")
      case None
      then have "keyboard_read s = None" using r by simp
      then show ?thesis using Cons.IH [OF k(1) Cons.prems(2)] None Look k(2) by simp
    next
      case (Some p)
      obtain c t1 where t1: "keyboard_read t = Some (c, t1)" using Some by (cases p) auto
      obtain s1 where s1: "keyboard_read s = Some (c, s1)" "same_buffer s1 t1"
        using r unfolding t1 by (cases "keyboard_read s") auto
      have "mods s1 = mods s" using s1(1) by (auto simp: keyboard_read_def mods_def split: if_splits)
      from Cons.IH [of s1, unfolded this, OF k(1) s1(2)] s1(1) t1 show ?thesis
        by (auto simp: Look k(2) split: prod.splits)
    qed
  qed
qed

text \<open>
  C19: however scan codes and the reader's looks interleave, as long as no key finds 1095 bytes
  waiting, the reader gets the bytes of the keys in the order they were pressed, none lost and
  none twice; the rest is waiting in the buffer.
\<close>

theorem keyboard_in_order:
  assumes "kb_ok s" and "queue_ops es (mods s) = Some ops"
    and "in_time (KB_BUFFER_SIZE - 1) (length (kb_items s)) ops"
  shows "\<exists>cs s'. run_kb es s = Some (cs, s') \<and> kb_ok s' \<and>
    cs @ kb_items s' = kb_items s @ pushed ops"
proof -
  obtain cs t where f: "run_fifo keyboard_push keyboard_read ops s = (cs, t)" by fastforce
  have t: "kb_ok t \<and> cs @ kb_items t = kb_items s @ pushed ops"
    by (rule kb.run_in_order [OF assms(1,3) f])
  from run_kb_fifo [OF assms(2) same_buffer_refl] obtain s' where
    "run_kb es s = Some (cs, s')" "same_buffer s' t" using f by auto
  with t show ?thesis using same_buffer_items by fastforce
qed

lemma kb_start_ok: "kb_ok kb_start" "kb_items kb_start = []" "mods kb_start = (False, False, False)"
  by (simp_all add: kb_ok_def kb_start_def kb_items_def kb_count_def mods_def)

text \<open>Shift down, the key of \<open>a\<close>, a look, shift up, the same key, two looks.\<close>

lemma keyboard_in_order_witness:
  "\<exists>cs s'. run_kb [Scan 0x2A, Scan 0x1E, Look, Scan 0xAA, Scan 0x1E] kb_start = Some (cs, s') \<and>
     cs @ kb_items s' = ascii ''Aa''"
proof -
  have q: "queue_ops [Scan 0x2A, Scan 0x1E, Look, Scan 0xAA, Scan 0x1E] (mods kb_start)
      = Some [Push 0x41, Pop, Push 0x61]" unfolding kb_start_ok(3) by code_simp
  from keyboard_in_order [OF kb_start_ok(1) q] kb_start_ok(2) show ?thesis
    by (auto simp: ascii_def)
qed

text \<open>
  a key pressed when 1095 bytes wait makes the buffer look empty: all 1096 bytes are lost,
  and the reader waits for the next key.
\<close>

theorem keyboard_overflow_loses_all:
  assumes "kb_ok s" and "length (kb_items s) = KB_BUFFER_SIZE - 1"
    and "key_effect sc (mods s) = Some (m, [c])"
  shows "\<exists>s'. handle_scancode sc s = Some s' \<and> kb_items s' = [] \<and> keyboard_read s' = None"
proof -
  obtain s' where s': "handle_scancode sc s = Some s'" "same_buffer s' (keyboard_push c s)"
    using handle_scancode_effect [of sc s] assms(3) by auto
  have "kb_items s' = []" "kb_ok s'"
    using push_full [OF assms(1)] push_ok [OF assms(1)] assms(2) same_buffer_items [OF s'(2)] by simp_all
  then show ?thesis using s'(1) kb.pop_none by blast
qed

definition full_kb :: keyboard where
  "full_kb = kb_start\<lparr>kb_read_pos := 1\<rparr>"

lemma keyboard_overflow_loses_all_witness:
  "\<exists>s'. handle_scancode 0x1E full_kb = Some s' \<and> keyboard_read s' = None"
proof -
  have "kb_ok full_kb" "length (kb_items full_kb) = KB_BUFFER_SIZE - 1"
    "mods full_kb = (False, False, False)"
    by (simp_all add: kb_ok_def full_kb_def kb_start_def kb_count_def mods_def)
  moreover have "key_effect 0x1E (False, False, False) = Some ((False, False, False), [0x61])"
    by code_simp
  ultimately show ?thesis using keyboard_overflow_loses_all [of full_kb "0x1E"] by auto
qed

text \<open>
  the handler reads past its tables exactly when, without control and without the prefix, a
  key from \<^verbatim>\<open>0x3A\<close> (caps lock) to \<^verbatim>\<open>0x7F\<close> is pressed: function keys, keypad and locks.
\<close>

theorem keyboard_table_overrun:
  "handle_scancode sc s = None \<longleftrightarrow>
     extended s = 0 \<and> ctrl_gedrueckt s = 0 \<and> 0x3A \<le> sc \<and> sc < 0x80"
proof -
  have "handle_scancode sc s = None \<longleftrightarrow> key_effect sc (mods s) = None"
    using handle_scancode_effect [of sc s] by (auto split: option.splits)
  also have "\<dots> \<longleftrightarrow> extended s = 0 \<and> ctrl_gedrueckt s = 0 \<and> 0x3A \<le> sc \<and> sc < 0x80"
    by (auto simp: key_effect_def mods_def plain_key_def Let_def word_le_nat_alt word_less_nat_alt)
  finally show ?thesis .
qed

section \<open>Typing\<close>

fun keys_effect :: "u8 list \<Rightarrow> modifiers \<Rightarrow> (modifiers \<times> u8 list) option" where
  "keys_effect [] m = Some (m, [])"
| "keys_effect (sc # scs) m =
     (case key_effect sc m of None \<Rightarrow> None
      | Some (m, cs) \<Rightarrow> map_option (apsnd ((@) cs)) (keys_effect scs m))"

lemma run_kb_scans:
  assumes "keys_effect scs (mods s) = Some (m, cs)"
  shows "\<exists>s'. run_kb (map Scan scs) s = Some ([], s') \<and> mods s' = m \<and>
    same_buffer s' (fold keyboard_push cs s)"
  using assms
proof (induction scs arbitrary: s cs)
  case Nil
  then show ?case by simp
next
  case (Cons sc scs)
  obtain m1 cs1 cs2 where k: "key_effect sc (mods s) = Some (m1, cs1)"
    "keys_effect scs m1 = Some (m, cs2)" "cs = cs1 @ cs2"
    using Cons.prems by (auto split: option.splits)
  obtain s1 where s1: "handle_scancode sc s = Some s1" "mods s1 = m1"
    "same_buffer s1 (fold keyboard_push cs1 s)"
    using handle_scancode_effect [of sc s] k(1) by auto
  from Cons.IH [of s1, unfolded s1(2), OF k(2)] obtain s2 where
    s2: "run_kb (map Scan scs) s1 = Some ([], s2)" "mods s2 = m"
      "same_buffer s2 (fold keyboard_push cs2 s1)" by blast
  have "same_buffer s2 (fold keyboard_push cs s)"
    using same_buffer_trans [OF s2(3) same_buffer_fold [OF s1(3)]] by (simp add: k(3))
  then show ?case using s1(1) s2 by simp
qed

text \<open>The keys that type a character: its key, with shift around it when the shifted table has it.\<close>

definition key_of :: "u8 list \<Rightarrow> u8 \<Rightarrow> u8 option" where
  "key_of table c = map_option of_nat (find (\<lambda>i. table ! i = c) [2..<58])"

definition keystrokes :: "u8 \<Rightarrow> u8 list option" where
  "keystrokes c =
     (if c = 0 then None
      else case key_of de_normal c of Some k \<Rightarrow> Some [k, k + 0x80]
      | None \<Rightarrow> (case key_of de_shift c of Some k \<Rightarrow> Some [0x2A, k, k + 0x80, 0xAA] | None \<Rightarrow> None))"

abbreviation no_mods :: modifiers where "no_mods \<equiv> (False, False, False)"

lemma table_codes:
  "de_normal = [0, 94, 49, 50, 51, 52, 53, 54, 55, 56, 57, 48, 45, 61, 0, 0, 113, 119, 101, 114,
     116, 122, 117, 105, 111, 112, 0, 43, 10, 0, 97, 115, 100, 102, 103, 104, 106, 107,
     108, 0, 0, 94, 0, 60, 121, 120, 99, 118, 98, 110, 109, 44, 46, 45, 0, 0, 0, 32]"
  "de_shift = [0, 0, 33, 34, 0, 36, 37, 38, 47, 40, 41, 61, 63, 96, 0, 0, 81, 87, 69, 82, 84, 90,
     85, 73, 79, 80, 0, 42, 10, 0, 65, 83, 68, 70, 71, 72, 74, 75, 76, 0, 0, 0, 0, 62,
     89, 88, 67, 86, 66, 78, 77, 59, 58, 95, 0, 0, 0, 32]"
  by (simp_all add: de_normal_def de_shift_def ascii_def)

lemma key_positions: "[2..<58] = [2, 3, 4, 5, 6, 7, 8, 9, 10, 11, 12, 13, 14, 15, 16, 17, 18, 19, 20, 21, 22, 23, 24,
     25, 26, 27, 28, 29, 30, 31, 32, 33, 34, 35, 36, 37, 38, 39, 40, 41, 42, 43, 44, 45,
     46, 47, 48, 49, 50, 51, 52, 53, 54, 55, 56, 57]"
  by (simp add: upt_conv_Cons)

lemma table_keys:
  "list_all (\<lambda>i. de_normal ! i = 0 \<or>
     keys_effect [of_nat i, of_nat i + 0x80] no_mods = Some (no_mods, [de_normal ! i])) [2..<58]"
  "list_all (\<lambda>i. de_shift ! i = 0 \<or>
     keys_effect [0x2A, of_nat i, of_nat i + 0x80, 0xAA] no_mods
       = Some (no_mods, [de_shift ! i])) [2..<58]"
  unfolding key_positions by (simp_all add: table_codes key_effect_def plain_key_def ex_bool_eq)

lemma key_ofD:
  assumes "key_of table c = Some k"
  shows "\<exists>i\<in>set [2..<58]. k = of_nat i \<and> table ! i = c"
proof -
  obtain i where i: "List.find (\<lambda>i. table ! i = c) [2..<58] = Some i" "k = of_nat i"
    using assms unfolding key_of_def map_option_eq_Some by blast
  from i(1) [unfolded find_Some_iff] obtain j where "j < length [2..<58]" "i = [2..<58] ! j"
    "table ! i = c" by blast
  then show ?thesis using i(2) nth_mem by blast
qed

lemma keystrokes_effect:
  assumes "keystrokes c = Some ks"
  shows "keys_effect ks no_mods = Some (no_mods, [c])"
proof (cases "key_of de_normal c")
  case (Some k)
  then have "c \<noteq> 0" "ks = [k, k + 0x80]" using assms by (auto simp: keystrokes_def split: if_splits)
  then show ?thesis using key_ofD [OF Some] table_keys(1) unfolding list_all_iff by metis
next
  case None
  then obtain k where k: "key_of de_shift c = Some k" "c \<noteq> 0" "ks = [0x2A, k, k + 0x80, 0xAA]"
    using assms by (auto simp: keystrokes_def split: if_splits option.splits)
  then show ?thesis using key_ofD [OF k(1)] table_keys(2) unfolding list_all_iff by metis
qed

lemma keys_effect_append:
  "keys_effect (xs @ ys) m = (case keys_effect xs m of None \<Rightarrow> None
     | Some (m, cs) \<Rightarrow> map_option (apsnd ((@) cs)) (keys_effect ys m))"
proof (induction xs arbitrary: m)
  case Nil
  then show ?case by (cases "keys_effect ys m") auto
next
  case (Cons x xs)
  have "apsnd ((@) as) (apsnd ((@) bs) p) = apsnd ((@) (as @ bs)) p" for as bs :: "u8 list" and p :: "modifiers \<times> u8 list"
    by (cases p) simp
  then show ?case using Cons.IH by (auto split: option.splits simp: option.map_comp comp_def)
qed

lemma typing_effect:
  "list_all2 (\<lambda>c ks. keystrokes c = Some ks) cs kss \<Longrightarrow>
     keys_effect (concat kss) no_mods = Some (no_mods, cs)"
  by (induction rule: list_all2_induct) (simp_all add: keys_effect_append keystrokes_effect)

text \<open>
  typing a text, each character by its key and with shift where it needs it, appends exactly
  that text to the buffer, provided there is room, and leaves no modifier pressed.
\<close>

theorem typed_text_buffered:
  assumes "kb_ok s" and "mods s = no_mods" and "length (kb_items s) + length cs < KB_BUFFER_SIZE"
    and "list_all2 (\<lambda>c ks. keystrokes c = Some ks) cs kss"
  shows "\<exists>s'. run_kb (map Scan (concat kss)) s = Some ([], s') \<and> kb_ok s' \<and> mods s' = no_mods \<and>
    kb_items s' = kb_items s @ cs"
proof -
  from run_kb_scans [of "concat kss" s, unfolded assms(2), OF typing_effect [OF assms(4)]]
  obtain s' where s': "run_kb (map Scan (concat kss)) s = Some ([], s')" "mods s' = no_mods"
    "same_buffer s' (fold keyboard_push cs s)" by blast
  have "length (kb_items s) + length cs \<le> KB_BUFFER_SIZE - 1" using assms(3) by simp
  from kb.push_many [OF assms(1) this] same_buffer_items [OF s'(3)] s' show ?thesis by auto
qed

lemma typed_text_buffered_witness:
  "\<exists>s'. run_kb (map Scan [0x2A, 0x26, 0xA6, 0xAA, 0x1F, 0x9F]) kb_start = Some ([], s') \<and>
     kb_items s' = ascii ''Ls''"
proof -
  have "keystrokes 0x4C = Some [0x2A, 0x26, 0xA6, 0xAA]" "keystrokes 0x73 = Some [0x1F, 0x9F]"
    by code_simp+
  then show ?thesis
    using typed_text_buffered [OF kb_start_ok(1), of "[0x4C, 0x73]" "[[0x2A, 0x26, 0xA6, 0xAA], [0x1F, 0x9F]]"]
      kb_start_ok by (auto simp: ascii_def)
qed

end
