(* ===== verification/Idt.thy ===== *)
theory Idt
  imports Scheduler Keyboard
begin

text \<open>
  Interrupts, \<^verbatim>\<open>src/src/kernel/idt.c\<close>: the gates, the set-up of the two interrupt controllers,
  and the handler every stub calls, which stops the machine at an exception and passes hardware
  interrupts to the scheduler and the keyboard driver.  The stubs of \<^verbatim>\<open>interrupts.asm\<close> are known
  by their addresses only.
\<close>

section \<open>The controllers\<close>

abbreviation PIC1_CMD :: u16 where "PIC1_CMD \<equiv> 0x20"
abbreviation PIC1_DATA :: u16 where "PIC1_DATA \<equiv> 0x21"
abbreviation PIC2_CMD :: u16 where "PIC2_CMD \<equiv> 0xA0"
abbreviation PIC2_DATA :: u16 where "PIC2_DATA \<equiv> 0xA1"
abbreviation PIC_EOI :: u8 where "PIC_EOI \<equiv> 0x20"

definition pic_remap :: "u8 \<Rightarrow> u8 \<Rightarrow> 'd ports \<Rightarrow> 'd \<Rightarrow> 'd" where
  "pic_remap master_offset slave_offset p d =
     (let (mask1, d) = inb p PIC1_DATA d;
          (mask2, d) = inb p PIC2_DATA d;
          d = outb p PIC1_CMD 0x11 d;
          d = outb p PIC2_CMD 0x11 d;
          d = outb p PIC1_DATA master_offset d;
          d = outb p PIC2_DATA slave_offset d;
          d = outb p PIC1_DATA 0x04 d;
          d = outb p PIC2_DATA 0x02 d;
          d = outb p PIC1_DATA 0x01 d;
          d = outb p PIC2_DATA 0x01 d;
          d = outb p PIC1_DATA mask1 d
      in outb p PIC2_DATA mask2 d)"

section \<open>The gates\<close>

record IDTEntry =
  handler_low :: u16
  selector :: u16
  IST :: u8
  gate_flags :: u8
  handler_mid :: u16
  handler_high :: u32
  gate_reserved :: u32

record IDTR =
  idtr_limit :: u16
  idtr_base :: u64

record idt_state =
  idt :: "IDTEntry list"
  idtr :: IDTR

definition idt_set_entry :: "u8 \<Rightarrow> u64 \<Rightarrow> u8 \<Rightarrow> idt_state \<Rightarrow> idt_state" where
  "idt_set_entry index handler_addr fl s =
     (let i = unat index;
          e = idt s ! i;
          e = e\<lparr>selector := 0x08, IST := 0, gate_reserved := 0, gate_flags := fl\<rparr>;
          e = e\<lparr>handler_low := ucast (handler_addr AND 0xFFFF)\<rparr>;
          e = e\<lparr>handler_mid := ucast (drop_bit 16 handler_addr AND 0xFFFF)\<rparr>;
          e = e\<lparr>handler_high := ucast (drop_bit 32 handler_addr)\<rparr>
      in s\<lparr>idt := (idt s)[i := e]\<rparr>)"

text \<open>\<^verbatim>\<open>isr_table\<close>: the stubs in order.  \<open>isr n\<close> is the address of \<^verbatim>\<open>isrn\<close>, \<open>idt_addr\<close> that of \<^verbatim>\<open>idt\<close>.\<close>

definition isr_table :: "(nat \<Rightarrow> u64) \<Rightarrow> u64 list" where
  "isr_table isr = map isr [0..<256]"

definition fill_idt :: "(nat \<Rightarrow> u64) \<Rightarrow> idt_state \<Rightarrow> idt_state" where
  "fill_idt isr s =
     fold (\<lambda>i. idt_set_entry (of_nat i) (isr_table isr ! i) 0x8E) [0..<256] s"

definition idt_init ::
  "(nat \<Rightarrow> u64) \<Rightarrow> u64 \<Rightarrow> 'd ports \<Rightarrow> 'd \<times> idt_state \<Rightarrow> 'd \<times> idt_state" where
  "idt_init isr idt_addr p = (\<lambda>(d, s).
     let d = pic_remap 32 40 p d;
         s = fill_idt isr s
     in (d, s\<lparr>idtr := \<lparr>idtr_limit = of_nat (256 * 16 - 1), idtr_base = idt_addr\<rparr>\<rparr>))"

section \<open>The screen\<close>

text \<open>The text buffer at \<^verbatim>\<open>0xB8000\<close>, by byte offset: a character and its colour for each cell.\<close>

type_synonym vga = "nat \<Rightarrow> u8"

definition put_cell :: "nat \<Rightarrow> u8 \<Rightarrow> u8 \<Rightarrow> vga \<Rightarrow> vga" where
  "put_cell i c color v = v(i := c, i + 1 := color)"

text \<open>\<^verbatim>\<open>for (i = 0; msg[i]; i++)\<close>: the cells from byte \<open>off\<close> on.\<close>

fun put_text :: "nat \<Rightarrow> u8 list \<Rightarrow> u8 \<Rightarrow> vga \<Rightarrow> vga" where
  "put_text off [] color v = v"
| "put_text off (c # ts) color v = put_text (off + 2) ts color (put_cell off c color v)"

definition hex_char :: "u64 \<Rightarrow> nat \<Rightarrow> u8" where
  "hex_char val d =
     (let nibble = ucast (drop_bit (d * 4) val AND 0xF) :: u8
      in if nibble < 10 then 0x30 + nibble else 0x41 + nibble - 10)"

text \<open>The loop \<^verbatim>\<open>for (d = digits - 1; d >= 0; d--)\<close> writes the digits from left to right.\<close>

definition vga_print_hex :: "nat \<Rightarrow> nat \<Rightarrow> u64 \<Rightarrow> nat \<Rightarrow> u8 \<Rightarrow> vga \<Rightarrow> vga" where
  "vga_print_hex off pos val digits color v =
     (let v = put_cell (off + (pos + 0) * 2) 0x30 color v;
          v = put_cell (off + (pos + 1) * 2) 0x78 color v
      in fold (\<lambda>d. put_cell (off + (pos + 2 + (digits - 1 - d)) * 2) (hex_char val d) color)
           (rev [0..<digits]) v)"

definition exception_names :: "string list" where
  "exception_names =
     [''Division by Zero'', ''Debug'', ''NMI'', ''Breakpoint'', ''Overflow'',
      ''Bound Range Exceeded'', ''Invalid Opcode'', ''Device Not Available'', ''Double Fault'',
      ''Coprocessor Seg Overrun'', ''Invalid TSS'', ''Segment Not Present'',
      ''Stack-Segment Fault'', ''General Protection'', ''Page Fault'', ''Reserved'',
      ''x87 FP Exception'', ''Alignment Check'', ''Machine Check'', ''SIMD FP Exception'',
      ''Virtualization'', ''Control Protection'', ''Reserved'', ''Reserved'', ''Reserved'',
      ''Reserved'', ''Reserved'', ''Reserved'', ''Hypervisor Injection'', ''VMM Communication'',
      ''Security Exception'', ''Reserved'']"

definition show_exception :: "InterruptFrame \<Rightarrow> vga \<Rightarrow> vga" where
  "show_exception frame v =
     (let v = put_text 0 (ascii ''!!! EXCEPTION !!!'') 0x4F v;
          v = vga_print_hex 160 0 (int_num frame) 2 0x4F v;
          v = put_text (160 + 6 * 2) (ascii (exception_names ! unat (int_num frame))) 0x4F v;
          v = put_text 320 (ascii ''RIP:'') 0x4F v;
          v = vga_print_hex 320 4 (rip frame) 16 0x4F v;
          v = put_text 480 (ascii ''ERR:'') 0x4F v
      in vga_print_hex 480 4 (error_code frame) 8 0x4F v)"

section \<open>The handler\<close>

text \<open>What the handler reaches: the processes, the keyboard, the clock, the screen, the devices.\<close>

record 'd machine =
  procs :: kern
  kbd :: keyboard
  system_ticks :: u64
  screen :: vga
  dev :: 'd

text \<open>An exception stops the machine; an interrupt returns with the frame \<^verbatim>\<open>iretq\<close> resumes.\<close>

datatype 'd outcome = Halted "'d machine" | Resumed InterruptFrame "'d machine"

definition send_eoi :: "InterruptFrame \<Rightarrow> 'd ports \<Rightarrow> 'd machine \<Rightarrow> 'd machine" where
  "send_eoi frame p m =
     (let m = (if int_num frame \<ge> 40 then m\<lparr>dev := outb p PIC2_CMD PIC_EOI (dev m)\<rparr> else m)
      in m\<lparr>dev := outb p PIC1_CMD PIC_EOI (dev m)\<rparr>)"

definition timer_irq ::
  "InterruptFrame \<Rightarrow> 'd machine \<Rightarrow> (InterruptFrame \<times> 'd machine) option" where
  "timer_irq frame m =
     (let m = m\<lparr>system_ticks := system_ticks m + 1\<rparr>
      in case schedule frame (procs m) of None \<Rightarrow> None
         | Some (k, frame) \<Rightarrow> Some (frame, m\<lparr>procs := k\<rparr>))"

definition keyboard_irq :: "'d ports \<Rightarrow> 'd machine \<Rightarrow> 'd machine option" where
  "keyboard_irq p m =
     (case keyboard_handler p (dev m) (kbd m) of None \<Rightarrow> None
      | Some (d, s) \<Rightarrow> Some (m\<lparr>dev := d, kbd := s\<rparr>))"

text \<open>
  \<^verbatim>\<open>schedule\<close> may replace the whole frame, its interrupt number included: the tests after it read
  the new one.  \<open>None\<close> stands for a scheduler that does not return or a keyboard table read out
  of bounds.
\<close>

definition exception_handler :: "'d ports \<Rightarrow> InterruptFrame \<Rightarrow> 'd machine \<Rightarrow> 'd outcome option" where
  "exception_handler p frame m =
     (if int_num frame < 32 then
        Some (Halted (m\<lparr>screen := show_exception frame (screen m)\<rparr>))
      else if int_num frame < 48 then
        (case (if int_num frame = 32 then timer_irq frame m else Some (frame, m)) of
           None \<Rightarrow> None
         | Some (frame, m) \<Rightarrow>
           (case (if int_num frame = 33 then keyboard_irq p m else Some m) of
              None \<Rightarrow> None
            | Some m \<Rightarrow> Some (Resumed frame (send_eoi frame p m))))
      else Some (Resumed frame m))"

section \<open>The controllers are set up\<close>

text \<open>
  An 8259A as its data sheet has it: an initialisation command clears the mask and starts a
  sequence of three data bytes (vector base, cascade, mode); other data bytes are the mask.
\<close>

record pic =
  init_step :: nat
  vector_base :: u8
  cascade :: u8
  icw4 :: u8
  imr :: u8

definition pic_command :: "u8 \<Rightarrow> pic \<Rightarrow> pic" where
  "pic_command v c = (if bit v 4 then c\<lparr>init_step := 1, imr := 0\<rparr> else c)"

definition pic_data :: "u8 \<Rightarrow> pic \<Rightarrow> pic" where
  "pic_data v c =
     (if init_step c = 1 then c\<lparr>vector_base := v AND 0xF8, init_step := 2\<rparr>
      else if init_step c = 2 then c\<lparr>cascade := v, init_step := 3\<rparr>
      else if init_step c = 3 then c\<lparr>icw4 := v, init_step := 0\<rparr>
      else c\<lparr>imr := v\<rparr>)"

lemma pic_initialised:
  "pic_data m (pic_data w (pic_data c (pic_data v (pic_command 0x11 a))))
     = \<lparr>init_step = 0, vector_base = v AND 0xF8, cascade = c, icw4 = w, imr = m\<rparr>"
  by (cases a) (simp add: pic_command_def pic_data_def)

text \<open>The ports reach two such controllers, \<open>st\<close>.\<close>

definition has_pics :: "'d ports \<Rightarrow> ('d \<Rightarrow> pic \<times> pic) \<Rightarrow> bool" where
  "has_pics p st \<longleftrightarrow>
     (\<forall>d v. st (outb p PIC1_CMD v d) = apfst (pic_command v) (st d) \<and>
        st (outb p PIC2_CMD v d) = apsnd (pic_command v) (st d) \<and>
        st (outb p PIC1_DATA v d) = apfst (pic_data v) (st d) \<and>
        st (outb p PIC2_DATA v d) = apsnd (pic_data v) (st d) \<and>
        inb p PIC1_DATA d = (imr (fst (st d)), snd (inb p PIC1_DATA d)) \<and>
        st (snd (inb p PIC1_DATA d)) = st d \<and>
        inb p PIC2_DATA d = (imr (snd (st d)), snd (inb p PIC2_DATA d)) \<and>
        st (snd (inb p PIC2_DATA d)) = st d)"

text \<open>
  \<^verbatim>\<open>pic_remap\<close> gives the two controllers the vector bases asked for, connects the second to
  line 2 of the first, selects the 8086 mode, ends both initialisations, and leaves the interrupt
  masks as they were, which the initialisation itself clears.
\<close>

theorem pic_remap_vectors:
  assumes "has_pics p st" and "init_step (fst (st d)) = 0" and "init_step (snd (st d)) = 0"
  shows "st (pic_remap master slave p d) =
    (\<lparr>init_step = 0, vector_base = master AND 0xF8, cascade = 4, icw4 = 1, imr = imr (fst (st d))\<rparr>,
     \<lparr>init_step = 0, vector_base = slave AND 0xF8, cascade = 2, icw4 = 1, imr = imr (snd (st d))\<rparr>)"
proof -
  obtain d1 where i1: "inb p PIC1_DATA d = (imr (fst (st d)), d1)" "st d1 = st d"
    using assms(1) unfolding has_pics_def by blast
  obtain d2 where i2: "inb p PIC2_DATA d1 = (imr (snd (st d)), d2)" "st d2 = st d"
    using assms(1) i1(2) unfolding has_pics_def by metis
  note w = assms(1) [unfolded has_pics_def]
  have wr: "st (outb p PIC1_CMD v e) = apfst (pic_command v) (st e)"
    "st (outb p PIC2_CMD v e) = apsnd (pic_command v) (st e)"
    "st (outb p PIC1_DATA v e) = apfst (pic_data v) (st e)"
    "st (outb p PIC2_DATA v e) = apsnd (pic_data v) (st e)" for v e using w by blast+
  obtain a b where ab: "st d = (a, b)" by fastforce
  then have z: "init_step a = 0" "init_step b = 0" using assms(2,3) by simp_all
  have "pic_remap master slave p d = outb p PIC2_DATA (imr (snd (st d))) (outb p PIC1_DATA
      (imr (fst (st d))) (outb p PIC2_DATA 0x01 (outb p PIC1_DATA 0x01 (outb p PIC2_DATA 0x02
      (outb p PIC1_DATA 0x04 (outb p PIC2_DATA slave (outb p PIC1_DATA master
      (outb p PIC2_CMD 0x11 (outb p PIC1_CMD 0x11 d2)))))))))"
    unfolding pic_remap_def by (simp only: i1(1) i2(1) Let_def prod.case)
  then have "st (pic_remap master slave p d) = apsnd (pic_data (imr (snd (st d))))
      (apfst (pic_data (imr (fst (st d)))) (apsnd (pic_data 0x01) (apfst (pic_data 0x01)
      (apsnd (pic_data 0x02) (apfst (pic_data 0x04) (apsnd (pic_data slave) (apfst (pic_data master)
      (apsnd (pic_command 0x11) (apfst (pic_command 0x11) (st d))))))))))"
    by (simp only: wr i2(2))
  also have "st d = (a, b)" by (rule ab)
  finally show ?thesis by (simp only: apfst_conv apsnd_conv fst_conv snd_conv pic_initialised ab)
qed

text \<open>Two controllers and nothing else: the second pair of ports is the slave's.\<close>

definition two_pics :: "(pic \<times> pic) ports" where
  "two_pics =
     \<lparr>in8 = (\<lambda>port d. (if port = PIC1_DATA then imr (fst d) else imr (snd d), d)),
      out8 = (\<lambda>port v. if port = PIC1_CMD then apfst (pic_command v)
         else if port = PIC2_CMD then apsnd (pic_command v)
         else if port = PIC1_DATA then apfst (pic_data v) else apsnd (pic_data v)),
      in16 = (\<lambda>port d. (0, d)), out16 = (\<lambda>port v d. d)\<rparr>"

lemma two_pics_ok: "has_pics two_pics id"
  by (simp add: has_pics_def two_pics_def inb_def outb_def)

definition reset_pic :: pic where
  "reset_pic = \<lparr>init_step = 0, vector_base = 8, cascade = 0, icw4 = 0, imr = 0xB8\<rparr>"

lemma pic_remap_vectors_witness:
  "pic_remap 32 40 two_pics (reset_pic, reset_pic) =
    (\<lparr>init_step = 0, vector_base = 32, cascade = 4, icw4 = 1, imr = 0xB8\<rparr>,
     \<lparr>init_step = 0, vector_base = 40, cascade = 2, icw4 = 1, imr = 0xB8\<rparr>)"
  using pic_remap_vectors [OF two_pics_ok, of "(reset_pic, reset_pic)" 32 40]
  by (simp add: reset_pic_def)

section \<open>The gates are set up\<close>

text \<open>The address a gate jumps to.\<close>

definition gate_addr :: "IDTEntry \<Rightarrow> u64" where
  "gate_addr e = ucast (handler_low e) OR push_bit 16 (ucast (handler_mid e))
     OR push_bit 32 (ucast (handler_high e))"

definition kernel_gate :: "u64 \<Rightarrow> u8 \<Rightarrow> IDTEntry \<Rightarrow> bool" where
  "kernel_gate a fl e \<longleftrightarrow> gate_addr e = a \<and> selector e = 0x08 \<and> IST e = 0 \<and> gate_flags e = fl \<and>
     gate_reserved e = 0"

lemma split_address:
  fixes a :: u64
  shows "ucast (ucast (a AND 0xFFFF) :: u16) OR
    push_bit 16 (ucast (ucast (drop_bit 16 a AND 0xFFFF) :: u16)) OR
    push_bit 32 (ucast (ucast (drop_bit 32 a) :: u32)) = a"
proof -
  have m: "(0xFFFF :: u64) = mask 16" by (simp add: mask_eq_exp_minus_1)
  have "ucast (ucast (a AND 0xFFFF) :: u16) OR
      push_bit 16 (ucast (ucast (drop_bit 16 a AND 0xFFFF) :: u16)) = take_bit 32 a"
    unfolding m by (rule bit_word_eqI) (auto simp: bit_simps not_less)
  moreover have "take_bit 32 a OR push_bit 32 (ucast (ucast (drop_bit 32 a) :: u32)) = a"
    by (rule bit_word_eqI) (auto simp: bit_simps not_less)
  ultimately show ?thesis by (simp add: or.assoc [symmetric])
qed

lemma idt_set_entry_gate:
  assumes "unat i < length (idt s)"
  shows "kernel_gate a fl (idt (idt_set_entry i a fl s) ! unat i) \<and>
    length (idt (idt_set_entry i a fl s)) = length (idt s) \<and>
    (\<forall>j. j \<noteq> unat i \<longrightarrow> idt (idt_set_entry i a fl s) ! j = idt s ! j)"
  using assms by (simp add: idt_set_entry_def Let_def kernel_gate_def gate_addr_def split_address)

lemma fill_idt_gates:
  assumes "length (idt s) = 256" and "n \<le> 256"
  shows "let t = fold (\<lambda>i. idt_set_entry (of_nat i) (isr_table isr ! i) 0x8E) [0..<n] s
    in length (idt t) = 256 \<and> (\<forall>i<n. kernel_gate (isr i) 0x8E (idt t ! i))"
  using assms(2)
proof (induction n)
  case 0
  then show ?case using assms(1) by simp
next
  case (Suc n)
  let ?t = "fold (\<lambda>i. idt_set_entry (of_nat i) (isr_table isr ! i) 0x8E) [0..<n] s"
  have t: "length (idt ?t) = 256" "\<forall>i<n. kernel_gate (isr i) 0x8E (idt ?t ! i)"
    using Suc by (simp_all add: Let_def)
  have n: "unat (of_nat n :: u8) = n" "isr_table isr ! n = isr n"
    using Suc.prems by (simp_all add: unat_of_nat_fits isr_table_def)
  then have "unat (of_nat n :: u8) < length (idt ?t)" using t(1) Suc.prems by simp
  from idt_set_entry_gate [OF this, of "isr n" "0x8E"] t show ?case
    by (simp add: Let_def n less_Suc_eq)
qed

text \<open>
  after \<^verbatim>\<open>idt_init\<close> every one of the 256 gates jumps to the stub of its own number, its
  address put together from three fields, is an interrupt gate of the kernel's code segment, and
  the limit loaded into the processor covers exactly the table.
\<close>

theorem idt_init_gates:
  assumes "length (idt s) = 256" and "i < 256"
  shows "let (d', s') = idt_init isr idt_addr p (d, s)
    in kernel_gate (isr i) 0x8E (idt s' ! i) \<and> length (idt s') = 256 \<and>
       unat (idtr_limit (idtr s')) + 1 = length (idt s') * 16 \<and>
       idtr_base (idtr s') = idt_addr \<and> d' = pic_remap 32 40 p d"
  using fill_idt_gates [OF assms(1) order_refl, of isr] assms(2)
  by (simp add: idt_init_def Let_def fill_idt_def)

definition blank_idt :: idt_state where
  "blank_idt = \<lparr>idt = replicate 256 \<lparr>handler_low = 0, selector = 0, IST = 0, gate_flags = 0,
     handler_mid = 0, handler_high = 0, gate_reserved = 0\<rparr>, idtr = \<lparr>idtr_limit = 0, idtr_base = 0\<rparr>\<rparr>"

lemma idt_init_gates_witness:
  "gate_addr (idt (snd (idt_init (\<lambda>n. 0x112345678 + of_nat n) 0 two_pics
     ((reset_pic, reset_pic), blank_idt))) ! 33) = 0x112345699"
proof -
  have "length (idt blank_idt) = 256" by (simp add: blank_idt_def)
  from idt_init_gates [OF this, of 33 "\<lambda>n. 0x112345678 + of_nat n" 0 two_pics "(reset_pic, reset_pic)"]
  show ?thesis by (simp add: kernel_gate_def split: prod.splits)
qed

section \<open>What an exception shows\<close>

text \<open>The characters of \<open>n\<close> cells from byte \<open>off\<close> on, and the number hexadecimal digits denote.\<close>

definition read_cells :: "nat \<Rightarrow> nat \<Rightarrow> vga \<Rightarrow> u8 list" where
  "read_cells off n v = map (\<lambda>i. v (off + 2 * i)) [0..<n]"

definition digit_value :: "u8 \<Rightarrow> nat" where
  "digit_value c = (if c < 0x41 then unat c - 0x30 else unat c - 0x37)"

definition hex_value :: "u8 list \<Rightarrow> nat" where
  "hex_value ts = foldl (\<lambda>n c. 16 * n + digit_value c) 0 ts"

lemma put_text_off: "i < off \<or> off + 2 * length ts \<le> i \<Longrightarrow> put_text off ts color v i = v i"
  by (induction off ts color v rule: put_text.induct) (auto simp: put_cell_def)

lemma put_text_char: "i < length ts \<Longrightarrow> put_text off ts color v (off + 2 * i) = ts ! i"
proof (induction off ts color v arbitrary: i rule: put_text.induct)
  case 1
  then show ?case by simp
next
  case (2 off c ts color v)
  show ?case
  proof (cases i)
    case 0
    then show ?thesis by (simp add: put_text_off put_cell_def)
  next
    case (Suc j)
    then show ?thesis using 2 by simp
  qed
qed

lemma read_put_text: "n = length ts \<Longrightarrow> read_cells off n (put_text off ts color v) = ts"
  by (rule nth_equalityI) (simp_all add: read_cells_def put_text_char)

lemma read_cells_off:
  assumes "off + 2 * n \<le> off' \<or> off' + 2 * length ts \<le> off"
  shows "read_cells off n (put_text off' ts color v) = read_cells off n v"
  using assms by (auto simp: read_cells_def put_text_off)

lemma put_text_append:
  "put_text off (hs @ ts) color v = put_text (off + 2 * length hs) ts color (put_text off hs color v)"
  by (induction off hs color v rule: put_text.induct) (simp_all add: ac_simps)

lemma hex_digits_text:
  "k \<le> digits \<Longrightarrow>
     fold (\<lambda>d. put_cell (b + (digits - 1 - d) * 2) (g d) color) (rev [0..<k]) v
       = put_text (b + (digits - k) * 2) (map g (rev [0..<k])) color v"
proof (induction k arbitrary: v)
  case 0
  then show ?case by simp
next
  case (Suc k)
  have "b + (digits - k) * 2 = b + (digits - Suc k) * 2 + 2" "digits - 1 - k = digits - Suc k"
    using Suc.prems by simp_all
  then show ?case using Suc.IH [of "put_cell (b + (digits - Suc k) * 2) (g k) color v"] Suc.prems
    by simp
qed

definition hex_text :: "u64 \<Rightarrow> nat \<Rightarrow> u8 list" where
  "hex_text val digits = [0x30, 0x78] @ map (hex_char val) (rev [0..<digits])"

lemma vga_print_hex_text:
  "vga_print_hex off pos val digits color v = put_text (off + pos * 2) (hex_text val digits) color v"
proof -
  have i: "off + (pos + 2 + (digits - 1 - d)) * 2 = off + pos * 2 + 4 + (digits - 1 - d) * 2" for d
    by simp
  have "off + pos * 2 + 4 + (digits - digits) * 2 = off + pos * 2 + 4"
    "off + (pos + 0) * 2 = off + pos * 2" "off + (pos + 1) * 2 = off + pos * 2 + 2"
    "off + pos * 2 + 2 + 2 = off + pos * 2 + 4" by simp_all
  then show ?thesis
    using hex_digits_text [of digits digits "off + pos * 2 + 4" "hex_char val" color]
    unfolding vga_print_hex_def hex_text_def Let_def i append_Cons append_Nil put_text.simps
    by (simp only: order_refl)
qed

lemma hex_text_length [simp]: "length (hex_text val digits) = digits + 2"
  by (simp add: hex_text_def)

lemma digit_hex_char: "digit_value (hex_char val d) = unat val div 16 ^ d mod 16"
proof -
  let ?n = "ucast (drop_bit (d * 4) val AND 0xF) :: u8"
  have "drop_bit (d * 4) val AND 0xF = take_bit 4 (drop_bit (d * 4) val)"
    by (simp add: take_bit_eq_mask mask_eq_exp_minus_1)
  then have "unat ?n = unat (take_bit 4 (drop_bit (d * 4) val))"
    by (simp add: unsigned_ucast_eq take_bit_take_bit unsigned_take_bit_eq)
  moreover have v: "unat val mod 18446744073709551616 = unat val"
    using unsigned_less [of val, where 'a = nat] by simp
  have "unat (take_bit 4 (drop_bit (d * 4) val)) = unat val div 16 ^ d mod 16"
    by (simp only: unsigned_take_bit_eq unsigned_drop_bit_eq)
      (simp add: take_bit_eq_mod drop_bit_eq_div power_mult mult.commute [of d 4] v)
  ultimately have n: "unat ?n = unat val div 16 ^ d mod 16" by simp
  then have "unat ?n < 16" by simp
  then have "unat ?n \<in> set [0..<16]" by simp
  moreover have "list_all (\<lambda>x. let nb = of_nat x :: u8
      in digit_value (if nb < 10 then 0x30 + nb else 0x41 + nb - 10) = x) [0..<16]" by code_simp
  ultimately have "let nb = of_nat (unat ?n) :: u8
      in digit_value (if nb < 10 then 0x30 + nb else 0x41 + nb - 10) = unat ?n"
    unfolding list_all_iff by blast
  then show ?thesis unfolding n [symmetric] by (simp add: hex_char_def Let_def)
qed

lemma hex_value_digits: "hex_value (map (hex_char val) (rev [0..<n])) = unat val mod 16 ^ n"
proof -
  have "foldl (\<lambda>n c. 16 * n + digit_value c) a (map (hex_char val) (rev [0..<n]))
      = 16 ^ n * a + unat val mod 16 ^ n" for a
  proof (induction n arbitrary: a)
    case 0
    then show ?case by simp
  next
    case (Suc n)
    have "unat val mod 16 ^ Suc n = 16 ^ n * (unat val div 16 ^ n mod 16) + unat val mod 16 ^ n"
      using mod_mult2_eq [of "unat val" "16 ^ n" 16] by (simp add: mult.commute)
    then show ?case using Suc by (simp add: digit_hex_char algebra_simps)
  qed
  then show ?thesis by (simp add: hex_value_def)
qed

lemma exception_name_length: "n < 32 \<Longrightarrow> length (exception_names ! n) \<le> 23"
proof -
  assume "n < 32"
  then have "exception_names ! n \<in> set exception_names"
    by (intro nth_mem) (simp add: exception_names_def)
  moreover have "list_all (\<lambda>s. length s \<le> 23) exception_names" by code_simp
  ultimately show "length (exception_names ! n) \<le> 23" by (simp add: list_all_iff)
qed

text \<open>
  C36: an exception never returns to the interrupted code.  It leaves everything but the screen as
  it is; the screen names the exception, and its vector, the instruction pointer and the low
  half of the error code can be read back from the digits shown.
\<close>

theorem exception_reports_and_halts:
  assumes "int_num frame < 32"
  shows "\<exists>m'. exception_handler p frame m = Some (Halted m') \<and> m' = m\<lparr>screen := screen m'\<rparr> \<and>
    read_cells 0 17 (screen m') = ascii ''!!! EXCEPTION !!!'' \<and>
    hex_value (read_cells 164 2 (screen m')) = unat (int_num frame) \<and>
    (let name = exception_names ! unat (int_num frame)
     in read_cells 172 (length name) (screen m') = ascii name) \<and>
    hex_value (read_cells 332 16 (screen m')) = unat (rip frame) \<and>
    hex_value (read_cells 492 8 (screen m')) = unat (error_code frame) mod 2 ^ 32"
proof -
  have n: "unat (int_num frame) < 32" using assms by (simp add: word_less_nat_alt)
  let ?name = "ascii (exception_names ! unat (int_num frame))"
  have l: "length ?name \<le> 23" using exception_name_length [OF n] by (simp add: ascii_def)
  have banner: "length (ascii ''!!! EXCEPTION !!!'') = 17" "length (ascii ''RIP:'') = 4"
    "length (ascii ''ERR:'') = 4" by (simp_all add: ascii_def)
  have tl: "read_cells (off + 4) k (put_text off (hex_text val k) color v)
      = map (hex_char val) (rev [0..<k])" for off k val color v
  proof -
    have "put_text off (hex_text val k) color v
        = put_text (off + 4) (map (hex_char val) (rev [0..<k])) color (put_text off [0x30, 0x78] color v)"
      using put_text_append [of off "[0x30, 0x78]"] by (simp only: hex_text_def) simp
    then show ?thesis by (simp only:) (rule read_put_text, simp)
  qed
  let ?v = "show_exception frame (screen m)"
  note disp = show_exception_def Let_def vga_print_hex_text
  have "read_cells 0 17 ?v = ascii ''!!! EXCEPTION !!!''"
    using l by (simp add: disp read_cells_off banner read_put_text)
  moreover have "hex_value (read_cells 164 2 ?v) = unat (int_num frame)"
    using l n tl [of 160 2] by (simp add: disp read_cells_off banner hex_value_digits)
  moreover have "read_cells 172 (length ?name) ?v = ?name"
    using l by (simp add: disp read_cells_off banner read_put_text)
  moreover have "hex_value (read_cells 332 16 ?v) = unat (rip frame)"
    using tl [of 328 16] unsigned_less [of "rip frame", where 'a = nat]
    by (simp add: disp read_cells_off banner hex_value_digits)
  moreover have "hex_value (read_cells 492 8 ?v) = unat (error_code frame) mod 2 ^ 32"
    using tl [of 488 8] by (simp add: disp read_cells_off banner hex_value_digits)
  ultimately show ?thesis using assms
    by (intro exI [of _ "m\<lparr>screen := ?v\<rparr>"]) (simp add: exception_handler_def Let_def ascii_def)
qed

definition idle_machine :: "'d \<Rightarrow> 'd machine" where
  "idle_machine d = \<lparr>procs = ring_kern, kbd = kb_start, system_ticks = 0, screen = (\<lambda>_. 0x20), dev = d\<rparr>"

lemma exception_reports_and_halts_witness:
  "\<exists>m'. exception_handler two_pics (zero_frame\<lparr>int_num := 14, rip := 0x10ABCD\<rparr>) (idle_machine (reset_pic, reset_pic))
      = Some (Halted m') \<and> procs m' = ring_kern \<and>
    read_cells 172 10 (screen m') = ascii ''Page Fault'' \<and>
    hex_value (read_cells 332 16 (screen m')) = 0x10ABCD"
proof -
  let ?f = "zero_frame\<lparr>int_num := 14, rip := 0x10ABCD\<rparr>"
  have "exception_names ! 14 = ''Page Fault''" by (simp add: exception_names_def)
  then have nm: "exception_names ! unat (int_num ?f) = ''Page Fault''" by simp
  have "length ''Page Fault'' = 10" by simp
  note nm = nm this
  have "int_num ?f < 32" by simp
  from exception_reports_and_halts [OF this, of two_pics "idle_machine (reset_pic, reset_pic)", unfolded nm Let_def]
  obtain m' where m': "exception_handler two_pics ?f (idle_machine (reset_pic, reset_pic)) = Some (Halted m')"
    "m' = (idle_machine (reset_pic, reset_pic))\<lparr>screen := screen m'\<rparr>"
    "read_cells 172 10 (screen m') = ascii ''Page Fault''"
    "hex_value (read_cells 332 16 (screen m')) = 0x10ABCD" by auto
  have "procs m' = ring_kern" by (subst m'(2)) (simp add: idle_machine_def)
  with m' show ?thesis by blast
qed

end
