(* ===== verification/Machine.thy ===== *)
theory Machine
  imports Idt "HOL-Library.Multiset"
begin

text \<open>
  The kernel under hardware interrupts: what every interrupt keeps of the processes, the keyboard
  and the controllers, and so any number of them in any order.
\<close>

section \<open>What a timer tick keeps\<close>

text \<open>
  The frames the scheduler has saved come from timer interrupts or belong to processes that have
  not run yet: their vectors are 32 or 0.  The handler reads the vector after the switch.
\<close>

definition saved_ok :: "kern \<Rightarrow> bool" where
  "saved_ok k \<longleftrightarrow> (\<forall>q. int_num (regs (pcbs k q)) \<le> 32)"

definition ring_kept :: "kern \<Rightarrow> kern \<Rightarrow> bool" where
  "ring_kept k k' \<longleftrightarrow> head k' = head k \<and> kheap k' = kheap k \<and> kpmm k' = kpmm k \<and> same_zombies k k'"

lemma ring_kept_trans: "ring_kept k l \<Longrightarrow> ring_kept l m \<Longrightarrow> ring_kept k m"
  by (simp add: ring_kept_def same_zombies_def)

lemma ring_kept_refl [simp]: "ring_kept k k"
  by (simp add: ring_kept_def same_zombies_def)

lemma tick_down_fields [simp]:
  "p_state (tick_down p) = p_state p" "p_next (tick_down p) = p_next p" "regs (tick_down p) = regs p"
  by (simp_all add: tick_down_def)

lemma tick_down_slice: "unat (ticks_remaining (tick_down p)) = unat (ticks_remaining p) - 1"
  by (auto simp: tick_down_def unat_pred word_greater_zero_iff unat_gt_0 unat_eq_0)

text \<open>On a ring every tick returns, keeps the processes of the ring and bounds the slice.\<close>

lemma schedule_ring:
  assumes "run_queue k qs" and "length qs < 256" and "slice_of k \<le> 4"
  shows "\<exists>k' f' qs'. schedule f k = Some (k', f') \<and> run_queue k' qs' \<and> mset qs' = mset qs \<and>
    slice_of k' \<le> 4 \<and> ring_kept k k' \<and> (f' = f \<or> (\<exists>q. f' = regs (pcbs k q))) \<and>
    (\<forall>q. regs (pcbs k' q) = f \<or> regs (pcbs k' q) = regs (pcbs k q))"
proof (cases "\<forall>q\<in>set qs. p_state (pcbs k q) = ZOMBIE")
  case True
  obtain k' where k': "schedule f k = Some (k', f)" "run_queue k' qs" "current k' = current k"
    "head k' = head k" "kheap k' = kheap k" "kpmm k' = kpmm k"
    "pcbs k' = (pcbs k)(current k := tick_down (pcbs k (current k)))"
    using schedule_zombies [OF assms(1,2) True, of f] by blast
  have "slice_of k' \<le> 4" using assms(3) by (simp add: slice_of_def k'(3,7) tick_down_slice)
  moreover have "ring_kept k k'" by (simp add: ring_kept_def same_zombies_def k'(4-7))
  ultimately show ?thesis using k'(1,2) by (intro exI [of _ k'] exI [of _ f] exI [of _ qs]) (simp add: k'(7))
next
  case False
  then obtain a where a: "a \<in> set qs" "p_state (pcbs k a) \<noteq> ZOMBIE" by blast
  then obtain xs ys where "qs = xs @ a # ys" by (meson split_list)
  with first_alive [OF a(2), of xs ys] obtain zs n rest where s: "qs = zs @ n # rest"
    "\<forall>z\<in>set zs. p_state (pcbs k z) = ZOMBIE" "p_state (pcbs k n) \<noteq> ZOMBIE" by metis
  note nn = run_queue_nonnull [OF assms(1)]
  show ?thesis
  proof (cases "ticks_remaining (pcbs k (current k)) \<le> 1")
    case True
    obtain k' where k': "schedule f k = Some (k', if n = current k then f else regs (pcbs k n))"
      "run_queue k' (rest @ zs @ [n])" "head k' = head k" "kheap k' = kheap k" "kpmm k' = kpmm k"
      "pcbs k' = (let m = (pcbs k)(current k := preempted f (pcbs k (current k)))
        in m(n := dispatched (m n)))"
      using schedule_switches [OF assms(1,2) True s, of f] by blast
    have c': "current k' = n" using k'(2) by (simp add: run_queue_def)
    have "slice_of k' \<le> 4"
      using get_quantum_le by (simp add: slice_of_def c' k'(6) dispatched_def Let_def)
    moreover have "ring_kept k k'" using s(3)
      by (auto simp: ring_kept_def same_zombies_def k'(3-6) preempted_def dispatched_def Let_def)
    moreover have "\<forall>q. regs (pcbs k' q) = f \<or> regs (pcbs k' q) = regs (pcbs k q)"
      by (simp add: k'(6) Let_def preempted_def dispatched_def)
    moreover have "mset (rest @ zs @ [n]) = mset qs" by (simp add: s(1))
    ultimately show ?thesis using k'(1,2)
      by (intro exI [of _ k'] exI [of _ "if n = current k then f else regs (pcbs k n)"]
          exI [of _ "rest @ zs @ [n]"]) auto
  next
    case False
    then have gt: "1 < ticks_remaining (pcbs k (current k))" by simp
    let ?k' = "set_pcb (current k) tick_down k"
    have "run_queue ?k' qs" by (rule run_queue_same [OF assms(1)]) simp_all
    moreover have "slice_of ?k' \<le> 4" using assms(3) by (simp add: slice_of_def tick_down_slice)
    moreover have "ring_kept k ?k'" by (simp add: ring_kept_def same_zombies_def)
    moreover have "\<forall>q. regs (pcbs ?k' q) = regs (pcbs k q)" by simp
    ultimately show ?thesis
      using schedule_keeps_running [OF conjunct2 [OF nn] conjunct1 [OF nn] gt, of f] by blast
  qed
qed

section \<open>One interrupt\<close>

text \<open>\<open>qs\<close> are the processes of the ring, in the order they will run, the current one last.\<close>

definition machine_ok :: "'d machine \<Rightarrow> u64 list \<Rightarrow> bool" where
  "machine_ok m qs \<longleftrightarrow> run_queue (procs m) qs \<and> length qs < 256 \<and> slice_of (procs m) \<le> 4 \<and>
     saved_ok (procs m) \<and> kb_ok (kbd m)"

text \<open>The devices after the handler: the keyboard's port was read, then the interrupt ended.\<close>

definition end_of_irq :: "'d ports \<Rightarrow> u64 \<Rightarrow> 'd \<Rightarrow> 'd" where
  "end_of_irq p n d =
     (let d = (if n = 33 then snd (inb p KEYBOARD_PORT d) else d);
          d = (if n \<ge> 40 then outb p PIC2_CMD PIC_EOI d else d)
      in outb p PIC1_CMD PIC_EOI d)"

text \<open>The keyboard's byte is one the driver's tables can answer.\<close>

definition key_in_tables :: "'d ports \<Rightarrow> 'd machine \<Rightarrow> bool" where
  "key_in_tables p m \<longleftrightarrow> handle_scancode (fst (inb p KEYBOARD_PORT (dev m))) (kbd m) \<noteq> None"

lemma handle_scancode_ok:
  assumes "kb_ok s" and "handle_scancode sc s = Some s'"
  shows "kb_ok s'"
proof -
  obtain m ts where k: "key_effect sc (mods s) = Some (m, ts)" "same_buffer s' (fold keyboard_push ts s)"
    using handle_scancode_effect [of sc s] assms(2) by (auto split: option.splits)
  have "kb_ok (fold keyboard_push ts s)" using assms(1) by (induction ts arbitrary: s) (auto intro: push_ok)
  then show ?thesis using same_buffer_items [OF k(2)] by simp
qed

definition counted :: "u64 \<Rightarrow> 'd machine \<Rightarrow> 'd machine \<Rightarrow> bool" where
  "counted n m m' \<longleftrightarrow> system_ticks m' = system_ticks m + (if n = 32 then 1 else 0)"

lemma irq_step:
  assumes "machine_ok m qs" and "32 \<le> int_num f" and "int_num f < 48"
    and "int_num f \<noteq> 33 \<or> key_in_tables p m"
  shows "\<exists>f' m' qs'. exception_handler p f m = Some (Resumed f' m') \<and> machine_ok m' qs' \<and>
    mset qs' = mset qs \<and> dev m' = end_of_irq p (int_num f) (dev m) \<and>
    ring_kept (procs m) (procs m') \<and> counted (int_num f) m m' \<and> screen m' = screen m"
proof (cases "int_num f = 32")
  case True
  note m = assms(1) [unfolded machine_ok_def]
  obtain k' f' qs' where k': "schedule f (procs m) = Some (k', f')" "run_queue k' qs'"
    "mset qs' = mset qs" "slice_of k' \<le> 4" "ring_kept (procs m) k'"
    "f' = f \<or> (\<exists>q. f' = regs (pcbs (procs m) q))"
    "\<forall>q. regs (pcbs k' q) = f \<or> regs (pcbs k' q) = regs (pcbs (procs m) q)"
    using m schedule_ring [of "procs m" qs f] by blast
  have sv: "int_num (regs (pcbs (procs m) q)) \<le> 32" for q using m by (simp add: saved_ok_def)
  have "int_num f' \<le> 32" using k'(6) sv True by auto
  then have f': "int_num f' \<noteq> 33" "\<not> 40 \<le> int_num f'" by (auto simp: word_le_nat_alt)
  let ?m = "m\<lparr>system_ticks := system_ticks m + 1, procs := k'\<rparr>"
  have "exception_handler p f m = Some (Resumed f' (send_eoi f' p ?m))"
    using True k'(1) f'(1) by (simp add: exception_handler_def timer_irq_def Let_def)
  moreover have "int_num (regs (pcbs k' q)) \<le> 32" for q
    using k'(7) sv True by (metis order_refl)
  then have "machine_ok (send_eoi f' p ?m) qs'"
    using m k'(2-4) mset_eq_length [OF k'(3)] by (simp add: machine_ok_def saved_ok_def send_eoi_def)
  moreover have "dev (send_eoi f' p ?m) = end_of_irq p (int_num f) (dev m)"
    using f'(2) True by (simp add: send_eoi_def end_of_irq_def)
  ultimately show ?thesis using k'(3,5) True by (auto simp: send_eoi_def counted_def)
next
  case False
  define m1 where "m1 = (if int_num f = 33 then m\<lparr>dev := snd (inb p KEYBOARD_PORT (dev m)),
    kbd := the (handle_scancode (fst (inb p KEYBOARD_PORT (dev m))) (kbd m))\<rparr> else m)"
  have "(if int_num f = 33 then keyboard_irq p m else Some m) = Some m1"
    using assms(4) by (auto simp: m1_def keyboard_irq_def keyboard_handler_def key_in_tables_def
        split: prod.splits)
  then have "exception_handler p f m = Some (Resumed f (send_eoi f p m1))"
    using assms(2,3) False by (simp add: exception_handler_def)
  moreover have "kb_ok (kbd m1)"
    using assms(1,4) handle_scancode_ok [of "kbd m" "fst (inb p KEYBOARD_PORT (dev m))"]
    by (auto simp: m1_def machine_ok_def key_in_tables_def)
  then have "machine_ok (send_eoi f p m1) qs"
    using assms(1) by (auto simp: machine_ok_def send_eoi_def m1_def)
  moreover have "dev (send_eoi f p m1) = end_of_irq p (int_num f) (dev m)"
    by (simp add: send_eoi_def end_of_irq_def m1_def Let_def)
  ultimately show ?thesis using False
    by (intro exI [of _ f] exI [of _ "send_eoi f p m1"] exI [of _ qs])
      (simp add: send_eoi_def counted_def m1_def)
qed

text \<open>
  on a machine in order, every hardware interrupt (vectors 32 to 47) returns and leaves the
  machine in order: the scheduler always comes back, the ring keeps its processes, the clock
  counts exactly the timer's interrupts, the screen stays, and the controllers are told that the
  interrupt has ended, the second one exactly from vector 40 on, although the scheduler may have
  replaced the frame whose vector is tested.
\<close>

theorem hardware_interrupt_returns:
  assumes "machine_ok m qs" and "32 \<le> int_num f" and "int_num f < 48"
    and "int_num f \<noteq> 33 \<or> key_in_tables p m"
  shows "\<exists>f' m' qs'. exception_handler p f m = Some (Resumed f' m') \<and> machine_ok m' qs' \<and>
    mset qs' = mset qs \<and> dev m' = end_of_irq p (int_num f) (dev m) \<and>
    ring_kept (procs m) (procs m') \<and> counted (int_num f) m m' \<and> screen m' = screen m"
  by (rule irq_step [OF assms])

lemma idle_machine_ok: "machine_ok (idle_machine d) [0x1000, 0x2000, 0x3000]"
proof -
  have "saved_ok ring_kern"
    by (simp add: saved_ok_def ring_kern_def fresh_kern_def ring_pcb_def zero_pcb_def zero_frame_def)
  moreover have "slice_of ring_kern \<le> 4"
    by (simp add: slice_of_def ring_kern_def ring_pcb_def zero_pcb_def)
  ultimately show ?thesis using ring_kern_queue kb_start_ok(1)
    by (simp add: machine_ok_def idle_machine_def)
qed

lemma hardware_interrupt_returns_witness:
  "\<exists>f' m' qs'. exception_handler (logged two_pics) (zero_frame\<lparr>int_num := 41\<rparr>) (idle_machine ((reset_pic, reset_pic), []))
      = Some (Resumed f' m') \<and> machine_ok m' qs' \<and>
     snd (dev m') = [(0xA0, 0x20), (0x20, 0x20)]"
proof -
  have "32 \<le> int_num (zero_frame\<lparr>int_num := 41\<rparr>)" "int_num (zero_frame\<lparr>int_num := 41\<rparr>) < 48"
    "int_num (zero_frame\<lparr>int_num := 41\<rparr>) \<noteq> 33 \<or> key_in_tables (logged two_pics) (idle_machine ((reset_pic, reset_pic), []))"
    by simp_all
  from hardware_interrupt_returns [OF idle_machine_ok this]
  obtain f' m' qs' where "exception_handler (logged two_pics) (zero_frame\<lparr>int_num := 41\<rparr>) (idle_machine ((reset_pic, reset_pic), []))
      = Some (Resumed f' m')" "machine_ok m' qs'"
    "dev m' = end_of_irq (logged two_pics) 41 ((reset_pic, reset_pic), [])" by (auto simp: idle_machine_def)
  then show ?thesis by (auto simp: end_of_irq_def)
qed

section \<open>Any number of interrupts\<close>

text \<open>
  Interrupts arrive in any order; the code they interrupt leaves any frame, and the devices
  change as they like in between.
\<close>

inductive interrupted :: "'d ports \<Rightarrow> 'd machine \<Rightarrow> 'd machine \<Rightarrow> bool"
  for p :: "'d ports" and m :: "'d machine" where
  start: "interrupted p m m"
| irq: "interrupted p m m1 \<Longrightarrow> 32 \<le> int_num f \<Longrightarrow> int_num f < 48 \<Longrightarrow>
    exception_handler p f (m1\<lparr>dev := d\<rparr>) = Some (Resumed f' m2) \<Longrightarrow> interrupted p m m2"

lemma returned_key:
  assumes "exception_handler p f m = Some (Resumed f' m')"
  shows "int_num f \<noteq> 33 \<or> key_in_tables p m"
proof (rule ccontr)
  assume "\<not> (int_num f \<noteq> 33 \<or> key_in_tables p m)"
  then have "int_num f = 33" "keyboard_irq p m = None"
    by (auto simp: keyboard_irq_def keyboard_handler_def key_in_tables_def split: prod.splits)
  then show False using assms by (simp add: exception_handler_def)
qed

lemma machine_ok_dev [simp]: "machine_ok (m\<lparr>dev := d\<rparr>) qs = machine_ok m qs"
  by (simp add: machine_ok_def)

lemma interrupts_keep:
  assumes "interrupted p m m'" and "machine_ok m qs"
  shows "\<exists>qs'. machine_ok m' qs' \<and> mset qs' = mset qs \<and> ring_kept (procs m) (procs m') \<and>
    screen m' = screen m"
  using assms
proof (induction rule: interrupted.induct)
  case start
  then show ?case by auto
next
  case (irq m1 f d f' m2)
  then obtain qs1 where q: "machine_ok m1 qs1" "mset qs1 = mset qs" "ring_kept (procs m) (procs m1)"
    "screen m1 = screen m" by blast
  have "machine_ok (m1\<lparr>dev := d\<rparr>) qs1" using q(1) by simp
  from irq_step [OF this irq.hyps(2,3) returned_key [OF irq.hyps(4)]]
  obtain qs2 where "machine_ok m2 qs2" "mset qs2 = mset qs1" "ring_kept (procs m1) (procs m2)"
    "screen m2 = screen m1" using irq.hyps(4) by auto
  then show ?case using q ring_kept_trans [of "procs m" "procs m1" "procs m2"] by auto
qed

text \<open>
  C3: whatever hardware interrupts have come, in any number and order, the machine is in order:
  the ring holds the same processes with the same ones dead, every slice is at most four ticks,
  the keyboard's buffer is well formed, and memory in use and the screen are as at the start.
\<close>

theorem interrupts_keep_machine:
  assumes "interrupted p m m'" and "machine_ok m qs"
  shows "\<exists>qs'. machine_ok m' qs' \<and> mset qs' = mset qs \<and> ring_kept (procs m) (procs m') \<and>
    screen m' = screen m"
  by (rule interrupts_keep [OF assms])

lemma interrupts_keep_machine_witness:
  "\<exists>m' qs'. interrupted two_pics (idle_machine (reset_pic, reset_pic)) m' \<and> system_ticks m' = 1 \<and> machine_ok m' qs' \<and>
     mset qs' = mset [0x1000, 0x2000, 0x3000]"
proof -
  let ?f = "zero_frame\<lparr>int_num := 32\<rparr>"
  have v: "32 \<le> int_num ?f" "int_num ?f < 48" "int_num ?f \<noteq> 33 \<or> key_in_tables two_pics (idle_machine (reset_pic, reset_pic))"
    by simp_all
  from irq_step [OF idle_machine_ok v] obtain f' m' where m':
    "exception_handler two_pics ?f (idle_machine (reset_pic, reset_pic)) = Some (Resumed f' m')" "counted 32 (idle_machine (reset_pic, reset_pic)) m'"
    by auto
  then have "exception_handler two_pics ?f ((idle_machine (reset_pic, reset_pic))\<lparr>dev := (reset_pic, reset_pic)\<rparr>) = Some (Resumed f' m')"
    by (simp add: idle_machine_def)
  then have "interrupted two_pics (idle_machine (reset_pic, reset_pic)) m'" by (rule interrupted.irq [OF interrupted.start v(1,2)])
  from interrupts_keep_machine [OF this idle_machine_ok] this m'(2) show ?thesis
    by (auto simp: counted_def idle_machine_def)
qed

text \<open>Timer interrupts, one after the other, with the frames of the code they interrupt.\<close>

fun run_timer :: "'d ports \<Rightarrow> InterruptFrame list \<Rightarrow> 'd machine \<Rightarrow> 'd machine option" where
  "run_timer p [] m = Some m"
| "run_timer p (f # fs) m =
     (case exception_handler p (f\<lparr>int_num := 32\<rparr>) m of
        Some (Resumed f' m') \<Rightarrow> run_timer p fs m' | _ \<Rightarrow> None)"

lemma timer_is_schedule:
  assumes "exception_handler p (f\<lparr>int_num := 32\<rparr>) m = Some (Resumed f' m')" and "machine_ok m qs"
  shows "\<exists>f''. schedule (f\<lparr>int_num := 32\<rparr>) (procs m) = Some (procs m', f'')"
  using assms(1) by (auto simp: exception_handler_def timer_irq_def send_eoi_def keyboard_irq_def Let_def
      split: option.splits prod.splits if_splits)

lemma run_timer_ticks:
  assumes "machine_ok m qs" and "run_ticks (map (\<lambda>f. f\<lparr>int_num := 32\<rparr>) fs) (procs m) = Some k"
  shows "\<exists>m'. run_timer p fs m = Some m' \<and> procs m' = k"
  using assms
proof (induction fs arbitrary: m qs)
  case Nil
  then show ?case by simp
next
  case (Cons f fs)
  have v: "32 \<le> int_num (f\<lparr>int_num := 32\<rparr>)" "int_num (f\<lparr>int_num := 32\<rparr>) < 48"
    "int_num (f\<lparr>int_num := 32\<rparr>) \<noteq> 33 \<or> key_in_tables p m" by simp_all
  from irq_step [OF Cons.prems(1) v] obtain f' m' qs' where m':
    "exception_handler p (f\<lparr>int_num := 32\<rparr>) m = Some (Resumed f' m')" "machine_ok m' qs'" by blast
  from timer_is_schedule [OF m'(1) Cons.prems(1)] Cons.prems(2)
  have "run_ticks (map (\<lambda>f. f\<lparr>int_num := 32\<rparr>) fs) (procs m') = Some k" by auto
  from Cons.IH [OF m'(2) this] m'(1) show ?case by simp
qed

text \<open>
  through the interrupt handler too, a process that is not dead, \<open>i\<close>-th in the ring, has had
  the processor after at most \<open>4 (i + 1)\<close> timer interrupts.
\<close>

theorem timer_interrupts_serve_all:
  assumes "machine_ok m qs" and "i < length qs" and "p_state (pcbs (procs m) (qs ! i)) \<noteq> ZOMBIE"
    and "length fs = 4 * (i + 1)"
  shows "\<exists>j\<le>length fs. \<exists>m'. run_timer p (take j fs) m = Some m' \<and> current (procs m') = qs ! i"
proof -
  let ?fs = "map (\<lambda>f. f\<lparr>int_num := 32\<rparr>) fs"
  have qs: "qs = take i qs @ qs ! i # drop (Suc i) qs" using assms(2) by (rule id_take_nth_drop)
  have "length ?fs = 4 * (length (take i qs) + 1)" using assms(2,4) by simp
  from reaches_current [of "procs m" "take i qs" "qs ! i" "drop (Suc i) qs" ?fs, folded qs, OF _ _ _ assms(3) this]
  obtain j k where "j \<le> length fs" "run_ticks (take j ?fs) (procs m) = Some k" "current k = qs ! i"
    using assms(1) by (auto simp: machine_ok_def)
  with run_timer_ticks [OF assms(1), of "take j fs" k p] show ?thesis by (auto simp: take_map)
qed

lemma timer_interrupts_serve_all_witness:
  "\<exists>j\<le>4. \<exists>m'. run_timer two_pics (take j (replicate 4 zero_frame)) (idle_machine (reset_pic, reset_pic)) = Some m' \<and>
     current (procs m') = 0x1000"
proof -
  have "p_state (pcbs (procs (idle_machine (reset_pic, reset_pic))) ([0x1000, 0x2000, 0x3000] ! 0)) \<noteq> ZOMBIE"
    by (simp add: idle_machine_def ring_kern_def ring_pcb_def)
  from timer_interrupts_serve_all [OF idle_machine_ok _ this, of "replicate 4 zero_frame" two_pics]
  show ?thesis by simp
qed

end
