(* ===== verification/Gdt.thy ===== *)
theory Gdt
  imports Livly_Prelude
begin

text \<open>
  The segment descriptors of \<^verbatim>\<open>src/src/kernel/gdt.c\<close>.  The table is kept as the processor reads it,
  the bytes from \<^verbatim>\<open>&gdt[0]\<close> on; the array \<^verbatim>\<open>gdt\<close> is the first 64 of them.
\<close>

section \<open>State\<close>

record GDTEntry =
  limit_low :: u16
  base_low :: u16
  base_mid :: u8
  access :: u8
  granularity :: u8
  base_high :: u8

record TSSEntry =
  t_limit_low :: u16
  t_base_low :: u16
  t_base_mid :: u8
  t_access :: u8
  t_granularity :: u8
  t_base_high :: u8
  t_base_upper :: u32
  t_reserved :: u32

record TSS =
  tss_reserved0 :: u32
  rsp0 :: u64
  rsp1 :: u64
  rsp2 :: u64
  tss_reserved1 :: u64
  tss_ist :: "u64 list"
  tss_reserved2 :: u64
  tss_reserved3 :: u16
  iomap_base :: u16

record GDTR =
  gdtr_limit :: u16
  gdtr_base :: u64

text \<open>The processor's registers \<^verbatim>\<open>gdt_init\<close> loads are part of the state.\<close>

record gdt_state =
  gdt_mem :: "nat \<Rightarrow> u8"
  tss_entry :: TSSEntry
  tss :: TSS
  gdtr :: GDTR
  reg_cs :: u16
  reg_ds :: u16
  reg_es :: u16
  reg_ss :: u16
  reg_fs :: u16
  reg_gs :: u16
  reg_tr :: u16

abbreviation SIZEOF_GDT :: nat where "SIZEOF_GDT \<equiv> 64"
abbreviation SIZEOF_TSS :: u32 where "SIZEOF_TSS \<equiv> 104"

section \<open>Layout\<close>

definition le16 :: "u16 \<Rightarrow> u8 list" where
  "le16 w = [ucast w, ucast (drop_bit 8 w)]"

definition le32 :: "u32 \<Rightarrow> u8 list" where
  "le32 w = [ucast w, ucast (drop_bit 8 w), ucast (drop_bit 16 w), ucast (drop_bit 24 w)]"

definition gdt_entry_bytes :: "GDTEntry \<Rightarrow> u8 list" where
  "gdt_entry_bytes e = le16 (limit_low e) @ le16 (base_low e)
     @ [base_mid e, access e, granularity e, base_high e]"

definition tss_entry_bytes :: "TSSEntry \<Rightarrow> u8 list" where
  "tss_entry_bytes e = le16 (t_limit_low e) @ le16 (t_base_low e)
     @ [t_base_mid e, t_access e, t_granularity e, t_base_high e]
     @ le32 (t_base_upper e) @ le32 (t_reserved e)"

definition put_bytes :: "nat \<Rightarrow> u8 list \<Rightarrow> (nat \<Rightarrow> u8) \<Rightarrow> nat \<Rightarrow> u8" where
  "put_bytes n bs m = (\<lambda>i. if n \<le> i \<and> i < n + length bs then bs ! (i - n) else m i)"

section \<open>Operations\<close>

definition gdt_set_entry :: "nat \<Rightarrow> u8 \<Rightarrow> u8 \<Rightarrow> gdt_state \<Rightarrow> gdt_state" where
  "gdt_set_entry index acc gran s =
     (let e = \<lparr>limit_low = 0xFFFF, base_low = 0, base_mid = 0, access = acc, granularity = gran,
               base_high = 0\<rparr>
      in s\<lparr>gdt_mem := put_bytes (8 * index) (gdt_entry_bytes e) (gdt_mem s)\<rparr>)"

definition gdt_set_tss :: "u64 \<Rightarrow> u32 \<Rightarrow> gdt_state \<Rightarrow> gdt_state" where
  "gdt_set_tss base limit s =
     (let e = \<lparr>t_limit_low = ucast (limit AND 0xFFFF), t_base_low = ucast (base AND 0xFFFF),
               t_base_mid = ucast (drop_bit 16 base AND 0xFF), t_access = 0x89, t_granularity = 0,
               t_base_high = ucast (drop_bit 24 base AND 0xFF),
               t_base_upper = ucast (drop_bit 32 base), t_reserved = 0\<rparr>;
          s = s\<lparr>tss_entry := e\<rparr>
      in s\<lparr>gdt_mem := put_bytes (8 * 7) (tss_entry_bytes e) (gdt_mem s)\<rparr>)"

definition zero_tss :: TSS where
  "zero_tss = \<lparr>tss_reserved0 = 0, rsp0 = 0, rsp1 = 0, rsp2 = 0, tss_reserved1 = 0,
     tss_ist = replicate 7 0, tss_reserved2 = 0, tss_reserved3 = 0, iomap_base = 0\<rparr>"

text \<open>\<open>gdt_addr\<close> and \<open>tss_addr\<close> are the addresses of \<^verbatim>\<open>gdt\<close> and \<^verbatim>\<open>tss\<close>, fixed by the linker.\<close>

definition gdt_init :: "u64 \<Rightarrow> u64 \<Rightarrow> gdt_state \<Rightarrow> gdt_state" where
  "gdt_init gdt_addr tss_addr s =
     (let s = s\<lparr>gdt_mem := put_bytes 0 (replicate 8 0) (gdt_mem s)\<rparr>;
          s = gdt_set_entry 1 0x9A 0xA0 s;
          s = gdt_set_entry 2 0x92 0xA0 s;
          s = gdt_set_entry 3 0xBA 0xA0 s;
          s = gdt_set_entry 4 0xB2 0xA0 s;
          s = gdt_set_entry 5 0xFA 0xA0 s;
          s = gdt_set_entry 6 0xF2 0xA0 s;
          s = s\<lparr>tss := zero_tss\<lparr>iomap_base := ucast SIZEOF_TSS\<rparr>\<rparr>;
          s = gdt_set_tss tss_addr (SIZEOF_TSS - 1) s;
          s = s\<lparr>gdtr := \<lparr>gdtr_limit = 7 * 8 + 16 - 1, gdtr_base = gdt_addr\<rparr>\<rparr>;
          s = s\<lparr>reg_cs := 0x08\<rparr>;
          s = s\<lparr>reg_ds := 0x10, reg_es := 0x10, reg_ss := 0x10, reg_fs := 0, reg_gs := 0\<rparr>
      in s\<lparr>reg_tr := 0x38\<rparr>)"

definition tss_set_kernel_stack :: "u64 \<Rightarrow> gdt_state \<Rightarrow> gdt_state" where
  "tss_set_kernel_stack sp s = s\<lparr>tss := (tss s)\<lparr>rsp0 := sp\<rparr>\<rparr>"

section \<open>What the processor reads\<close>

text \<open>
  The descriptor a selector names, as the processor decodes it: present, privilege level, not a
  system descriptor, code, 64 bit; for a system descriptor its type and its 64-bit base.
\<close>

definition acc_byte :: "u16 \<Rightarrow> gdt_state \<Rightarrow> u8" where
  "acc_byte sel s = gdt_mem s (8 * (unat sel div 8) + 5)"

definition seg_present :: "u16 \<Rightarrow> gdt_state \<Rightarrow> bool" where
  "seg_present sel s \<longleftrightarrow> bit (acc_byte sel s) 7"

definition seg_dpl :: "u16 \<Rightarrow> gdt_state \<Rightarrow> nat" where
  "seg_dpl sel s = unat (drop_bit 5 (acc_byte sel s) AND 3)"

definition seg_user :: "u16 \<Rightarrow> gdt_state \<Rightarrow> bool" where
  "seg_user sel s \<longleftrightarrow> bit (acc_byte sel s) 4"

definition seg_code :: "u16 \<Rightarrow> gdt_state \<Rightarrow> bool" where
  "seg_code sel s \<longleftrightarrow> bit (acc_byte sel s) 3"

definition seg_long :: "u16 \<Rightarrow> gdt_state \<Rightarrow> bool" where
  "seg_long sel s \<longleftrightarrow> bit (gdt_mem s (8 * (unat sel div 8) + 6)) 5"

definition sys_base :: "u16 \<Rightarrow> gdt_state \<Rightarrow> u64" where
  "sys_base sel s =
     (let b = (\<lambda>k. ucast (gdt_mem s (8 * (unat sel div 8) + k)) :: u64)
      in b 2 OR push_bit 8 (b 3) OR push_bit 16 (b 4) OR push_bit 24 (b 7)
         OR push_bit 32 (b 8) OR push_bit 40 (b 9) OR push_bit 48 (b 10) OR push_bit 56 (b 11))"

definition sys_limit :: "u16 \<Rightarrow> gdt_state \<Rightarrow> nat" where
  "sys_limit sel s =
     (let b = (\<lambda>k. unat (gdt_mem s (8 * (unat sel div 8) + k)))
      in b 0 + 256 * b 1 + 65536 * (b 6 mod 16))"

lemma put_bytes_simps:
  "i < n \<Longrightarrow> put_bytes n bs m i = m i"
  "n + length bs \<le> i \<Longrightarrow> put_bytes n bs m i = m i"
  "n \<le> i \<Longrightarrow> i < n + length bs \<Longrightarrow> put_bytes n bs m i = bs ! (i - n)"
  by (simp_all add: put_bytes_def)

lemma bytes_lengths [simp]:
  "length (gdt_entry_bytes e) = 8" "length (tss_entry_bytes t) = 16"
  by (simp_all add: gdt_entry_bytes_def tss_entry_bytes_def le16_def le32_def)

definition gdt_layout :: "u64 \<Rightarrow> u8 list" where
  "gdt_layout a = [0, 0, 0, 0, 0, 0, 0, 0]
     @ concat (map (\<lambda>acc. [0xFF, 0xFF, 0, 0, 0, acc, 0xA0, 0]) [0x9A, 0x92, 0xBA, 0xB2, 0xFA, 0xF2])
     @ [103, 0, ucast a, ucast (drop_bit 8 a), ucast (drop_bit 16 a), 0x89, 0,
        ucast (drop_bit 24 a), ucast (drop_bit 32 a), ucast (drop_bit 40 a),
        ucast (drop_bit 48 a), ucast (drop_bit 56 a), 0, 0, 0, 0]"

lemma put_bytes_join:
  "put_bytes (n + length bs) cs (put_bytes n bs m) = put_bytes n (bs @ cs) m"
  by (auto simp: put_bytes_def nth_append fun_eq_iff)

lemma low_bytes:
  fixes a :: u64
  shows "ucast (ucast (a AND 0xFFFF) :: u16) = (ucast a :: u8)"
    "ucast (drop_bit 8 (ucast (a AND 0xFFFF) :: u16)) = (ucast (drop_bit 8 a) :: u8)"
    "ucast (drop_bit k a AND 0xFF) = (ucast (drop_bit k a) :: u8)"
    "ucast (ucast (drop_bit 32 a) :: u32) = (ucast (drop_bit 32 a) :: u8)"
    "ucast (drop_bit 8 (ucast (drop_bit 32 a) :: u32)) = (ucast (drop_bit 40 a) :: u8)"
    "ucast (drop_bit 16 (ucast (drop_bit 32 a) :: u32)) = (ucast (drop_bit 48 a) :: u8)"
    "ucast (drop_bit 24 (ucast (drop_bit 32 a) :: u32)) = (ucast (drop_bit 56 a) :: u8)"
proof -
  have m: "(0xFFFF :: u64) = mask 16" "(0xFF :: u64) = mask 8" by (simp_all add: mask_eq_exp_minus_1)
  show "ucast (ucast (a AND 0xFFFF) :: u16) = (ucast a :: u8)"
    "ucast (drop_bit 8 (ucast (a AND 0xFFFF) :: u16)) = (ucast (drop_bit 8 a) :: u8)"
    "ucast (drop_bit k a AND 0xFF) = (ucast (drop_bit k a) :: u8)"
    "ucast (ucast (drop_bit 32 a) :: u32) = (ucast (drop_bit 32 a) :: u8)"
    "ucast (drop_bit 8 (ucast (drop_bit 32 a) :: u32)) = (ucast (drop_bit 40 a) :: u8)"
    "ucast (drop_bit 16 (ucast (drop_bit 32 a) :: u32)) = (ucast (drop_bit 48 a) :: u8)"
    "ucast (drop_bit 24 (ucast (drop_bit 32 a) :: u32)) = (ucast (drop_bit 56 a) :: u8)"
    unfolding m by (rule bit_word_eqI; simp add: bit_simps ac_simps; arith?)+
qed

lemma put_bytes_next:
  "k = n + length bs \<Longrightarrow> put_bytes k cs (put_bytes n bs m) = put_bytes n (bs @ cs) m"
  by (simp add: put_bytes_join)

lemma z8: "replicate 8 0 = [0, 0, 0, 0, 0, 0, 0, 0 :: u8]"
  by (simp add: numeral_eq_Suc)

text \<open>The seven descriptors and the task descriptor, byte by byte.\<close>

lemma gdt_init_mem: "gdt_mem (gdt_init ga ta s) = put_bytes 0 (gdt_layout ta) (gdt_mem s)"
proof -
  have e: "gdt_entry_bytes \<lparr>limit_low = 0xFFFF, base_low = 0, base_mid = 0, access = acc,
      granularity = gran, base_high = 0\<rparr> = [0xFF, 0xFF, 0, 0, 0, acc, gran, 0]" for acc gran
    by (simp add: gdt_entry_bytes_def le16_def)
  show ?thesis
    by (simp add: z8 gdt_init_def gdt_set_entry_def gdt_set_tss_def Let_def e put_bytes_next
        tss_entry_bytes_def le16_def le32_def low_bytes gdt_layout_def)
qed

lemma gdt_layout_length: "length (gdt_layout a) = 72"
  by (simp add: gdt_layout_def)

lemma gdt_init_byte: "i < 72 \<Longrightarrow> gdt_mem (gdt_init ga ta s) i = gdt_layout ta ! i"
  by (simp add: gdt_init_mem put_bytes_simps gdt_layout_length)

lemma bytes_of_word:
  fixes a :: u64
  shows "ucast (ucast a :: u8) OR push_bit 8 (ucast (ucast (drop_bit 8 a) :: u8))
    OR push_bit 16 (ucast (ucast (drop_bit 16 a) :: u8)) OR push_bit 24 (ucast (ucast (drop_bit 24 a) :: u8))
    OR push_bit 32 (ucast (ucast (drop_bit 32 a) :: u8)) OR push_bit 40 (ucast (ucast (drop_bit 40 a) :: u8))
    OR push_bit 48 (ucast (ucast (drop_bit 48 a) :: u8)) OR push_bit 56 (ucast (ucast (drop_bit 56 a) :: u8))
    = a"
proof -
  have first: "ucast (ucast a :: u8) = take_bit 8 a" by (rule bit_word_eqI) (auto simp: bit_simps)
  have nxt: "take_bit n a OR push_bit n (ucast (ucast (drop_bit n a) :: u8)) = take_bit (n + 8) a" for n
    by (rule bit_word_eqI) (auto simp: bit_simps)
  have "take_bit 64 a = a" by (rule bit_word_eqI) (auto simp: bit_simps)
  then show ?thesis
    using nxt [of 8] nxt [of 16] nxt [of 24] nxt [of 32] nxt [of 40] nxt [of 48] nxt [of 56] first
    by (simp add: or.assoc [symmetric])
qed


lemma low_word:
  fixes a :: u64
  shows "ucast (ucast a :: u8) OR push_bit 8 (ucast (ucast (drop_bit 8 a) :: u8))
    OR push_bit 16 (ucast (ucast (drop_bit 16 a) :: u8)) OR push_bit 24 (ucast (ucast (drop_bit 24 a) :: u8))
    OR b = take_bit 32 a OR b"
proof -
  have nxt: "take_bit n a OR push_bit n (ucast (ucast (drop_bit n a) :: u8)) = take_bit (n + 8) a" for n
    by (rule bit_word_eqI) (auto simp: bit_simps)
  have "ucast (ucast a :: u8) = take_bit 8 a" by (rule bit_word_eqI) (auto simp: bit_simps)
  then show ?thesis using nxt [of 8] nxt [of 16] nxt [of 24] by (simp add: or.assoc [symmetric])
qed

text \<open>
  the task descriptor does not fit the array: its upper half is written to the eight bytes
  after \<^verbatim>\<open>gdt\<close>, within the limit given to the processor, and whatever else is stored there
  becomes bits 32 and up of the task segment's base.
\<close>

theorem gdt_array_too_short:
  "let g = gdt_init gdt_addr tss_addr s in
   map (gdt_mem g) [SIZEOF_GDT..<SIZEOF_GDT + 8] = le32 (ucast (drop_bit 32 tss_addr)) @ [0, 0, 0, 0] \<and>
   unat (gdtr_limit (gdtr g)) = SIZEOF_GDT + 7 \<and>
   sys_base 0x38 (g\<lparr>gdt_mem := put_bytes SIZEOF_GDT [b, 0, 0, 0, 0, 0, 0, 0] (gdt_mem g)\<rparr>)
     = take_bit 32 tss_addr OR push_bit 32 (ucast b)"
proof -
  let ?g = "gdt_init gdt_addr tss_addr s"
  have m: "map (gdt_mem ?g) [SIZEOF_GDT..<SIZEOF_GDT + 8]
      = le32 (ucast (drop_bit 32 tss_addr)) @ [0, 0, 0, 0]"
    by (simp add: upt_conv_Cons gdt_init_byte gdt_layout_def le32_def low_bytes)
  have l: "unat (gdtr_limit (gdtr ?g)) = SIZEOF_GDT + 7" by (simp add: gdt_init_def Let_def)
  have b: "sys_base 0x38 (?g\<lparr>gdt_mem := put_bytes SIZEOF_GDT [b, 0, 0, 0, 0, 0, 0, 0] (gdt_mem ?g)\<rparr>)
      = take_bit 32 tss_addr OR push_bit 32 (ucast b)"
    by (simp add: sys_base_def Let_def put_bytes_simps gdt_init_byte gdt_layout_def low_word)
  show ?thesis unfolding Let_def using m l b by blast
qed

text \<open>The stack for the switch to ring 0 is the task segment's only change after the set-up.\<close>

lemma tss_set_kernel_stack_only:
  "rsp0 (tss (tss_set_kernel_stack sp s)) = sp \<and> gdt_mem (tss_set_kernel_stack sp s) = gdt_mem s \<and>
   tss_set_kernel_stack sp' (tss_set_kernel_stack sp s) = tss_set_kernel_stack sp' s"
  by (simp add: tss_set_kernel_stack_def)

end
