(* ===== verification/Text_Screen.thy ===== *)
theory Text_Screen
  imports Livly_Prelude
begin

text \<open>
  What a screen of characters promises to the code that writes on it: where the cursor is after
  a character.  The VGA text mode (\<^verbatim>\<open>vga.c\<close>), the framebuffer console (\<^verbatim>\<open>fb_console.c\<close>) and
  the console that chooses between them (\<^verbatim>\<open>console.c\<close>) provide it; what printing a string does
  to the cursor is proved here once.
\<close>

section \<open>The cursor\<close>

text \<open>The position after a character on a screen of \<open>w\<close> columns and \<open>h\<close> rows.\<close>

definition advance :: "int \<Rightarrow> int \<Rightarrow> u8 \<Rightarrow> int \<times> int \<Rightarrow> int \<times> int" where
  "advance w h c = (\<lambda>(x, y).
     let (x, y) = (if c = 10 then (0, y + 1) else if x + 1 \<ge> w then (0, y + 1) else (x + 1, y))
     in (x, if y \<ge> h then h - 1 else y))"

lemma advance_in:
  assumes "0 \<le> x" and "x < w" and "0 \<le> y" and "y < h"
  shows "let (x', y') = advance w h c (x, y) in 0 \<le> x' \<and> x' < w \<and> 0 \<le> y' \<and> y' < h"
  using assms by (auto simp: advance_def Let_def)

text \<open>A text without line breaks that fits into the line moves the cursor to the right.\<close>

lemma fold_advance_line:
  "10 \<notin> set cs \<Longrightarrow> 0 \<le> y \<Longrightarrow> y < h \<Longrightarrow> x + int (length cs) < w \<Longrightarrow>
     fold (advance w h) cs (x, y) = (x + int (length cs), y)"
  by (induction cs arbitrary: x) (auto simp: advance_def)

section \<open>The interface\<close>

locale text_screen =
  fixes put :: "u8 \<Rightarrow> 's \<Rightarrow> 's"
    and pos :: "'s \<Rightarrow> int \<times> int"
    and width height :: "'s \<Rightarrow> int"
    and ok :: "'s \<Rightarrow> bool"
  assumes ok_pos: "ok s \<Longrightarrow> 0 \<le> fst (pos s) \<and> fst (pos s) < width s \<and>
      0 \<le> snd (pos s) \<and> snd (pos s) < height s"
    and put_ok: "ok s \<Longrightarrow> ok (put c s)"
    and put_size: "ok s \<Longrightarrow> width (put c s) = width s \<and> height (put c s) = height s"
    and put_pos: "ok s \<Longrightarrow> pos (put c s) = advance (width s) (height s) c (pos s)"
begin

lemma print_pos:
  "ok s \<Longrightarrow> ok (fold put cs s) \<and> width (fold put cs s) = width s \<and>
     height (fold put cs s) = height s \<and>
     pos (fold put cs s) = fold (advance (width s) (height s)) cs (pos s)"
  by (induction cs arbitrary: s) (simp_all add: put_ok put_size put_pos)

lemma print_line:
  assumes "ok s" and "10 \<notin> set cs" and "fst (pos s) + int (length cs) < width s"
  shows "pos (fold put cs s) = (fst (pos s) + int (length cs), snd (pos s))"
  using print_pos [OF assms(1), of cs] ok_pos [OF assms(1)] assms(2,3)
    fold_advance_line [of cs "snd (pos s)" "height s" "fst (pos s)" "width s"] by simp

end

end
