(* ===== verification/Vga.thy ===== *)
theory Vga
  imports Text_Screen
begin

text \<open>
  The VGA text mode, \<^verbatim>\<open>src/src/kernel/vga.c\<close>.  The cells at \<^verbatim>\<open>0xB8000\<close> are a map from indices;
  indices outside the 2000 cells are other memory, which \<^verbatim>\<open>vga_set_pos\<close> lets the code reach.  The
  bytes sent to the ports of the cursor are kept in order.
\<close>

section \<open>State\<close>

abbreviation VGA_HOEHE :: int where "VGA_HOEHE \<equiv> 25"
abbreviation VGA_BREITE :: int where "VGA_BREITE \<equiv> 80"

record vga_text =
  puffer :: "int \<Rightarrow> u16"
  vga_row :: int
  vga_col :: int
  farbe :: u8
  line_length :: "int \<Rightarrow> int"
  crtc :: "(u16 \<times> u8) list"

text \<open>
  \<^verbatim>\<open>c | (farbe << 8)\<close>, truncated to 16 bits: \<^verbatim>\<open>c\<close> is a signed \<^verbatim>\<open>char\<close>, so a character from
  \<^verbatim>\<open>0x80\<close> on sets all the bits of the colour.
\<close>

definition vga_cell :: "u8 \<Rightarrow> u8 \<Rightarrow> u16" where
  "vga_cell c color = ucast ((scast c :: u32) OR push_bit 8 (ucast color))"

section \<open>Operations\<close>

definition vga_set_cursor :: "int \<Rightarrow> int \<Rightarrow> vga_text \<Rightarrow> vga_text" where
  "vga_set_cursor x y s =
     (let pos = word_of_int (y * VGA_BREITE + x) :: u16
      in s\<lparr>crtc := crtc s @ [(0x3D4, 0x0F), (0x3D5, ucast (pos AND 0xFF)),
             (0x3D4, 0x0E), (0x3D5, ucast (drop_bit 8 pos))]\<rparr>)"

text \<open>The lines move up by one; the cells are copied in place, from the first to the last.\<close>

definition scroll_row :: "nat \<Rightarrow> (int \<Rightarrow> u16) \<Rightarrow> int \<Rightarrow> u16" where
  "scroll_row z = fold (\<lambda>k p. p(int z * VGA_BREITE + int k := p ((int z + 1) * VGA_BREITE + int k))) [0..<80]"

definition vga_scroll :: "vga_text \<Rightarrow> vga_text" where
  "vga_scroll s =
     (let (p, l) = fold (\<lambda>z (p, l). (scroll_row z p, l(int z := l (int z + 1)))) [0..<24]
            (puffer s, line_length s);
          p = fold (\<lambda>k p. p((VGA_HOEHE - 1) * VGA_BREITE + int k := vga_cell 0x20 (farbe s))) [0..<80] p
      in s\<lparr>puffer := p, line_length := l, vga_row := VGA_HOEHE - 1\<rparr>)"

definition vga_putchar :: "u8 \<Rightarrow> vga_text \<Rightarrow> vga_text" where
  "vga_putchar c s =
     (let s = (if c = 10
               then s\<lparr>line_length := (line_length s)(vga_row s := vga_col s), vga_col := 0,
                      vga_row := vga_row s + 1\<rparr>
               else
                let index = vga_row s * VGA_BREITE + vga_col s;
                    s = s\<lparr>puffer := (puffer s)(index := vga_cell c (farbe s)),
                          vga_col := vga_col s + 1\<rparr>
                in if vga_col s \<ge> VGA_BREITE then s\<lparr>vga_col := 0, vga_row := vga_row s + 1\<rparr> else s);
          s = (if vga_row s \<ge> VGA_HOEHE then vga_scroll s else s)
      in vga_set_cursor (vga_col s) (vga_row s) s)"

definition vga_backspace :: "vga_text \<Rightarrow> vga_text" where
  "vga_backspace s =
     (if vga_col s \<le> 0 \<and> vga_row s \<le> 0 then s
      else
       let s = (if vga_col s > 0 then s\<lparr>vga_col := vga_col s - 1\<rparr>
                else let s = s\<lparr>vga_row := vga_row s - 1\<rparr>
                     in s\<lparr>vga_col := line_length s (vga_row s)\<rparr>);
           s = s\<lparr>puffer := (puffer s)(vga_row s * VGA_BREITE + vga_col s := vga_cell 0x20 (farbe s))\<rparr>;
           s = s\<lparr>line_length := (line_length s)(vga_row s := vga_col s)\<rparr>
       in vga_set_cursor (vga_col s) (vga_row s) s)"

definition vga_write_at_color :: "int \<Rightarrow> int \<Rightarrow> u8 \<Rightarrow> u8 \<Rightarrow> vga_text \<Rightarrow> vga_text" where
  "vga_write_at_color x y c color s =
     (if x < 0 \<or> x \<ge> VGA_BREITE then s
      else if y < 0 \<or> y \<ge> VGA_HOEHE then s
      else s\<lparr>puffer := (puffer s)(y * VGA_BREITE + x := vga_cell c color)\<rparr>)"

definition vga_write_at :: "int \<Rightarrow> int \<Rightarrow> u8 \<Rightarrow> vga_text \<Rightarrow> vga_text" where
  "vga_write_at x y c s =
     (if x < 0 \<or> x \<ge> VGA_BREITE then s
      else if y < 0 \<or> y \<ge> VGA_HOEHE then s
      else s\<lparr>puffer := (puffer s)(y * VGA_BREITE + x := vga_cell c (farbe s))\<rparr>)"

definition vga_clear_line :: "int \<Rightarrow> vga_text \<Rightarrow> vga_text" where
  "vga_clear_line y = fold (\<lambda>k. vga_write_at (int k) y 0x20) [0..<80]"

definition vga_set_pos :: "int \<Rightarrow> int \<Rightarrow> vga_text \<Rightarrow> vga_text" where
  "vga_set_pos x y s =
     (let s = s\<lparr>vga_col := x, vga_row := y\<rparr> in vga_set_cursor (vga_col s) (vga_row s) s)"

fun vga_write_str_at :: "int \<Rightarrow> int \<Rightarrow> u8 list \<Rightarrow> vga_text \<Rightarrow> vga_text" where
  "vga_write_str_at x y [] s = s"
| "vga_write_str_at x y (c # cs) s =
     (if x < VGA_BREITE then vga_write_str_at (x + 1) y cs (vga_write_at x y c s) else s)"

definition vga_get_col :: "vga_text \<Rightarrow> int" where
  "vga_get_col s = vga_col s"

definition vga_get_row :: "vga_text \<Rightarrow> int" where
  "vga_get_row s = vga_row s"

definition vga_setfarbe :: "u8 \<Rightarrow> vga_text \<Rightarrow> vga_text" where
  "vga_setfarbe f s = s\<lparr>farbe := f\<rparr>"

definition vga_print :: "u8 list \<Rightarrow> vga_text \<Rightarrow> vga_text" where
  "vga_print = fold vga_putchar"

definition vga_clear :: "vga_text \<Rightarrow> vga_text" where
  "vga_clear s =
     (let s = s\<lparr>puffer := fold (\<lambda>k p. p(int k := vga_cell 0x20 (farbe s))) [0..<2000] (puffer s)\<rparr>
      in s\<lparr>vga_row := 0, vga_col := 0\<rparr>)"

section \<open>The screen as text\<close>

text \<open>The character and the colour of a cell.\<close>

definition cell_char :: "vga_text \<Rightarrow> int \<Rightarrow> int \<Rightarrow> u8" where
  "cell_char s x y = ucast (puffer s (y * VGA_BREITE + x))"

definition cell_color :: "vga_text \<Rightarrow> int \<Rightarrow> int \<Rightarrow> u8" where
  "cell_color s x y = ucast (drop_bit 8 (puffer s (y * VGA_BREITE + x)))"

lemma vga_cell_char [simp]: "ucast (vga_cell c color) = c"
  by (rule bit_word_eqI) (auto simp: vga_cell_def bit_simps)

lemma vga_cell_color:
  "ucast (drop_bit 8 (vga_cell c color)) = (if bit c 7 then 0xFF else color)"
proof -
  have m: "(0xFF :: u8) = mask 8" by (simp add: mask_eq_exp_minus_1)
  show ?thesis unfolding m by (rule bit_word_eqI) (auto simp: vga_cell_def bit_simps)
qed

lemma copy_cells:
  assumes "d \<ge> int n"
  shows "fold (\<lambda>k p. p(b + int k := p (b + d + int k))) [0..<n] p
    = (\<lambda>i. if b \<le> i \<and> i < b + int n then p (i + d) else p i)"
  using assms
proof (induction n)
  case 0
  then show ?case by (auto simp: fun_eq_iff)
next
  case (Suc n)
  then show ?case by (auto simp: fun_eq_iff ac_simps)
qed

lemma scroll_row_eq:
  "scroll_row z p = (\<lambda>i. if int z * 80 \<le> i \<and> i < int z * 80 + 80 then p (i + 80) else p i)"
proof -
  have "(int z + 1) * 80 + int k = int z * 80 + 80 + int k" for k by (simp add: algebra_simps)
  then show ?thesis using copy_cells [of 80 80 "int z * 80" p] by (simp add: scroll_row_def)
qed

lemma scroll_rows:
  "fold (\<lambda>z (p, l). (scroll_row z p, l(int z := l (int z + 1)))) [0..<n] (p, l)
    = (\<lambda>i. if 0 \<le> i \<and> i < int n * 80 then p (i + 80) else p i,
       \<lambda>y. if 0 \<le> y \<and> y < int n then l (y + 1) else l y)"
proof (induction n)
  case 0
  then show ?case by (auto simp: fun_eq_iff)
next
  case (Suc n)
  then show ?case by (auto simp: fun_eq_iff scroll_row_eq)
qed

lemma fill_cells:
  "fold (\<lambda>k p. p(b + int k := v)) [0..<n] p
    = (\<lambda>i. if b \<le> i \<and> i < b + int n then v else p i)"
  by (induction n) (auto simp: fun_eq_iff)

text \<open>Scrolling, as a whole.\<close>

lemma vga_scroll_eq:
  "puffer (vga_scroll s) i =
     (if 0 \<le> i \<and> i < 24 * 80 then puffer s (i + 80)
      else if 24 * 80 \<le> i \<and> i < 25 * 80 then vga_cell 0x20 (farbe s) else puffer s i)"
  "vga_row (vga_scroll s) = 24" "vga_col (vga_scroll s) = vga_col s" "farbe (vga_scroll s) = farbe s"
  "line_length (vga_scroll s) y = (if 0 \<le> y \<and> y < 24 then line_length s (y + 1) else line_length s y)"
  "crtc (vga_scroll s) = crtc s"
  by (simp_all add: vga_scroll_def scroll_rows fill_cells [of 1920] Let_def)

lemma vga_set_cursor_fields [simp]:
  "puffer (vga_set_cursor x y s) = puffer s" "vga_row (vga_set_cursor x y s) = vga_row s"
  "vga_col (vga_set_cursor x y s) = vga_col s" "farbe (vga_set_cursor x y s) = farbe s"
  "line_length (vga_set_cursor x y s) = line_length s"
  by (simp_all add: vga_set_cursor_def Let_def)

definition vga_ok :: "vga_text \<Rightarrow> bool" where
  "vga_ok s \<longleftrightarrow> 0 \<le> vga_col s \<and> vga_col s < VGA_BREITE \<and> 0 \<le> vga_row s \<and> vga_row s < VGA_HOEHE"

definition vga_pos :: "vga_text \<Rightarrow> int \<times> int" where
  "vga_pos s = (vga_get_col s, vga_get_row s)"

lemma vga_putchar_pos:
  assumes "vga_ok s"
  shows "vga_pos (vga_putchar c s) = advance VGA_BREITE VGA_HOEHE c (vga_pos s)"
  using assms
  by (auto simp: vga_ok_def vga_pos_def vga_get_col_def vga_get_row_def vga_putchar_def advance_def
      Let_def vga_scroll_eq)

interpretation vga: text_screen vga_putchar vga_pos "\<lambda>s. VGA_BREITE" "\<lambda>s. VGA_HOEHE" vga_ok
proof unfold_locales
  show "0 \<le> fst (vga_pos s) \<and> fst (vga_pos s) < VGA_BREITE \<and> 0 \<le> snd (vga_pos s) \<and>
      snd (vga_pos s) < VGA_HOEHE" if "vga_ok s" for s
    using that by (simp add: vga_ok_def vga_pos_def vga_get_col_def vga_get_row_def)
  show "vga_ok (vga_putchar c s)" if "vga_ok s" for c s
    using that by (auto simp: vga_ok_def vga_putchar_def Let_def vga_scroll_eq)
qed (simp_all add: vga_putchar_pos)

lemma cell_index:
  fixes x :: int
  assumes "0 \<le> x" and "x < 80" and "0 \<le> x'" and "x' < 80"
  shows "y * 80 + x = y' * 80 + x' \<longleftrightarrow> x = x' \<and> y = y'"
proof
  assume e: "y * 80 + x = y' * 80 + x'"
  have "(y * 80 + x) div 80 = y" "(y' * 80 + x') div 80 = y'" using assms by simp_all
  then have "y = y'" using e by simp
  then show "x = x' \<and> y = y'" using e by simp
qed simp

text \<open>
  C26: a character appears where the cursor was, the cursor's cell is the only one that changes,
  and when the cursor leaves the last line the whole screen moves up by one line and the last
  one is blank; a line break writes nothing.
\<close>

theorem vga_putchar_screen:
  assumes "vga_ok s" and "0 \<le> x" and "x < VGA_BREITE" and "0 \<le> y" and "y < VGA_HOEHE"
  shows "cell_char (vga_putchar c s) x y =
    (let written = (\<lambda>x y. if c \<noteq> 10 \<and> x = vga_col s \<and> y = vga_row s then c else cell_char s x y);
         scrolled = vga_row s = VGA_HOEHE - 1 \<and> (c = 10 \<or> vga_col s = VGA_BREITE - 1)
     in if scrolled then if y = VGA_HOEHE - 1 then 0x20 else written x (y + 1) else written x y)"
proof -
  let ?i = "y * 80 + x" and ?j = "vga_row s * 80 + vga_col s"
  define q where "q = (if c = 10 then puffer s else (puffer s)(?j := vga_cell c (farbe s)))"
  let ?scrolled = "vga_row s = VGA_HOEHE - 1 \<and> (c = 10 \<or> vga_col s = VGA_BREITE - 1)"
  have b: "0 \<le> vga_col s" "vga_col s < 80" "0 \<le> vga_row s" "vga_row s < 25"
    using assms(1) by (simp_all add: vga_ok_def)
  have sc: "puffer (vga_putchar c s) i = (if ?scrolled
      then (if 0 \<le> i \<and> i < 1920 then q (i + 80)
            else if 1920 \<le> i \<and> i < 2000 then vga_cell 0x20 (farbe s) else q i)
      else q i)" for i
    using b by (simp add: q_def vga_putchar_def Let_def vga_scroll_eq)
  have n: "(y + 1) * 80 + x = ?i + 80" by simp
  have at: "?i = ?j \<longleftrightarrow> x = vga_col s \<and> y = vga_row s"
    "?i + 80 = ?j \<longleftrightarrow> x = vga_col s \<and> y + 1 = vga_row s"
    using cell_index [of x "vga_col s" y "vga_row s"] b assms(2,3)
      cell_index [of x "vga_col s" "y + 1" "vga_row s", unfolded n] by simp_all
  have r: "0 \<le> ?i" "?i < 1920 \<longleftrightarrow> y \<noteq> 24" "1920 \<le> ?i \<longleftrightarrow> y = 24" "?i < 2000"
    using assms(2-5) by linarith+
  have w: "ucast (q ?i) = (if c \<noteq> 10 \<and> x = vga_col s \<and> y = vga_row s then c else cell_char s x y)"
    "ucast (q (?i + 80)) = (if c \<noteq> 10 \<and> x = vga_col s \<and> y + 1 = vga_row s then c
       else cell_char s x (y + 1))"
    unfolding cell_char_def n q_def using at by simp_all
  have k: "puffer (vga_putchar c s) ?i
      = (if ?scrolled then if y = 24 then vga_cell 0x20 (farbe s) else q (?i + 80) else q ?i)"
    using r sc [of ?i] by (cases "y = 24") (simp_all only: if_True if_False simp_thms refl not_True_eq_False)
  have h: "VGA_HOEHE - 1 = 24" "VGA_BREITE - 1 = 79" by simp_all
  show ?thesis
  proof (cases ?scrolled)
    case True
    then show ?thesis unfolding cell_char_def [of "vga_putchar c s"] k Let_def h
      by (cases "y = 24") (simp_all add: w)
  next
    case False
    then show ?thesis unfolding cell_char_def [of "vga_putchar c s"] k Let_def h
      by (simp only: if_False w)
  qed
qed

definition blank_vga :: vga_text where
  "blank_vga = vga_clear \<lparr>puffer = (\<lambda>_. 0), vga_row = 0, vga_col = 0, farbe = 7,
     line_length = (\<lambda>_. 0), crtc = []\<rparr>"

lemma blank_vga_ok: "vga_ok blank_vga"
  by (simp add: vga_ok_def blank_vga_def vga_clear_def Let_def)

lemma vga_putchar_screen_witness:
  "cell_char (vga_putchar 0x41 (blank_vga\<lparr>vga_row := 24, vga_col := 79\<rparr>)) 79 23 = 0x41"
proof -
  have "vga_ok (blank_vga\<lparr>vga_row := 24, vga_col := 79\<rparr>)" by (simp add: vga_ok_def)
  from vga_putchar_screen [OF this, of 79 23 "0x41"] show ?thesis by (simp add: Let_def)
qed

end
