(* ===== verification/Canvas.thy ===== *)
theory Canvas
  imports Livly_Prelude
begin

text \<open>
  What a surface of pixels promises to the code that draws on it, and what a drawing made of single
  pixels then looks like.  The framebuffer provides it; rectangles, lines and characters are such
  drawings.
\<close>

section \<open>The points of a rectangle\<close>

text \<open>The order of \<^verbatim>\<open>for (dy ...) for (dx ...)\<close>.\<close>

definition block_points :: "int \<Rightarrow> int \<Rightarrow> int \<Rightarrow> int \<Rightarrow> (int \<times> int) list" where
  "block_points x y w h = concat (map (\<lambda>dy. map (\<lambda>dx. (x + dx, y + dy)) [0..w - 1]) [0..h - 1])"

lemma set_block_points:
  "(p, q) \<in> set (block_points x y w h) \<longleftrightarrow> x \<le> p \<and> p < x + w \<and> y \<le> q \<and> q < y + h"
proof
  assume r: "x \<le> p \<and> p < x + w \<and> y \<le> q \<and> q < y + h"
  have "(x + (p - x), y + (q - y)) \<in> set (block_points x y w h)"
    unfolding block_points_def using r
    by (auto simp del: add_diff_cancel_left' diff_add_cancel intro!: bexI [of _ "q - y"] image_eqI [of _ _ "p - x"])
  then show "(p, q) \<in> set (block_points x y w h)" by simp
qed (auto simp: block_points_def)

lemma fold_concat: "fold f (concat xss) s = fold (fold f) xss s"
  by (induction xss arbitrary: s) auto

lemma fold_block:
  "fold (\<lambda>dy. fold (\<lambda>dx. f (x + dx) (y + dy)) [0..w - 1]) [0..h - 1] s
    = fold (\<lambda>(a, b). f a b) (block_points x y w h) s"
  by (simp add: block_points_def fold_concat fold_map comp_def)

section \<open>The interface\<close>

locale canvas =
  fixes plot :: "'f \<Rightarrow> int \<Rightarrow> int \<Rightarrow> 'c \<Rightarrow> 'm \<Rightarrow> 'm"
    and look :: "'f \<Rightarrow> 'm \<Rightarrow> int \<Rightarrow> int \<Rightarrow> 'c"
    and inside :: "'f \<Rightarrow> int \<Rightarrow> int \<Rightarrow> bool"
    and valid :: "'f \<Rightarrow> bool"
  assumes look_plot: "valid f \<Longrightarrow> inside f x y \<Longrightarrow>
      look f (plot f a b c m) x y = (if a = x \<and> b = y then c else look f m x y)"
    and plot_outside: "\<not> inside f a b \<Longrightarrow> plot f a b c m = m"
begin

text \<open>A drawing whose colour depends on the point only: the order of the points does not matter.\<close>

lemma look_drawing:
  assumes "valid f" and "inside f x y"
  shows "look f (fold (\<lambda>(a, b). plot f a b (col a b)) ps m) x y
    = (if (x, y) \<in> set ps then col x y else look f m x y)"
  by (induction ps arbitrary: m) (use assms in \<open>auto simp: look_plot split: if_splits\<close>)

lemma look_block:
  assumes "valid f" and "inside f x y"
  shows "look f (fold (\<lambda>dy. fold (\<lambda>dx. plot f (a + dx) (b + dy) (col (a + dx) (b + dy))) [0..w - 1])
        [0..h - 1] m) x y
    = (if a \<le> x \<and> x < a + w \<and> b \<le> y \<and> y < b + h then col x y else look f m x y)"
  unfolding fold_block [of "\<lambda>a b. plot f a b (col a b)"]
  using look_drawing [OF assms] by (simp add: set_block_points)

lemma drawing_outside:
  "list_all (\<lambda>(a, b). \<not> inside f a b) ps \<Longrightarrow> fold (\<lambda>(a, b). plot f a b (col a b)) ps m = m"
  by (induction ps) (auto simp: plot_outside)

end

end
