(* ===== verification/Framebuffer.thy ===== *)
theory Framebuffer
  imports Boot_Info Font Canvas
begin

text \<open>
  The linear framebuffer, \<^verbatim>\<open>src/src/drivers/graphics/framebuffer.c\<close>: pixels, rectangles, lines and
  characters.  Video memory is the memory of the machine, a map from 64-bit addresses to bytes; the
  address of a pixel is computed at the widths of the code.  Coordinates are \<^verbatim>\<open>int\<close>s of the C
  code; they are integers here, so the claims are about drawings whose coordinates do not leave the
  range of \<^verbatim>\<open>int\<close> (beyond it C leaves the result undefined).
\<close>

section \<open>Pixels\<close>

abbreviation COLOR_BLACK :: u32 where "COLOR_BLACK \<equiv> 0"
abbreviation COLOR_WHITE :: u32 where "COLOR_WHITE \<equiv> 0xFFFFFF"

record framebuffer =
  f_address :: u64
  f_width :: u32
  f_height :: u32
  f_pitch :: u32
  f_bpp :: u8

type_synonym vram = "u64 \<Rightarrow> u8"

text \<open>The store and the load of a 32-bit value, the low byte first.\<close>

definition write32 :: "u64 \<Rightarrow> u32 \<Rightarrow> vram \<Rightarrow> vram" where
  "write32 a v m = m(a := ucast v, a + 1 := ucast (drop_bit 8 v),
     a + 2 := ucast (drop_bit 16 v), a + 3 := ucast (drop_bit 24 v))"

definition read32 :: "u64 \<Rightarrow> vram \<Rightarrow> u32" where
  "read32 a m = ucast (m a) OR push_bit 8 (ucast (m (a + 1))) OR push_bit 16 (ucast (m (a + 2)))
     OR push_bit 24 (ucast (m (a + 3)))"

definition fb_init :: "BootInfo \<Rightarrow> framebuffer" where
  "fb_init info = \<lparr>f_address = ucast (fb_addr info), f_width = ucast (fb_width info),
     f_height = ucast (fb_height info), f_pitch = ucast (fb_pitch info), f_bpp = fb_bpp info\<rparr>"

definition fb_in_bounds :: "framebuffer \<Rightarrow> int \<Rightarrow> int \<Rightarrow> bool" where
  "fb_in_bounds fb x y \<longleftrightarrow> x \<ge> 0 \<and> y \<ge> 0 \<and> x < uint (f_width fb) \<and> y < uint (f_height fb)"

text \<open>
  \<^verbatim>\<open>fb->address + y * fb->pitch + x * 4\<close>: the product with the pitch is a \<^verbatim>\<open>uint32_t\<close>, the sums are
  taken at 64 bits.
\<close>

definition pixel_address :: "framebuffer \<Rightarrow> int \<Rightarrow> int \<Rightarrow> u64" where
  "pixel_address fb x y = f_address fb + ucast (word_of_int y * f_pitch fb) + word_of_int (x * 4)"

definition fb_draw_pixel :: "framebuffer \<Rightarrow> int \<Rightarrow> int \<Rightarrow> u32 \<Rightarrow> vram \<Rightarrow> vram" where
  "fb_draw_pixel fb x y color m =
     (if \<not> fb_in_bounds fb x y then m else write32 (pixel_address fb x y) color m)"

text \<open>
  \<^verbatim>\<open>fb_clear\<close> counts in \<^verbatim>\<open>uint32_t\<close>: there \<^verbatim>\<open>x * 4\<close> is a 32-bit product.
\<close>

definition fb_clear :: "framebuffer \<Rightarrow> u32 \<Rightarrow> vram \<Rightarrow> vram" where
  "fb_clear fb color =
     for_range 0 (f_height fb) (\<lambda>y. for_range 0 (f_width fb) (\<lambda>x.
       write32 (f_address fb + ucast (y * f_pitch fb) + ucast (x * 4)) color))"

definition fb_draw_rect :: "framebuffer \<Rightarrow> int \<Rightarrow> int \<Rightarrow> int \<Rightarrow> int \<Rightarrow> u32 \<Rightarrow> vram \<Rightarrow> vram" where
  "fb_draw_rect fb x y w h color =
     fold (\<lambda>dy. fold (\<lambda>dx. fb_draw_pixel fb (x + dx) (y + dy) color) [0..w - 1]) [0..h - 1]"

text \<open>The loop of Bresenham's algorithm; whether it ends has to be proved.\<close>

partial_function (option) line_loop ::
  "framebuffer \<Rightarrow> int \<Rightarrow> int \<Rightarrow> int \<Rightarrow> int \<Rightarrow> int \<Rightarrow> int \<Rightarrow> int \<Rightarrow> int \<Rightarrow> int \<Rightarrow> u32 \<Rightarrow> vram \<Rightarrow> vram option"
where
  "line_loop fb x1 y1 dx dy sx sy x0 y0 err color m =
     (let m = fb_draw_pixel fb x0 y0 color m
      in if x0 = x1 \<and> y0 = y1 then Some m
         else
          let e2 = 2 * err;
              (err, x0) = (if e2 > - dy then (err - dy, x0 + sx) else (err, x0));
              (err, y0) = (if e2 < dx then (err + dx, y0 + sy) else (err, y0))
          in line_loop fb x1 y1 dx dy sx sy x0 y0 err color m)"

definition fb_draw_line ::
  "framebuffer \<Rightarrow> int \<Rightarrow> int \<Rightarrow> int \<Rightarrow> int \<Rightarrow> u32 \<Rightarrow> vram \<Rightarrow> vram option"
where
  "fb_draw_line fb x0 y0 x1 y1 color m =
     (let dx = (if x1 > x0 then x1 - x0 else x0 - x1);
          dy = (if y1 > y0 then y1 - y0 else y0 - y1);
          sx = (if x0 < x1 then 1 else -1);
          sy = (if y0 < y1 then 1 else -1);
          err = dx - dy
      in line_loop fb x1 y1 dx dy sx sy x0 y0 err color m)"

text \<open>Characters without a glyph are drawn as a space; \<^verbatim>\<open>bits & (0x80 >> col)\<close> reads bit \<open>7 - col\<close>.\<close>

definition glyph_of :: "u8 \<Rightarrow> u8 list" where
  "glyph_of c = (let uc = (if c < 0x20 \<or> c > 0x7F then 0x20 else c) in font8x16 ! unat (uc - 0x20))"

definition glyph_bit :: "u8 \<Rightarrow> int \<Rightarrow> int \<Rightarrow> bool" where
  "glyph_bit c col row \<longleftrightarrow> (glyph_of c ! nat row) AND drop_bit (nat col) 0x80 \<noteq> 0"

definition fb_draw_char :: "framebuffer \<Rightarrow> int \<Rightarrow> int \<Rightarrow> u8 \<Rightarrow> u32 \<Rightarrow> u32 \<Rightarrow> vram \<Rightarrow> vram" where
  "fb_draw_char fb x y c fg bg =
     fold (\<lambda>row. fold (\<lambda>col. fb_draw_pixel fb (x + col) (y + row)
       (if glyph_bit c col row then fg else bg)) [0..7]) [0..15]"

fun fb_draw_string :: "framebuffer \<Rightarrow> int \<Rightarrow> int \<Rightarrow> u8 list \<Rightarrow> u32 \<Rightarrow> u32 \<Rightarrow> vram \<Rightarrow> vram" where
  "fb_draw_string fb x y [] fg bg m = m"
| "fb_draw_string fb x y (c # cs) fg bg m =
     fb_draw_string fb (x + 8) y cs fg bg (fb_draw_char fb x y c fg bg m)"

section \<open>The image\<close>

text \<open>The colour of a pixel, as the display reads it.\<close>

definition pixel_at :: "framebuffer \<Rightarrow> vram \<Rightarrow> int \<Rightarrow> int \<Rightarrow> u32" where
  "pixel_at fb m x y = read32 (pixel_address fb x y) m"

text \<open>
  A geometry the address computation is right for: the lines do not overlap, the offsets fit into
  32 bits and the framebuffer does not wrap around the end of memory.
\<close>

definition fb_ok :: "framebuffer \<Rightarrow> bool" where
  "fb_ok fb \<longleftrightarrow> 4 * uint (f_width fb) \<le> uint (f_pitch fb)
     \<and> uint (f_height fb) * uint (f_pitch fb) \<le> 2 ^ 32
     \<and> uint (f_address fb) + uint (f_height fb) * uint (f_pitch fb) \<le> 2 ^ 64"

lemma read_write32: "read32 a (write32 a v m) = v"
proof -
  have d: "a \<noteq> a + 1" "a \<noteq> a + 2" "a \<noteq> a + 3" "a + 1 \<noteq> a + 2" "a + 1 \<noteq> a + 3" "a + 2 \<noteq> a + 3"
    by simp_all
  show ?thesis
  proof (rule bit_word_eqI)
    fix n assume "n < LENGTH(32)"
    then consider "n < 8" | "8 \<le> n" "n < 16" | "16 \<le> n" "n < 24" | "24 \<le> n" "n < 32"
      by (simp, linarith)
    then show "bit (read32 a (write32 a v m)) n = bit v n"
      by cases (use d in \<open>auto simp add: read32_def write32_def bit_simps\<close>)
  qed
qed

lemma read_write32_other:
  assumes "uint a + 4 \<le> uint b \<or> uint b + 4 \<le> uint a" and "uint a + 4 \<le> 2 ^ 64"
    and "uint b + 4 \<le> 2 ^ 64"
  shows "read32 b (write32 a v m) = read32 b m"
proof -
  have u: "uint (c + 1) = uint c + 1" "uint (c + 2) = uint c + 2" "uint (c + 3) = uint c + 3"
    if "uint c + 4 \<le> 2 ^ 64" for c :: u64
    using that by (simp_all add: uint_word_ariths)
  have "b + i \<noteq> a + j" if "i \<in> {0, 1, 2, 3}" "j \<in> {0, 1, 2, 3}" for i j
  proof
    assume "b + i = a + j"
    then have "uint (b + i) = uint (a + j)" by simp
    then show False using that assms u [OF assms(2)] u [OF assms(3)] by auto
  qed
  from this [of 0 0] this [of 0 1] this [of 0 2] this [of 0 3]
    this [of 1 0] this [of 1 1] this [of 1 2] this [of 1 3]
    this [of 2 0] this [of 2 1] this [of 2 2] this [of 2 3]
    this [of 3 0] this [of 3 1] this [of 3 2] this [of 3 3]
  show ?thesis by (simp add: read32_def write32_def)
qed

lemma pixel_offset:
  assumes "fb_ok fb" and "fb_in_bounds fb x y"
  shows "y * uint (f_pitch fb) + 4 * x + 4 \<le> uint (f_height fb) * uint (f_pitch fb)"
    and "uint (pixel_address fb x y) = uint (f_address fb) + y * uint (f_pitch fb) + 4 * x"
    and "uint (pixel_address fb x y) + 4 \<le> 2 ^ 64"
proof -
  let ?p = "uint (f_pitch fb)" and ?h = "uint (f_height fb)"
  have b: "0 \<le> x" "0 \<le> y" "y + 1 \<le> ?h" "4 * x + 4 \<le> ?p"
    using assms by (simp_all add: fb_ok_def fb_in_bounds_def)
  have "(y + 1) * ?p \<le> ?h * ?p" using b(3) by (simp add: mult_right_mono)
  then show o: "y * ?p + 4 * x + 4 \<le> ?h * ?p" using b(4) by (simp add: distrib_right)
  have n: "0 \<le> y * ?p" using b by simp
  have h: "?h * ?p \<le> 2 ^ 32" "uint (f_address fb) + ?h * ?p \<le> 2 ^ 64"
    using assms(1) by (simp_all add: fb_ok_def)
  have y: "y < 2 ^ 32" using assms(2) uint_lt2p [of "f_height fb"] by (simp add: fb_in_bounds_def)
  have m: "uint (word_of_int y * f_pitch fb :: u32) = y * ?p"
    using y b n o h by (simp add: uint_word_ariths uint_word_of_int)
  have x: "uint (word_of_int (x * 4) :: u64) = 4 * x"
  proof -
    have "?h * ?p \<le> 4294967296" using h(1) by simp
    then have "4 * x < 18446744073709551616" using n o by linarith
    then have "0 \<le> 4 * x" "4 * x < 2 ^ LENGTH(64)" using b by simp_all
    then show ?thesis by (simp only: uint_word_of_int mult.commute [of x 4] mod_pos_pos_trivial)
  qed
  have c: "uint (ucast (word_of_int y * f_pitch fb :: u32) :: u64) = y * ?p"
    using m by (simp add: unsigned_ucast_eq take_bit_eq_mod) (use n o h b in \<open>simp\<close>)
  show a: "uint (pixel_address fb x y) = uint (f_address fb) + y * ?p + 4 * x"
    unfolding pixel_address_def uint_word_ariths c x using n o h b by simp
  have "uint (pixel_address fb x y) + 4 \<le> uint (f_address fb) + ?h * ?p" unfolding a using o by simp
  then show "uint (pixel_address fb x y) + 4 \<le> 2 ^ 64" using h(2) by (rule order_trans)
qed

lemma pixels_apart:
  assumes "fb_ok fb" and "fb_in_bounds fb x y" and "fb_in_bounds fb a b" and "\<not> (a = x \<and> b = y)"
  shows "uint (pixel_address fb a b) + 4 \<le> uint (pixel_address fb x y)
    \<or> uint (pixel_address fb x y) + 4 \<le> uint (pixel_address fb a b)"
proof -
  let ?p = "uint (f_pitch fb)"
  have w: "4 * x + 4 \<le> ?p" "4 * a + 4 \<le> ?p" "0 \<le> x" "0 \<le> a" "0 \<le> ?p"
    using assms by (simp_all add: fb_ok_def fb_in_bounds_def)
  have m: "b * ?p + ?p \<le> y * ?p" if "b < y"
    using that w mult_right_mono [of "b + 1" y ?p] by (simp add: distrib_right)
  have n: "y * ?p + ?p \<le> b * ?p" if "y < b"
    using that w mult_right_mono [of "y + 1" b ?p] by (simp add: distrib_right)
  have o: "uint (pixel_address fb x y) = uint (f_address fb) + y * ?p + 4 * x"
    "uint (pixel_address fb a b) = uint (f_address fb) + b * ?p + 4 * a"
    using pixel_offset(2) assms(1-3) by blast+
  consider "b < y" | "y < b" | "b = y" "a < x" | "b = y" "x < a" using assms(4) by linarith
  then show ?thesis
  proof cases
    case 1
    then show ?thesis using w m o by linarith
  next
    case 2
    then show ?thesis using w n o by linarith
  qed (use w o in simp_all)
qed

lemma pixel_at_draw_same:
  "fb_in_bounds fb x y \<Longrightarrow> pixel_at fb (fb_draw_pixel fb x y c m) x y = c"
  by (simp add: pixel_at_def fb_draw_pixel_def read_write32)

lemma draw_pixel_outside: "\<not> fb_in_bounds fb a b \<Longrightarrow> fb_draw_pixel fb a b c m = m"
  by (simp add: fb_draw_pixel_def)

lemma pixel_at_draw_other:
  assumes "fb_ok fb" and "fb_in_bounds fb x y" and "\<not> (a = x \<and> b = y)"
  shows "pixel_at fb (fb_draw_pixel fb a b c m) x y = pixel_at fb m x y"
proof (cases "fb_in_bounds fb a b")
  case True
  have "read32 (pixel_address fb x y) (write32 (pixel_address fb a b) c m)
      = read32 (pixel_address fb x y) m"
    by (rule read_write32_other [OF pixels_apart [OF assms(1,2) True assms(3)]
        pixel_offset(3) [OF assms(1) True] pixel_offset(3) [OF assms(1,2)]])
  then show ?thesis unfolding pixel_at_def fb_draw_pixel_def using True by simp
qed (simp add: draw_pixel_outside)

lemma pixel_at_draw_pixel:
  assumes "fb_ok fb" and "fb_in_bounds fb x y"
  shows "pixel_at fb (fb_draw_pixel fb a b c m) x y = (if a = x \<and> b = y then c else pixel_at fb m x y)"
proof (cases "a = x \<and> b = y")
  case True
  then show ?thesis using pixel_at_draw_same [OF assms(2)] by auto
next
  case False
  show ?thesis unfolding pixel_at_draw_other [OF assms False] if_not_P [OF False] ..
qed

interpretation fb: canvas fb_draw_pixel pixel_at fb_in_bounds fb_ok
  by unfold_locales (rule pixel_at_draw_pixel, assumption+, rule draw_pixel_outside)

section \<open>Drawings\<close>

lemma pixel_at_draw_rect:
  assumes "fb_ok fb" and "fb_in_bounds fb x y"
  shows "pixel_at fb (fb_draw_rect fb a b w h c m) x y
    = (if a \<le> x \<and> x < a + w \<and> b \<le> y \<and> y < b + h then c else pixel_at fb m x y)"
  unfolding fb_draw_rect_def by (rule fb.look_block [OF assms])

lemma pixel_at_draw_char:
  assumes "fb_ok fb" and "fb_in_bounds fb x y"
  shows "pixel_at fb (fb_draw_char fb a b c fg bg m) x y
    = (if a \<le> x \<and> x < a + 8 \<and> b \<le> y \<and> y < b + 16
       then if glyph_bit c (x - a) (y - b) then fg else bg else pixel_at fb m x y)"
  using fb.look_block [OF assms, of a b "\<lambda>x y. if glyph_bit c (x - a) (y - b) then fg else bg" 8 16 m]
  by (simp add: fb_draw_char_def)

text \<open>Memory outside the framebuffer is never written.\<close>

lemma write32_elsewhere:
  assumes "uint a + 4 \<le> 2 ^ 64" and "uint b < uint a \<or> uint a + 4 \<le> uint b"
  shows "write32 a v m b = m b"
proof -
  have "uint (a + 1) = uint a + 1" "uint (a + 2) = uint a + 2" "uint (a + 3) = uint a + 3"
    using assms(1) by (simp_all add: uint_word_ariths)
  then have "b \<noteq> a" "b \<noteq> a + 1" "b \<noteq> a + 2" "b \<noteq> a + 3" using assms(2) by auto
  then show ?thesis by (simp add: write32_def)
qed

definition in_framebuffer :: "framebuffer \<Rightarrow> u64 \<Rightarrow> bool" where
  "in_framebuffer fb a \<longleftrightarrow> uint (f_address fb) \<le> uint a
     \<and> uint a < uint (f_address fb) + uint (f_height fb) * uint (f_pitch fb)"

lemma draw_pixel_elsewhere:
  assumes "fb_ok fb" and "\<not> in_framebuffer fb a"
  shows "fb_draw_pixel fb x y c m a = m a"
proof (cases "fb_in_bounds fb x y")
  case True
  have "0 \<le> y * uint (f_pitch fb)" "0 \<le> x" using True by (simp_all add: fb_in_bounds_def)
  then have "uint a < uint (pixel_address fb x y) \<or> uint (pixel_address fb x y) + 4 \<le> uint a"
    using pixel_offset(1,2) [OF assms(1) True] assms(2) unfolding in_framebuffer_def by linarith
  then show ?thesis
    using write32_elsewhere [OF pixel_offset(3) [OF assms(1) True]] by (simp add: fb_draw_pixel_def)
qed (simp add: draw_pixel_outside)

lemma drawing_elsewhere:
  assumes "fb_ok fb" and "\<not> in_framebuffer fb a"
  shows "fold (\<lambda>(x, y). fb_draw_pixel fb x y (col x y)) ps m a = m a"
  by (induction ps arbitrary: m) (auto simp: draw_pixel_elsewhere [OF assms])

lemma draw_block_elsewhere:
  assumes "fb_ok fb" and "\<not> in_framebuffer fb a"
  shows "fold (\<lambda>dy. fold (\<lambda>dx. fb_draw_pixel fb (x + dx) (y + dy) (col (x + dx) (y + dy))) [0..w - 1])
    [0..h - 1] m a = m a"
  unfolding fold_block [of "\<lambda>x y. fb_draw_pixel fb x y (col x y)"] by (rule drawing_elsewhere [OF assms])

lemma draw_rect_elsewhere:
  "fb_ok fb \<Longrightarrow> \<not> in_framebuffer fb a \<Longrightarrow> fb_draw_rect fb x y w h c m a = m a"
  unfolding fb_draw_rect_def by (rule draw_block_elsewhere)

lemma draw_char_elsewhere:
  assumes "fb_ok fb" and "\<not> in_framebuffer fb a"
  shows "fb_draw_char fb x y c fg bg m a = m a"
  using draw_block_elsewhere [OF assms, of x y "\<lambda>p q. if glyph_bit c (p - x) (q - y) then fg else bg" 8 16]
  by (simp add: fb_draw_char_def)

text \<open>
  C32: No drawing writes outside the framebuffer, wherever its coordinates are: points off the screen
  are dropped.
\<close>

theorem drawings_stay_inside:
  assumes "fb_ok fb" and "\<not> in_framebuffer fb a"
  shows "fb_draw_rect fb x y w h c m a = m a \<and> fb_draw_char fb x y ch fg bg m a = m a
    \<and> fb_draw_string fb x y str fg bg m a = m a"
proof -
  have "fb_draw_string fb x y str fg bg m a = m a" for x m
    by (induction str arbitrary: x m) (simp_all add: draw_char_elsewhere [OF assms])
  then show ?thesis by (simp add: draw_rect_elsewhere [OF assms] draw_char_elsewhere [OF assms])
qed

definition small_fb :: framebuffer where
  "small_fb = \<lparr>f_address = 0xE0000000, f_width = 640, f_height = 480, f_pitch = 2560, f_bpp = 32\<rparr>"

lemma small_fb_ok: "fb_ok small_fb"
  by (simp add: fb_ok_def small_fb_def)

lemma drawings_stay_inside_witness:
  "fb_draw_rect small_fb (- 5) 470 2000 2000 COLOR_WHITE (\<lambda>_. 0) 0x100000 = 0
    \<and> fb_draw_string small_fb 632 0 [0x48, 0x69] COLOR_WHITE 0 (\<lambda>_. 0) 0xDFFFFFFF = 0"
proof -
  have o: "\<not> in_framebuffer small_fb 0x100000" "\<not> in_framebuffer small_fb 0xDFFFFFFF"
    by (simp_all add: in_framebuffer_def small_fb_def)
  show ?thesis
    using drawings_stay_inside [OF small_fb_ok o(1), where x = "- 5" and y = 470 and w = 2000 and h = 2000
        and c = COLOR_WHITE and m = "\<lambda>_. 0"]
      drawings_stay_inside [OF small_fb_ok o(2), where x = 632 and y = 0 and str = "[0x48, 0x69]"
        and fg = COLOR_WHITE and bg = 0 and m = "\<lambda>_. 0"] by blast
qed

text \<open>Clearing: the offsets are those of the pixels, so every pixel gets the colour.\<close>

lemma clear_address:
  assumes "fb_ok fb" and "x < f_width fb" and "y < f_height fb"
  shows "write32 (f_address fb + ucast (y * f_pitch fb) + ucast (x * 4)) c
    = fb_draw_pixel fb (uint x) (uint y) c"
proof -
  have "uint x < uint (f_width fb)" using assms(2) by (simp add: word_less_def)
  moreover have "4 * uint (f_width fb) \<le> uint (f_pitch fb)" using assms(1) by (simp add: fb_ok_def)
  ultimately have "uint x * 4 < 2 ^ 32" using uint_lt2p [of "f_pitch fb"] by simp
  then have "uint (ucast (x * 4 :: u32) :: u64) = uint x * 4"
    by (simp add: unsigned_ucast_eq take_bit_eq_mod uint_word_ariths)
  then have "ucast (x * 4 :: u32) = (word_of_int (uint x * 4) :: u64)" by (metis word_of_int_uint)
  then show ?thesis using assms(2,3)
    by (simp add: fun_eq_iff fb_draw_pixel_def fb_in_bounds_def pixel_address_def word_less_def)
qed

lemma pixel_at_clear:
  assumes ok: "fb_ok fb" and xy: "fb_in_bounds fb x y"
  shows "pixel_at fb (fb_clear fb c m) x y = c"
proof -
  let ?row = "\<lambda>b. for_range 0 (f_width fb) (\<lambda>a.
    write32 (f_address fb + ucast (b * f_pitch fb) + ucast (a * 4)) c)"
  have row: "pixel_at fb (?row b m) x y = (if y = uint b then c else pixel_at fb m x y)"
    if b: "b < f_height fb" for b m
  proof -
    let ?I = "\<lambda>n m'. pixel_at fb m' x y = (if y = uint b \<and> x < int n then c else pixel_at fb m x y)"
    have "?I (unat (f_width fb)) (?row b m)"
    proof (rule for_range_inv [where I = ?I])
      show "?I (Suc (unat a)) (write32 (f_address fb + ucast (b * f_pitch fb) + ucast (a * 4)) c m')"
        if "a < f_width fb" "?I (unat a) m'" for a m'
        unfolding clear_address [OF ok that(1) b] pixel_at_draw_pixel [OF ok xy] that(2)
        using xy by (auto simp: fb_in_bounds_def)
    qed (use xy in \<open>simp_all add: fb_in_bounds_def\<close>)
    then show ?thesis using xy by (simp add: fb_in_bounds_def)
  qed
  let ?J = "\<lambda>n m'. pixel_at fb m' x y = (if y < int n then c else pixel_at fb m x y)"
  have "?J (unat (f_height fb)) (fb_clear fb c m)"
    unfolding fb_clear_def
  proof (rule for_range_inv [where I = ?J])
    show "?J (Suc (unat b)) (?row b m')" if "b < f_height fb" "?J (unat b) m'" for b m'
      unfolding row [OF that(1)] that(2) using xy by (auto simp: fb_in_bounds_def)
  qed (use xy in \<open>simp_all add: fb_in_bounds_def\<close>)
  then show ?thesis using xy by (simp add: fb_in_bounds_def)
qed

section \<open>Lines\<close>

text \<open>
  After \<open>i\<close> steps in \<open>x\<close> and \<open>j\<close> steps in \<open>y\<close> the error term is \<open>(j + 1) * dx - (i + 1) * dy\<close>; the
  next point depends on it alone.
\<close>

definition line_next :: "int \<Rightarrow> int \<Rightarrow> int \<times> int \<Rightarrow> int \<times> int" where
  "line_next dx dy = (\<lambda>(i, j).
     let e2 = 2 * ((j + 1) * dx - (i + 1) * dy)
     in (if e2 > - dy then i + 1 else i, if e2 < dx then j + 1 else j))"

definition near :: "int \<times> int \<Rightarrow> int \<times> int \<Rightarrow> bool" where
  "near p q \<longleftrightarrow> \<bar>fst q - fst p\<bar> \<le> 1 \<and> \<bar>snd q - snd p\<bar> \<le> 1"

text \<open>The point of a walk on the grid of a line that starts in \<open>(x0, y0)\<close>.\<close>

definition on_grid :: "int \<Rightarrow> int \<Rightarrow> int \<Rightarrow> int \<Rightarrow> int \<times> int \<Rightarrow> int \<times> int" where
  "on_grid x0 y0 sx sy = (\<lambda>(i, j). (x0 + sx * i, y0 + sy * j))"

lemma near_line_next: "near p (line_next dx dy p)"
  by (cases p) (simp add: near_def line_next_def Let_def)

lemma near_on_grid:
  "\<bar>sx\<bar> = 1 \<Longrightarrow> \<bar>sy\<bar> = 1 \<Longrightarrow> near (on_grid x0 y0 sx sy p) (on_grid x0 y0 sx sy q) = near p q"
  by (cases p, cases q) (simp add: near_def on_grid_def abs_mult flip: right_diff_distrib)

lemma line_loop_step:
  assumes "\<bar>sx\<bar> = 1" and "\<bar>sy\<bar> = 1"
  shows "line_loop fb (x0 + sx * dx) (y0 + sy * dy) dx dy sx sy (x0 + sx * i) (y0 + sy * j)
      ((j + 1) * dx - (i + 1) * dy) c m
    = (let m = fb_draw_pixel fb (x0 + sx * i) (y0 + sy * j) c m
       in if (i, j) = (dx, dy) then Some m
          else case line_next dx dy (i, j) of (i, j) \<Rightarrow>
            line_loop fb (x0 + sx * dx) (y0 + sy * dy) dx dy sx sy (x0 + sx * i) (y0 + sy * j)
              ((j + 1) * dx - (i + 1) * dy) c m)"
proof -
  have z: "sx \<noteq> 0" "sy \<noteq> 0" using assms by auto
  have e: "(j + 1) * dx - (i + 1) * dy - dy = (j + 1) * dx - (i + 1 + 1) * dy"
    "(j + 1) * dx - (i + 1) * dy + dx = (j + 1 + 1) * dx - (i + 1) * dy"
    "(j + 1) * dx - (i + 1) * dy - dy + dx = (j + 1 + 1) * dx - (i + 1 + 1) * dy"
    "(j + 1) * dx - (2 + i) * dy + dx = (2 + j) * dx - (2 + i) * dy"
    "x0 + sx * i + sx = x0 + sx * (i + 1)" "y0 + sy * j + sy = y0 + sy * (j + 1)"
    by (simp_all add: algebra_simps)
  show ?thesis
    by (subst line_loop.simps) (simp add: Let_def line_next_def z e)
qed

text \<open>
  A walk whose steps keep an invariant and bring a measure down to the end of the line is what the
  loop draws.
\<close>

lemma line_loop_walk:
  assumes s: "\<bar>sx\<bar> = 1" "\<bar>sy\<bar> = 1"
    and step: "\<And>p. I p \<Longrightarrow> p \<noteq> (dx, dy) \<Longrightarrow> I (line_next dx dy p) \<and> \<mu> p = Suc (\<mu> (line_next dx dy p))"
    and stop: "\<mu> (dx, dy) = (0 :: nat)"
    and Q: "\<And>p. I p \<Longrightarrow> Q p"
  shows "I (i, j) \<Longrightarrow> \<exists>ws. line_loop fb (x0 + sx * dx) (y0 + sy * dy) dx dy sx sy
        (x0 + sx * i) (y0 + sy * j) ((j + 1) * dx - (i + 1) * dy) c m
      = Some (fold (\<lambda>(x, y). fb_draw_pixel fb x y c) (map (on_grid x0 y0 sx sy) ws) m)
    \<and> ws \<noteq> [] \<and> hd ws = (i, j) \<and> last ws = (dx, dy) \<and> length ws = Suc (\<mu> (i, j))
    \<and> successively near ws \<and> list_all Q ws"
proof (induction "\<mu> (i, j)" arbitrary: i j m)
  case 0
  then have "(i, j) = (dx, dy)" using step by fastforce
  then show ?case using "0.hyps" "0.prems" s Q
    by (intro exI [of _ "[(i, j)]"]) (simp add: line_loop_step Let_def on_grid_def)
next
  case (Suc n)
  have ne: "(i, j) \<noteq> (dx, dy)" using Suc.hyps(2) stop by auto
  obtain i' j' where n: "line_next dx dy (i, j) = (i', j')" by force
  have I': "I (i', j')" and m': "n = \<mu> (i', j')" using step [OF Suc.prems ne] Suc.hyps(2) n by auto
  from Suc.hyps(1) [OF m' I', of "fb_draw_pixel fb (x0 + sx * i) (y0 + sy * j) c m"]
  obtain ws where ws: "line_loop fb (x0 + sx * dx) (y0 + sy * dy) dx dy sx sy
        (x0 + sx * i') (y0 + sy * j') ((j' + 1) * dx - (i' + 1) * dy) c
        (fb_draw_pixel fb (x0 + sx * i) (y0 + sy * j) c m)
      = Some (fold (\<lambda>(x, y). fb_draw_pixel fb x y c) (map (on_grid x0 y0 sx sy) ws)
          (fb_draw_pixel fb (x0 + sx * i) (y0 + sy * j) c m))"
    "ws \<noteq> []" "hd ws = (i', j')" "last ws = (dx, dy)" "length ws = Suc (\<mu> (i', j'))"
    "successively near ws" "list_all Q ws" by blast
  have "near (i, j) (hd ws)" using near_line_next [of "(i, j)" dx dy] n ws(3) by simp
  then have "successively near ((i, j) # ws)" using ws(2,6) by (cases ws) auto
  moreover have "line_loop fb (x0 + sx * dx) (y0 + sy * dy) dx dy sx sy
        (x0 + sx * i) (y0 + sy * j) ((j + 1) * dx - (i + 1) * dy) c m
      = Some (fold (\<lambda>(x, y). fb_draw_pixel fb x y c) (map (on_grid x0 y0 sx sy) ((i, j) # ws)) m)"
    by (subst line_loop_step [OF s]) (simp only: Let_def if_not_P [OF ne] n prod.case ws(1), simp add: on_grid_def)
  ultimately show ?case using ws Q [OF Suc.prems] Suc.hyps(2) m'
    by (intro exI [of _ "(i, j) # ws"]) simp
qed

text \<open>
  The walk stays within half a step of the ideal line: on a flat line every step goes in \<open>x\<close>, on a
  steep one in \<open>y\<close>.
\<close>

definition close_to :: "int \<Rightarrow> int \<Rightarrow> int \<times> int \<Rightarrow> bool" where
  "close_to dx dy = (\<lambda>(i, j). 2 * \<bar>i * dy - j * dx\<bar> \<le> max dx dy)"

lemma flat_step:
  assumes d: "0 \<le> dy" "dy < dx" and p: "close_to dx dy (i, j)"
  shows "line_next dx dy (i, j) \<in> {(i + 1, j), (i + 1, j + 1)} \<and> close_to dx dy (line_next dx dy (i, j))"
proof -
  define D where "D = j * dx - i * dy"
  have "2 * \<bar>i * dy - j * dx\<bar> \<le> dx" using p d by (simp add: close_to_def)
  then have "2 * \<bar>D\<bar> \<le> dx" unfolding D_def by (simp add: abs_minus_commute)
  then have D: "2 * D \<le> dx" "- dx \<le> 2 * D" by (simp_all add: abs_if split: if_splits)
  have e: "(j + 1) * dx - (i + 1) * dy = D + dx - dy" "(i + 1) * dy - j * dx = dy - D"
    "(i + 1) * dy - (j + 1) * dx = dy - D - dx"
    by (simp_all add: D_def algebra_simps)
  have n: "line_next dx dy (i, j) = (if - dy < 2 * (D + dx - dy) then i + 1 else i,
      if 2 * (D + dx - dy) < dx then j + 1 else j)"
    by (simp only: line_next_def Let_def prod.case e)
  have c: "close_to dx dy (i + 1, j) \<longleftrightarrow> 2 * \<bar>dy - D\<bar> \<le> dx"
    "close_to dx dy (i + 1, j + 1) \<longleftrightarrow> 2 * \<bar>dy - D - dx\<bar> \<le> dx"
    using d by (simp_all add: close_to_def e)
  have "- dy < 2 * (D + dx - dy)" using D d by simp
  moreover have "2 * (D + dx - dy) < dx \<Longrightarrow> 2 * \<bar>dy - D - dx\<bar> \<le> dx" using D d by (simp add: abs_if)
  moreover have "\<not> 2 * (D + dx - dy) < dx \<Longrightarrow> 2 * \<bar>dy - D\<bar> \<le> dx" using D d by (simp add: abs_if)
  ultimately show ?thesis unfolding n using c by (cases "2 * (D + dx - dy) < dx") simp_all
qed

lemma steep_step:
  assumes d: "0 \<le> dx" "dx < dy" and p: "close_to dx dy (i, j)"
  shows "line_next dx dy (i, j) \<in> {(i, j + 1), (i + 1, j + 1)} \<and> close_to dx dy (line_next dx dy (i, j))"
proof -
  define D where "D = j * dx - i * dy"
  have "2 * \<bar>i * dy - j * dx\<bar> \<le> dy" using p d by (simp add: close_to_def)
  then have "2 * \<bar>D\<bar> \<le> dy" unfolding D_def by (simp add: abs_minus_commute)
  then have D: "2 * D \<le> dy" "- dy \<le> 2 * D" by (simp_all add: abs_if split: if_splits)
  have e: "(j + 1) * dx - (i + 1) * dy = D + dx - dy" "i * dy - (j + 1) * dx = - D - dx"
    "(i + 1) * dy - (j + 1) * dx = dy - D - dx"
    by (simp_all add: D_def algebra_simps)
  have n: "line_next dx dy (i, j) = (if - dy < 2 * (D + dx - dy) then i + 1 else i,
      if 2 * (D + dx - dy) < dx then j + 1 else j)"
    by (simp only: line_next_def Let_def prod.case e)
  have c: "close_to dx dy (i, j + 1) \<longleftrightarrow> 2 * \<bar>- D - dx\<bar> \<le> dy"
    "close_to dx dy (i + 1, j + 1) \<longleftrightarrow> 2 * \<bar>dy - D - dx\<bar> \<le> dy"
    using d by (simp_all add: close_to_def e)
  have "2 * (D + dx - dy) < dx" using D d by simp
  moreover have "- dy < 2 * (D + dx - dy) \<Longrightarrow> 2 * \<bar>dy - D - dx\<bar> \<le> dy" using D d by (simp add: abs_if)
  moreover have "\<not> - dy < 2 * (D + dx - dy) \<Longrightarrow> 2 * \<bar>- D - dx\<bar> \<le> dy" using D d by (simp add: abs_if)
  ultimately show ?thesis unfolding n using c by (cases "- dy < 2 * (D + dx - dy)") simp_all
qed

lemma diagonal_step: "0 < d \<Longrightarrow> line_next d d (i, i) = (i + 1, i + 1)"
  by (simp add: line_next_def Let_def)

lemma close_end:
  assumes "0 \<le> dy" and "dy < dx" and "close_to dx dy (dx, j)"
  shows "j = dy"
proof (rule ccontr)
  assume "j \<noteq> dy"
  then have "1 \<le> \<bar>dy - j\<bar>" by linarith
  then have "dx \<le> dx * \<bar>dy - j\<bar>" using assms(1,2) by (simp add: mult_le_cancel_left1)
  also have "\<dots> = \<bar>dx * dy - j * dx\<bar>" using assms(1,2) by (simp add: abs_mult flip: right_diff_distrib mult.commute)
  finally show False using assms by (simp add: close_to_def)
qed

lemma close_swap: "close_to dx dy (i, j) = close_to dy dx (j, i)"
  by (simp add: close_to_def abs_minus_commute max.commute)

lemma line_loop_draws:
  assumes "\<bar>sx\<bar> = 1" and "\<bar>sy\<bar> = 1" and "0 \<le> dx" and "0 \<le> dy"
  shows "\<exists>ws. line_loop fb (x0 + sx * dx) (y0 + sy * dy) dx dy sx sy x0 y0 (dx - dy) c m
      = Some (fold (\<lambda>(x, y). fb_draw_pixel fb x y c) (map (on_grid x0 y0 sx sy) ws) m)
    \<and> ws \<noteq> [] \<and> hd ws = (0, 0) \<and> last ws = (dx, dy) \<and> length ws = Suc (nat (max dx dy))
    \<and> successively near ws \<and> list_all (close_to dx dy) ws"
proof -
  note walk = line_loop_walk [OF assms(1,2), where i = 0 and j = 0 and dx = dx and dy = dy, simplified]
  consider "dy < dx" | "dx < dy" | "dx = dy" by linarith
  then show ?thesis
  proof cases
    case 1
    let ?I = "\<lambda>(i, j). i \<le> dx \<and> close_to dx dy (i, j)" and ?\<mu> = "\<lambda>(i, j). nat (dx - i)"
    have "?I (line_next dx dy p) \<and> ?\<mu> p = Suc (?\<mu> (line_next dx dy p))" if "?I p" "p \<noteq> (dx, dy)" for p
    proof -
      obtain i j where p: "p = (i, j)" by force
      with that close_end [OF assms(4) 1, of j] have "i < dx" by (cases "i = dx") auto
      then show ?thesis using that flat_step [OF assms(4) 1, of i j] unfolding p by auto
    qed
    from walk [where I = ?I and \<mu> = ?\<mu> and Q = "close_to dx dy", OF this]
    show ?thesis using assms 1 by (auto simp: close_to_def max_def)
  next
    case 2
    let ?I = "\<lambda>(i, j). j \<le> dy \<and> close_to dx dy (i, j)" and ?\<mu> = "\<lambda>(i, j). nat (dy - j)"
    have "?I (line_next dx dy p) \<and> ?\<mu> p = Suc (?\<mu> (line_next dx dy p))" if "?I p" "p \<noteq> (dx, dy)" for p
    proof -
      obtain i j where p: "p = (i, j)" by force
      with that close_end [OF assms(3) 2, of i] have "j < dy"
        by (cases "j = dy") (auto simp: close_swap [of dx dy])
      then show ?thesis using that steep_step [OF assms(3) 2, of i j] unfolding p by auto
    qed
    from walk [where I = ?I and \<mu> = ?\<mu> and Q = "close_to dx dy", OF this]
    show ?thesis using assms 2 by (auto simp: close_to_def max_def)
  next
    case 3
    let ?I = "\<lambda>(i, j). 0 \<le> i \<and> i \<le> dx \<and> j = i" and ?\<mu> = "\<lambda>(i, j). nat (dx - i)"
    have "?I (line_next dx dy p) \<and> ?\<mu> p = Suc (?\<mu> (line_next dx dy p))" if "?I p" "p \<noteq> (dx, dy)" for p
      using that 3 assms(3) by (cases "0 < dx") (auto simp: diagonal_step)
    from walk [where I = ?I and \<mu> = ?\<mu> and Q = "close_to dx dy", OF this]
    show ?thesis using assms 3 by (auto simp: close_to_def)
  qed
qed


end
