(* ===== verification/Fb_Console.thy ===== *)
theory Fb_Console
  imports Framebuffer Text_Screen
begin

text \<open>
  The text console on the framebuffer, \<^verbatim>\<open>src/src/drivers/graphics/fb_console.c\<close>: a grid of cells
  of 8 by 16 pixels with a cursor.  The state holds the console's structure, the position of the
  cursor that was drawn last, and the memory the framebuffer lies in.
\<close>

section \<open>State\<close>

record fb_console =
  con_fb :: framebuffer
  cursor_col :: int
  cursor_row :: int
  max_cols :: int
  max_rows :: int
  fg_color :: u32
  bg_color :: u32
  last_cursor_col :: int
  last_cursor_row :: int
  vmem :: vram

definition vga_palette :: "u32 list" where
  "vga_palette = [0x000000, 0x0000AA, 0x00AA00, 0x00AAAA, 0xAA0000, 0xAA00AA, 0xAA5500, 0xAAAAAA,
     0x555555, 0x5555FF, 0x55FF55, 0x55FFFF, 0xFF5555, 0xFF55FF, 0xFFFF55, 0xFFFFFF]"

section \<open>Operations\<close>

text \<open>The pointer itself is never null: it is the address of the one framebuffer.\<close>

definition framebuffer_check :: "framebuffer \<Rightarrow> bool" where
  "framebuffer_check fb \<longleftrightarrow> f_address fb \<noteq> 0 \<and> f_bpp fb > 0 \<and> f_height fb > 0 \<and> f_pitch fb > 0
     \<and> f_width fb > 0"

definition fb_console_init :: "framebuffer \<Rightarrow> fb_console \<Rightarrow> fb_console" where
  "fb_console_init fb s =
     (let s = s\<lparr>con_fb := fb\<rparr>
      in if framebuffer_check fb
         then s\<lparr>cursor_col := 0, cursor_row := 0, max_cols := uint (f_width fb div 8),
                max_rows := uint (f_height fb div 16), fg_color := COLOR_WHITE,
                bg_color := COLOR_BLACK, vmem := fb_clear fb COLOR_BLACK (vmem s)\<rparr>
         else s)"

definition fb_console_set_color :: "u32 \<Rightarrow> u32 \<Rightarrow> fb_console \<Rightarrow> fb_console" where
  "fb_console_set_color fg bg s =
     (let fg = (if fg \<noteq> 0 then fg else COLOR_WHITE); bg = (if bg \<noteq> 0 then bg else COLOR_BLACK)
      in s\<lparr>bg_color := bg, fg_color := fg\<rparr>)"

definition fb_console_clear :: "fb_console \<Rightarrow> fb_console" where
  "fb_console_clear s =
     s\<lparr>vmem := fb_clear (con_fb s) (bg_color s) (vmem s), cursor_col := 0, cursor_row := 0\<rparr>"

definition fb_scroll :: "fb_console \<Rightarrow> fb_console" where
  "fb_scroll s = s\<lparr>cursor_row := max_rows s - 1\<rparr>"

definition newline :: "fb_console \<Rightarrow> fb_console" where
  "newline s =
     (let s = s\<lparr>cursor_col := 0, cursor_row := cursor_row s + 1\<rparr>
      in if cursor_row s \<ge> max_rows s then fb_scroll s else s)"

definition draw_at :: "int \<Rightarrow> int \<Rightarrow> u8 \<Rightarrow> u32 \<Rightarrow> u32 \<Rightarrow> fb_console \<Rightarrow> fb_console" where
  "draw_at px py c fg bg s = s\<lparr>vmem := fb_draw_char (con_fb s) px py c fg bg (vmem s)\<rparr>"

definition fb_console_putchar :: "u8 \<Rightarrow> fb_console \<Rightarrow> fb_console" where
  "fb_console_putchar c s =
     (if c = 10 then newline s
      else
       let px_x = cursor_col s * 8; px_y = cursor_row s * 16;
           s = draw_at px_x px_y c (fg_color s) (bg_color s) s;
           s = s\<lparr>cursor_col := cursor_col s + 1\<rparr>
       in if cursor_col s \<ge> max_cols s then newline s else s)"

definition fb_console_print :: "u8 list \<Rightarrow> fb_console \<Rightarrow> fb_console" where
  "fb_console_print = fold fb_console_putchar"

definition fb_console_set_pos :: "int \<Rightarrow> int \<Rightarrow> fb_console \<Rightarrow> fb_console" where
  "fb_console_set_pos col row s =
     (let s = (if \<not> (col < 0 \<or> col \<ge> max_cols s) then s\<lparr>cursor_col := col\<rparr> else s)
      in if \<not> (0 > row \<or> row \<ge> max_rows s) then s\<lparr>cursor_row := row\<rparr> else s)"

definition fb_console_get_col :: "fb_console \<Rightarrow> int" where
  "fb_console_get_col s = cursor_col s"

definition fb_console_get_row :: "fb_console \<Rightarrow> int" where
  "fb_console_get_row s = cursor_row s"

definition fb_console_backspace :: "fb_console \<Rightarrow> fb_console" where
  "fb_console_backspace s =
     (if cursor_col s \<le> 0 \<and> cursor_row s \<le> 0 then s
      else
       let s = (if cursor_col s > 0 then s\<lparr>cursor_col := cursor_col s - 1\<rparr>
                else s\<lparr>cursor_row := cursor_row s - 1, cursor_col := max_cols s - 1\<rparr>)
       in draw_at (cursor_col s * 8) (cursor_row s * 16) 0x20 (fg_color s) (bg_color s) s)"

definition draw_bar :: "int \<Rightarrow> int \<Rightarrow> u32 \<Rightarrow> fb_console \<Rightarrow> fb_console" where
  "draw_bar col row c s =
     (let px = col * 8; py = row * 16 + 14
      in s\<lparr>vmem := fb_draw_rect (con_fb s) px py 8 2 c (vmem s)\<rparr>)"

definition fb_console_set_cursor :: "int \<Rightarrow> int \<Rightarrow> fb_console \<Rightarrow> fb_console" where
  "fb_console_set_cursor col row s =
     (let s = (if last_cursor_col s \<ge> 0 \<and> last_cursor_row s \<ge> 0
               then draw_bar (last_cursor_col s) (last_cursor_row s) (bg_color s) s else s);
          s = draw_bar col row (fg_color s) s
      in s\<lparr>last_cursor_col := col, last_cursor_row := row\<rparr>)"

definition fb_console_write_at :: "int \<Rightarrow> int \<Rightarrow> u8 \<Rightarrow> fb_console \<Rightarrow> fb_console" where
  "fb_console_write_at x y c s =
     (let px = x * 8; py = y * 16 in draw_at px py c (fg_color s) (bg_color s) s)"

fun fb_console_write_str_at :: "int \<Rightarrow> int \<Rightarrow> u8 list \<Rightarrow> fb_console \<Rightarrow> fb_console" where
  "fb_console_write_str_at x y [] s = s"
| "fb_console_write_str_at x y (c # str) s =
     fb_console_write_str_at (x + 1) y str (fb_console_write_at x y c s)"

text \<open>The width and the height of the rectangle are those of the whole framebuffer.\<close>

definition fb_console_clear_line :: "int \<Rightarrow> fb_console \<Rightarrow> fb_console" where
  "fb_console_clear_line y s =
     s\<lparr>vmem := fb_draw_rect (con_fb s) 0 (y * 16) (sint (f_width (con_fb s)))
         (sint (f_height (con_fb s))) (bg_color s) (vmem s)\<rparr>"

definition fb_console_write_at_color :: "int \<Rightarrow> int \<Rightarrow> u8 \<Rightarrow> u8 \<Rightarrow> fb_console \<Rightarrow> fb_console" where
  "fb_console_write_at_color x y c color s =
     (let fg_idx = color AND 0x0F; bg_idx = drop_bit 4 color AND 0x0F;
          fg_rgb = vga_palette ! unat fg_idx; bg_rgb = vga_palette ! unat bg_idx
      in draw_at (x * 8) (y * 16) c fg_rgb bg_rgb s)"

definition fb_console_get_width :: "fb_console \<Rightarrow> int" where
  "fb_console_get_width s = max_cols s"

definition fb_console_get_height :: "fb_console \<Rightarrow> int" where
  "fb_console_get_height s = max_rows s"

section \<open>The cells of the screen\<close>

lemma sint_small:
  assumes "uint (w :: u32) < 2 ^ 31"
  shows "sint w = uint w"
proof -
  have "- (2 ^ 31) \<le> uint w" by (rule order_trans [of _ 0]) simp_all
  then show ?thesis using assms signed_take_bit_int_eq_self [of 31 "uint w"] by (simp add: sint_uint)
qed

definition con_ok :: "fb_console \<Rightarrow> bool" where
  "con_ok s \<longleftrightarrow> fb_ok (con_fb s) \<and> max_cols s * 8 \<le> uint (f_width (con_fb s))
     \<and> max_rows s * 16 \<le> uint (f_height (con_fb s))
     \<and> 0 \<le> cursor_col s \<and> cursor_col s < max_cols s \<and> 0 \<le> cursor_row s \<and> cursor_row s < max_rows s"

definition con_pos :: "fb_console \<Rightarrow> int \<times> int" where
  "con_pos s = (fb_console_get_col s, fb_console_get_row s)"

definition pixel :: "fb_console \<Rightarrow> int \<Rightarrow> int \<Rightarrow> u32" where
  "pixel s x y = pixel_at (con_fb s) (vmem s) x y"

text \<open>The pixel belongs to the cell in column \<open>cx\<close> and row \<open>cy\<close>.\<close>

definition in_cell :: "int \<Rightarrow> int \<Rightarrow> int \<Rightarrow> int \<Rightarrow> bool" where
  "in_cell cx cy x y \<longleftrightarrow> cx * 8 \<le> x \<and> x < cx * 8 + 8 \<and> cy * 16 \<le> y \<and> y < cy * 16 + 16"

lemma in_cell_div: "in_cell cx cy x y \<longleftrightarrow> x div 8 = cx \<and> y div 16 = cy"
  unfolding in_cell_def by linarith

text \<open>The cell shows a character.\<close>

definition glyph_color :: "u8 \<Rightarrow> u32 \<Rightarrow> u32 \<Rightarrow> int \<Rightarrow> int \<Rightarrow> u32" where
  "glyph_color c fg bg x y = (if glyph_bit c (x mod 8) (y mod 16) then fg else bg)"

lemma draw_at_fields [simp]:
  "con_fb (draw_at x y c fg bg s) = con_fb s" "max_cols (draw_at x y c fg bg s) = max_cols s"
  "max_rows (draw_at x y c fg bg s) = max_rows s" "cursor_col (draw_at x y c fg bg s) = cursor_col s"
  "cursor_row (draw_at x y c fg bg s) = cursor_row s" "fg_color (draw_at x y c fg bg s) = fg_color s"
  "bg_color (draw_at x y c fg bg s) = bg_color s"
  "last_cursor_col (draw_at x y c fg bg s) = last_cursor_col s"
  "last_cursor_row (draw_at x y c fg bg s) = last_cursor_row s"
  by (simp_all add: draw_at_def)

lemma pixel_draw_at:
  assumes "fb_ok (con_fb s)" and "fb_in_bounds (con_fb s) x y"
  shows "pixel (draw_at (cx * 8) (cy * 16) c fg bg s) x y
    = (if in_cell cx cy x y then glyph_color c fg bg x y else pixel s x y)"
proof -
  have "x - cx * 8 = x mod 8" "y - cy * 16 = y mod 16" if "in_cell cx cy x y"
    using that unfolding in_cell_div by (auto simp: minus_div_mult_eq_mod)
  then show ?thesis
    by (auto simp: pixel_def draw_at_def pixel_at_draw_char [OF assms] in_cell_def glyph_color_def)
qed

lemma pixel_draw_bar:
  assumes "fb_ok (con_fb s)" and "fb_in_bounds (con_fb s) x y"
  shows "pixel (draw_bar cx cy c s) x y
    = (if in_cell cx cy x y \<and> 14 \<le> y mod 16 then c else pixel s x y)"
proof -
  have "cx * 8 \<le> x \<and> x < cx * 8 + 8 \<and> cy * 16 + 14 \<le> y \<and> y < cy * 16 + 14 + 2
      \<longleftrightarrow> in_cell cx cy x y \<and> 14 \<le> y mod 16"
    unfolding in_cell_def by presburger
  moreover have "pixel (draw_bar cx cy c s) x y
      = pixel_at (con_fb s) (fb_draw_rect (con_fb s) (cx * 8) (cy * 16 + 14) 8 2 c (vmem s)) x y"
    by (simp add: pixel_def draw_bar_def Let_def)
  ultimately show ?thesis by (simp only: pixel_at_draw_rect [OF assms] pixel_def)
qed

lemma draw_bar_fields [simp]:
  "con_fb (draw_bar x y c s) = con_fb s" "fg_color (draw_bar x y c s) = fg_color s"
  "bg_color (draw_bar x y c s) = bg_color s"
  by (simp_all add: draw_bar_def Let_def)

lemma newline_fields [simp]:
  "con_fb (newline s) = con_fb s" "max_cols (newline s) = max_cols s" "max_rows (newline s) = max_rows s"
  "vmem (newline s) = vmem s" "pixel (newline s) x y = pixel s x y" "cursor_col (newline s) = 0"
  "cursor_row (newline s) = (if cursor_row s + 1 \<ge> max_rows s then max_rows s - 1 else cursor_row s + 1)"
  "fg_color (newline s) = fg_color s" "bg_color (newline s) = bg_color s"
  "last_cursor_col (newline s) = last_cursor_col s" "last_cursor_row (newline s) = last_cursor_row s"
  by (simp_all add: newline_def fb_scroll_def Let_def pixel_def)

lemma putchar_fields [simp]:
  "con_fb (fb_console_putchar c s) = con_fb s" "max_cols (fb_console_putchar c s) = max_cols s"
  "max_rows (fb_console_putchar c s) = max_rows s"
  "fg_color (fb_console_putchar c s) = fg_color s" "bg_color (fb_console_putchar c s) = bg_color s"
  "last_cursor_col (fb_console_putchar c s) = last_cursor_col s"
  "last_cursor_row (fb_console_putchar c s) = last_cursor_row s"
  by (simp_all add: fb_console_putchar_def Let_def)

lemma putchar_pos:
  assumes "con_ok s"
  shows "con_pos (fb_console_putchar c s) = advance (max_cols s) (max_rows s) c (con_pos s)"
  using assms
  by (auto simp: con_ok_def con_pos_def fb_console_get_col_def fb_console_get_row_def advance_def
      fb_console_putchar_def Let_def)

lemma putchar_ok:
  assumes "con_ok s"
  shows "con_ok (fb_console_putchar c s)"
  using assms by (auto simp: con_ok_def fb_console_putchar_def Let_def)

interpretation con: text_screen fb_console_putchar con_pos max_cols max_rows con_ok
proof unfold_locales
  show "0 \<le> fst (con_pos s) \<and> fst (con_pos s) < max_cols s \<and> 0 \<le> snd (con_pos s) \<and>
      snd (con_pos s) < max_rows s" if "con_ok s" for s
    using that by (simp add: con_ok_def con_pos_def fb_console_get_col_def fb_console_get_row_def)
qed (simp_all add: putchar_pos putchar_ok)

lemma pixel_putchar:
  assumes "con_ok s" and "fb_in_bounds (con_fb s) x y"
  shows "pixel (fb_console_putchar c s) x y
    = (if c \<noteq> 10 \<and> in_cell (cursor_col s) (cursor_row s) x y
       then glyph_color c (fg_color s) (bg_color s) x y else pixel s x y)"
proof -
  have ok: "fb_ok (con_fb s)" using assms(1) by (simp add: con_ok_def)
  have p: "pixel (t\<lparr>cursor_col := k\<rparr>) x y = pixel t x y" for t k by (simp add: pixel_def)
  show ?thesis
    by (simp add: fb_console_putchar_def Let_def p pixel_draw_at [OF ok assms(2)])
qed

text \<open>A console set up on a framebuffer that passes the check is ready.\<close>

lemma fb_console_init_ok:
  assumes "fb_ok fb" and "f_width fb \<ge> 8" and "f_height fb \<ge> 16" and "f_address fb \<noteq> 0" and "f_bpp fb > 0"
  shows "con_ok (fb_console_init fb s)"
proof -
  have w: "8 \<le> uint (f_width fb)" "16 \<le> uint (f_height fb)"
    using assms(2,3) by (simp_all add: word_le_def)
  moreover have "4 * uint (f_width fb) \<le> uint (f_pitch fb)" using assms(1) by (simp add: fb_ok_def)
  ultimately have "f_pitch fb > 0" by (simp add: word_less_def)
  then have "framebuffer_check fb" using assms w by (simp add: framebuffer_check_def word_less_def)
  then show ?thesis using assms(1) w
    by (simp add: con_ok_def fb_console_init_def Let_def uint_div) linarith
qed

text \<open>
  Clearing one line of the framebuffer console also clears every line below it: the rectangle is as
  high as the framebuffer.
\<close>

theorem clear_line_clears_the_rest:
  assumes "con_ok s" and "f_width (con_fb s) < 2 ^ 31" and "f_height (con_fb s) < 2 ^ 31"
    and "fb_in_bounds (con_fb s) x y" and "0 \<le> l"
  shows "pixel (fb_console_clear_line l s) x y = (if y < l * 16 then pixel s x y else bg_color s)"
proof -
  have ok: "fb_ok (con_fb s)" using assms(1) by (simp add: con_ok_def)
  have "sint (f_width (con_fb s)) = uint (f_width (con_fb s))"
    "sint (f_height (con_fb s)) = uint (f_height (con_fb s))"
    using assms(2,3) sint_small by (simp_all add: word_less_def)
  then show ?thesis using assms(4,5)
    by (auto simp: fb_console_clear_line_def pixel_def pixel_at_draw_rect [OF ok assms(4)] fb_in_bounds_def)
qed

definition small_console :: fb_console where
  "small_console = fb_console_init small_fb \<lparr>con_fb = small_fb, cursor_col = 0, cursor_row = 0,
     max_cols = 0, max_rows = 0, fg_color = 0, bg_color = 0, last_cursor_col = -1,
     last_cursor_row = -1, vmem = (\<lambda>_. 0)\<rparr>"

lemma small_console_ok: "con_ok small_console"
  unfolding small_console_def by (rule fb_console_init_ok [OF small_fb_ok]) (simp_all add: small_fb_def)

lemma small_console_fb [simp]: "con_fb small_console = small_fb"
  by (simp add: small_console_def fb_console_init_def Let_def)

lemma clear_line_clears_the_rest_witness:
  "pixel (fb_console_clear_line 3 small_console) 100 400 = bg_color small_console"
proof -
  have "fb_in_bounds (con_fb small_console) 100 400" by (simp add: fb_in_bounds_def small_fb_def)
  from clear_line_clears_the_rest [OF small_console_ok _ _ this, of 3] show ?thesis
    by (simp add: small_fb_def)
qed

end
