(* ===== verification/Console.thy ===== *)
theory Console
  imports Vga Fb_Console
begin

text \<open>
  The console of the kernel, \<^verbatim>\<open>src/src/kernel/console.c\<close>: it writes to the framebuffer console or
  to the VGA text mode, whichever the bootloader set up, and prints numbers and formats.
\<close>

section \<open>State and dispatch\<close>

record console =
  use_fb :: bool
  fbc :: fb_console
  vtx :: vga_text

definition console_init :: "BootInfo \<Rightarrow> console \<Rightarrow> console" where
  "console_init info s =
     (if fb_addr info \<noteq> 0 then s\<lparr>fbc := fb_console_init (fb_init info) (fbc s), use_fb := True\<rparr>
      else s\<lparr>use_fb := False\<rparr>)"

definition console_get_col :: "console \<Rightarrow> int" where
  "console_get_col s = (if use_fb s then fb_console_get_col (fbc s) else vga_get_col (vtx s))"

definition console_get_row :: "console \<Rightarrow> int" where
  "console_get_row s = (if use_fb s then fb_console_get_row (fbc s) else vga_get_row (vtx s))"

definition console_set_cursor :: "int \<Rightarrow> int \<Rightarrow> console \<Rightarrow> console" where
  "console_set_cursor col row s =
     (if use_fb s then s\<lparr>fbc := fb_console_set_cursor col row (fbc s)\<rparr>
      else s\<lparr>vtx := vga_set_cursor col row (vtx s)\<rparr>)"

definition console_putchar :: "u8 \<Rightarrow> console \<Rightarrow> console" where
  "console_putchar c s =
     (let s = (if use_fb s then s\<lparr>fbc := fb_console_putchar c (fbc s)\<rparr>
               else s\<lparr>vtx := vga_putchar c (vtx s)\<rparr>)
      in console_set_cursor (console_get_col s) (console_get_row s) s)"

definition console_print :: "u8 list \<Rightarrow> console \<Rightarrow> console" where
  "console_print = fold console_putchar"

definition console_clear :: "console \<Rightarrow> console" where
  "console_clear s =
     (if use_fb s then s\<lparr>fbc := fb_console_clear (fbc s)\<rparr> else s\<lparr>vtx := vga_clear (vtx s)\<rparr>)"

definition console_set_pos :: "int \<Rightarrow> int \<Rightarrow> console \<Rightarrow> console" where
  "console_set_pos col row s =
     (let s = (if use_fb s then s\<lparr>fbc := fb_console_set_pos col row (fbc s)\<rparr>
               else s\<lparr>vtx := vga_set_pos col row (vtx s)\<rparr>)
      in console_set_cursor col row s)"

definition console_backspace :: "console \<Rightarrow> console" where
  "console_backspace s =
     (if use_fb s then s\<lparr>fbc := fb_console_backspace (fbc s)\<rparr> else s\<lparr>vtx := vga_backspace (vtx s)\<rparr>)"

definition console_write_at :: "int \<Rightarrow> int \<Rightarrow> u8 \<Rightarrow> console \<Rightarrow> console" where
  "console_write_at x y c s =
     (if use_fb s then s\<lparr>fbc := fb_console_write_at x y c (fbc s)\<rparr>
      else s\<lparr>vtx := vga_write_at x y c (vtx s)\<rparr>)"

definition console_write_str_at :: "int \<Rightarrow> int \<Rightarrow> u8 list \<Rightarrow> console \<Rightarrow> console" where
  "console_write_str_at x y str s =
     (if use_fb s then s\<lparr>fbc := fb_console_write_str_at x y str (fbc s)\<rparr>
      else s\<lparr>vtx := vga_write_str_at x y str (vtx s)\<rparr>)"

definition console_clear_line :: "int \<Rightarrow> console \<Rightarrow> console" where
  "console_clear_line y s =
     (if use_fb s then s\<lparr>fbc := fb_console_clear_line y (fbc s)\<rparr>
      else s\<lparr>vtx := vga_clear_line y (vtx s)\<rparr>)"

definition console_write_at_color :: "int \<Rightarrow> int \<Rightarrow> u8 \<Rightarrow> u8 \<Rightarrow> console \<Rightarrow> console" where
  "console_write_at_color x y c color s =
     (if use_fb s then s\<lparr>fbc := fb_console_write_at_color x y c color (fbc s)\<rparr>
      else s\<lparr>vtx := vga_write_at_color x y c color (vtx s)\<rparr>)"

definition console_get_width :: "console \<Rightarrow> int" where
  "console_get_width s = (if use_fb s then fb_console_get_width (fbc s) else VGA_BREITE)"

definition console_get_height :: "console \<Rightarrow> int" where
  "console_get_height s = (if use_fb s then fb_console_get_height (fbc s) else VGA_HOEHE)"

section \<open>Numbers\<close>

text \<open>
  \<^verbatim>\<open>while (zahl > 0)\<close> puts the digits into a buffer, the last one first; the buffer is printed
  backwards.  The loop runs in \<open>nat\<close>: the value is at most \<open>2 ^ 64 - 1\<close>, so the buffer of 20 bytes
  holds its digits.
\<close>

fun digits_of :: "nat \<Rightarrow> nat \<Rightarrow> nat list" where
  "digits_of b z = (if z = 0 \<or> b < 2 then [] else z mod b # digits_of b (z div b))"

declare digits_of.simps [simp del]

definition digit_char :: "nat \<Rightarrow> u8" where
  "digit_char d = (if d < 10 then 0x30 + of_nat d else 0x41 + of_nat (d - 10))"

definition print_digits :: "nat \<Rightarrow> nat \<Rightarrow> console \<Rightarrow> console" where
  "print_digits b z s =
     (let puffer = map digit_char (digits_of b z) in fold console_putchar (rev puffer) s)"

text \<open>\<^verbatim>\<open>zahl = -zahl\<close> wraps around for the least \<^verbatim>\<open>int\<close>, and then the loop does not run.\<close>

definition print_zahl :: "u32 \<Rightarrow> console \<Rightarrow> console" where
  "print_zahl zahl s =
     (if zahl = 0 then console_putchar 0x30 s
      else
       let (zahl, s) = (if zahl <s 0 then (- zahl, console_putchar 0x2D s) else (zahl, s))
       in print_digits 10 (nat (sint zahl)) s)"

definition print_hex :: "u64 \<Rightarrow> console \<Rightarrow> console" where
  "print_hex zahl s =
     (if zahl = 0 then console_print [0x30, 0x78, 0x30] s
      else let s = console_print [0x30, 0x78] s in print_digits 16 (unat zahl) s)"

definition print_uint :: "u32 \<Rightarrow> console \<Rightarrow> console" where
  "print_uint zahl s =
     (if zahl = 0 then console_putchar 0x30 s else print_digits 10 (unat zahl) s)"

section \<open>Formats\<close>

text \<open>
  The arguments of \<^verbatim>\<open>kprintf\<close>: a number in its 64-bit slot, of which \<^verbatim>\<open>%d\<close>, \<^verbatim>\<open>%u\<close> and
  \<^verbatim>\<open>%c\<close> read the low bits, or a string.  \<open>None\<close> stands for what C leaves undefined: an
  argument that is missing or of the other kind, and a format that ends in \<^verbatim>\<open>%\<close>, where the loop
  steps over the terminator.
\<close>

datatype kp_arg = KNum u64 | KStr "u8 list"

fun kprintf :: "u8 list \<Rightarrow> kp_arg list \<Rightarrow> console \<Rightarrow> console option" where
  "kprintf [] args s = Some s"
| "kprintf (c # fmt) args s =
     (if c = 0x25 then
        (case fmt of
           [] \<Rightarrow> None
         | f # fmt \<Rightarrow>
             if f = 0x64 then
               (case args of KNum v # args \<Rightarrow> kprintf fmt args (print_zahl (ucast v) s) | _ \<Rightarrow> None)
             else if f = 0x73 then
               (case args of KStr str # args \<Rightarrow> kprintf fmt args (console_print str s) | _ \<Rightarrow> None)
             else if f = 0x78 then
               (case args of KNum v # args \<Rightarrow> kprintf fmt args (print_hex v s) | _ \<Rightarrow> None)
             else if f = 0x63 then
               (case args of KNum v # args \<Rightarrow> kprintf fmt args (console_putchar (ucast v) s) | _ \<Rightarrow> None)
             else if f = 0x75 then
               (case args of KNum v # args \<Rightarrow> kprintf fmt args (print_uint (ucast v) s) | _ \<Rightarrow> None)
             else if f = 0x70 then
               (case args of KNum v # args \<Rightarrow> kprintf fmt args (print_hex v s) | _ \<Rightarrow> None)
             else kprintf fmt args s)
      else kprintf fmt args (console_putchar c s))"

section \<open>The console as a screen\<close>

definition console_ok :: "console \<Rightarrow> bool" where
  "console_ok s \<longleftrightarrow> (if use_fb s then con_ok (fbc s) else vga_ok (vtx s))"

definition console_pos :: "console \<Rightarrow> int \<times> int" where
  "console_pos s = (console_get_col s, console_get_row s)"

lemma set_cursor_fields [simp]:
  "con_fb (fb_console_set_cursor x y t) = con_fb t" "max_cols (fb_console_set_cursor x y t) = max_cols t"
  "max_rows (fb_console_set_cursor x y t) = max_rows t"
  "cursor_col (fb_console_set_cursor x y t) = cursor_col t"
  "cursor_row (fb_console_set_cursor x y t) = cursor_row t"
  "last_cursor_col (fb_console_set_cursor x y t) = x" "last_cursor_row (fb_console_set_cursor x y t) = y"
  "fg_color (fb_console_set_cursor x y t) = fg_color t" "bg_color (fb_console_set_cursor x y t) = bg_color t"
  by (simp_all add: fb_console_set_cursor_def draw_bar_def Let_def)

lemma set_cursor_same [simp]:
  "con_ok (fb_console_set_cursor x y t) = con_ok t" "con_pos (fb_console_set_cursor x y t) = con_pos t"
  "vga_ok (vga_set_cursor x y v) = vga_ok v" "vga_pos (vga_set_cursor x y v) = vga_pos v"
  by (simp_all add: con_ok_def con_pos_def fb_console_get_col_def fb_console_get_row_def vga_ok_def
      vga_pos_def vga_get_col_def vga_get_row_def)

lemma console_set_cursor_fields [simp]:
  "use_fb (console_set_cursor x y s) = use_fb s"
  "console_ok (console_set_cursor x y s) = console_ok s"
  "console_get_width (console_set_cursor x y s) = console_get_width s"
  "console_get_height (console_set_cursor x y s) = console_get_height s"
  by (simp_all add: console_set_cursor_def console_ok_def console_get_width_def console_get_height_def
      fb_console_get_width_def fb_console_get_height_def)

lemma console_pos_cases:
  "console_pos s = (if use_fb s then con_pos (fbc s) else vga_pos (vtx s))"
  by (simp add: console_pos_def console_get_col_def console_get_row_def con_pos_def vga_pos_def)

lemma console_pos_set_cursor [simp]: "console_pos (console_set_cursor x y s) = console_pos s"
  by (simp add: console_pos_cases console_set_cursor_def)

lemmas console_size = console_get_width_def console_get_height_def fb_console_get_width_def
  fb_console_get_height_def

interpretation console: text_screen console_putchar console_pos console_get_width console_get_height
  console_ok
proof unfold_locales
  show "0 \<le> fst (console_pos s) \<and> fst (console_pos s) < console_get_width s \<and>
      0 \<le> snd (console_pos s) \<and> snd (console_pos s) < console_get_height s" if "console_ok s" for s
    using that con.ok_pos [of "fbc s"] vga.ok_pos [of "vtx s"]
    by (cases "use_fb s") (simp_all add: console_ok_def console_pos_cases console_size)
  show "console_ok (console_putchar c s)" if "console_ok s" for c s
    using that con.put_ok [of "fbc s" c] vga.put_ok [of "vtx s" c]
    by (cases "use_fb s") (simp_all add: console_putchar_def Let_def, simp_all add: console_ok_def)
  show "console_get_width (console_putchar c s) = console_get_width s \<and>
      console_get_height (console_putchar c s) = console_get_height s" if "console_ok s" for c s
    by (cases "use_fb s") (simp_all add: console_putchar_def Let_def, simp_all add: console_size)
  show "console_pos (console_putchar c s)
      = advance (console_get_width s) (console_get_height s) c (console_pos s)" if "console_ok s" for c s
    using that con.put_pos [of "fbc s" c] vga.put_pos [of "vtx s" c]
    by (cases "use_fb s")
      (simp_all add: console_putchar_def Let_def, simp_all add: console_pos_cases console_size console_ok_def)
qed

text \<open>
  A text without line breaks that fits into the line leaves the cursor right behind it, on either
  screen.
\<close>

theorem console_print_line:
  assumes "console_ok s" and "10 \<notin> set str"
    and "console_get_col s + int (length str) < console_get_width s"
  shows "console_pos (console_print str s) = (console_get_col s + int (length str), console_get_row s)
    \<and> console_ok (console_print str s)"
  using console.print_line [of s str] console.print_pos [of s str] assms
  by (simp add: console_print_def console_pos_def)

definition fb_screen :: console where
  "fb_screen = \<lparr>use_fb = True, fbc = small_console, vtx = blank_vga\<rparr>"

lemma fb_screen_ok: "console_ok fb_screen"
  by (simp add: fb_screen_def console_ok_def small_console_ok)

lemma console_print_line_witness:
  "console_pos (console_print [0x4C, 0x69, 0x76, 0x6C, 0x79] fb_screen) = (5, 0)"
proof -
  have "console_get_width fb_screen = 80" "console_get_col fb_screen = 0" "console_get_row fb_screen = 0"
    by (simp_all add: fb_screen_def console_get_width_def console_get_col_def console_get_row_def
        fb_console_get_width_def fb_console_get_col_def fb_console_get_row_def small_console_def
        fb_console_init_def framebuffer_check_def small_fb_def Let_def)
  with console_print_line [OF fb_screen_ok, of "[0x4C, 0x69, 0x76, 0x6C, 0x79]"]
  show ?thesis by simp
qed

section \<open>The cursor and the characters\<close>

text \<open>
  On the framebuffer the cursor is a bar in the last two rows of its cell.  A character is drawn over
  the bar and then the old bar is erased with the background: the last two rows of the character
  just drawn are lost, so an underscore is not visible.
\<close>

theorem console_putchar_loses_rows:
  assumes "use_fb s" and "con_ok (fbc s)" and "c \<noteq> 10"
    and "last_cursor_col (fbc s) = cursor_col (fbc s)" and "last_cursor_row (fbc s) = cursor_row (fbc s)"
    and "cursor_col (fbc s) + 1 < max_cols (fbc s)"
    and "fb_in_bounds (con_fb (fbc s)) x y" and "in_cell (cursor_col (fbc s)) (cursor_row (fbc s)) x y"
  shows "pixel (fbc (console_putchar c s)) x y
    = (if y mod 16 < 14 then glyph_color c (fg_color (fbc s)) (bg_color (fbc s)) x y
       else bg_color (fbc s))"
proof -
  let ?t = "fb_console_putchar c (fbc s)"
  have ok: "fb_ok (con_fb ?t)" and r: "0 \<le> cursor_col (fbc s)" "0 \<le> cursor_row (fbc s)"
    using assms(2) by (simp_all add: con_ok_def)
  have p: "cursor_col ?t = cursor_col (fbc s) + 1" "cursor_row ?t = cursor_row (fbc s)"
    using assms(3,6) by (simp_all add: fb_console_putchar_def Let_def)
  have b: "fb_in_bounds (con_fb ?t) x y" using assms(7) by simp
  have f: "pixel (t\<lparr>last_cursor_col := cx, last_cursor_row := cy\<rparr>) x y = pixel t x y"
    for cx cy t by (simp add: pixel_def)
  have "\<not> in_cell (cursor_col (fbc s) + 1) (cursor_row (fbc s)) x y"
    using assms(8) by (auto simp: in_cell_def)
  then have "pixel (fb_console_set_cursor (cursor_col ?t) (cursor_row ?t) ?t) x y
      = (if 14 \<le> y mod 16 then bg_color (fbc s) else pixel ?t x y)"
    using assms(4,5,8) r ok b
    by (simp add: fb_console_set_cursor_def Let_def p f pixel_draw_bar)
  then show ?thesis using assms(1,3,8) pixel_putchar [OF assms(2,7), of c]
    by (simp add: console_putchar_def console_set_cursor_def console_get_col_def console_get_row_def
        fb_console_get_col_def fb_console_get_row_def)
qed

lemma underscore_bar: "glyph_bit 0x5F 3 14"
  by code_simp

definition cursor_home :: console where
  "cursor_home = console_set_cursor 0 0 fb_screen"

lemma cursor_home_fields:
  "use_fb cursor_home" "con_ok (fbc cursor_home)" "con_fb (fbc cursor_home) = small_fb"
  "last_cursor_col (fbc cursor_home) = 0" "last_cursor_row (fbc cursor_home) = 0"
  "cursor_col (fbc cursor_home) = 0" "cursor_row (fbc cursor_home) = 0"
  "max_cols (fbc cursor_home) = 80" "bg_color (fbc cursor_home) = COLOR_BLACK"
  "fg_color (fbc cursor_home) = COLOR_WHITE"
  by (simp_all add: cursor_home_def console_set_cursor_def fb_screen_def small_console_ok,
      simp_all add: small_console_def fb_console_init_def framebuffer_check_def small_fb_def Let_def)

lemma console_putchar_loses_rows_witness:
  "pixel (fbc (console_putchar 0x5F cursor_home)) 3 14 = COLOR_BLACK
    \<and> glyph_color 0x5F COLOR_WHITE COLOR_BLACK 3 14 = COLOR_WHITE"
proof -
  have "fb_in_bounds (con_fb (fbc cursor_home)) 3 14"
    "in_cell (cursor_col (fbc cursor_home)) (cursor_row (fbc cursor_home)) 3 14"
    by (simp_all add: cursor_home_fields fb_in_bounds_def small_fb_def in_cell_def)
  from console_putchar_loses_rows [OF cursor_home_fields(1,2) _ _ _ _ this, of "0x5F"]
  show ?thesis using underscore_bar by (simp add: cursor_home_fields glyph_color_def)
qed

section \<open>Printed numbers\<close>

text \<open>The texts of the three functions.\<close>

definition num_text :: "nat \<Rightarrow> nat \<Rightarrow> u8 list" where
  "num_text b z = rev (map digit_char (digits_of b z))"

definition uint_text :: "u32 \<Rightarrow> u8 list" where
  "uint_text n = (if n = 0 then [0x30] else num_text 10 (unat n))"

definition hex_text :: "u64 \<Rightarrow> u8 list" where
  "hex_text n = [0x30, 0x78] @ (if n = 0 then [0x30] else num_text 16 (unat n))"

definition zahl_text :: "u32 \<Rightarrow> u8 list" where
  "zahl_text n = (if n = 0 then [0x30] else if n <s 0 then 0x2D # num_text 10 (nat (sint (- n)))
     else num_text 10 (nat (sint n)))"

lemma console_print_simps:
  "console_print [] s = s" "console_print (c # str) s = console_print str (console_putchar c s)"
  "console_print (str @ str') s = console_print str' (console_print str s)"
  by (simp_all add: console_print_def)

lemma print_digits_text: "print_digits b z s = console_print (num_text b z) s"
  by (simp add: print_digits_def num_text_def console_print_def)

lemma print_uint_text: "print_uint n s = console_print (uint_text n) s"
  by (simp add: print_uint_def uint_text_def print_digits_text console_print_simps)

lemma print_hex_text: "print_hex n s = console_print (hex_text n) s"
  by (simp add: print_hex_def hex_text_def print_digits_text console_print_simps Let_def)

lemma print_zahl_text: "print_zahl n s = console_print (zahl_text n) s"
  by (simp add: print_zahl_def zahl_text_def print_digits_text console_print_simps Let_def)

text \<open>Reading a number.\<close>

definition char_digit :: "u8 \<Rightarrow> nat" where
  "char_digit c = (if c < 0x41 then unat (c - 0x30) else unat (c - 0x41) + 10)"

definition read_num :: "nat \<Rightarrow> u8 list \<Rightarrow> nat" where
  "read_num b str = foldl (\<lambda>v c. v * b + char_digit c) 0 str"

definition read_int :: "u8 list \<Rightarrow> int" where
  "read_int str = (if str \<noteq> [] \<and> hd str = 0x2D then - int (read_num 10 (tl str)) else int (read_num 10 str))"

lemma digit_chars: "list_all (\<lambda>d. char_digit (digit_char d) = d) [0..<16]"
  by code_simp

lemma char_digit_char: "d < 16 \<Longrightarrow> char_digit (digit_char d) = d"
  using digit_chars unfolding list_all_iff by simp

lemma read_num_snoc: "read_num b (str @ [c]) = read_num b str * b + char_digit c"
  by (simp add: read_num_def)

lemma read_num_text: "1 < b \<Longrightarrow> b \<le> 16 \<Longrightarrow> read_num b (num_text b z) = z"
proof (induction b z rule: digits_of.induct)
  case (1 b z)
  show ?case
  proof (cases "z = 0")
    case True
    then show ?thesis by (simp add: num_text_def digits_of.simps read_num_def)
  next
    case False
    then have t: "num_text b z = num_text b (z div b) @ [digit_char (z mod b)]"
      using "1.prems" by (simp add: num_text_def digits_of.simps [of b z])
    have "z mod b < 16" using "1.prems" mod_less_divisor [of b z] by linarith
    then show ?thesis using 1 False by (simp add: t read_num_snoc char_digit_char)
  qed
qed

lemma length_digits: "1 < b \<Longrightarrow> z < b ^ n \<Longrightarrow> length (digits_of b z) \<le> n"
proof (induction n arbitrary: z)
  case (Suc n)
  then have "z div b < b ^ n" by (simp add: div_less_iff_less_mult mult.commute)
  then show ?case using Suc by (simp add: digits_of.simps [of b z])
qed (simp add: digits_of.simps)

text \<open>What \<^verbatim>\<open>%u\<close> and \<^verbatim>\<open>%x\<close> print reads back as the number, and the buffer of 20 bytes is enough.\<close>

theorem print_unsigned_roundtrip:
  "print_uint n s = console_print (uint_text n) s \<and> read_num 10 (uint_text n) = unat n
    \<and> length (uint_text n) \<le> 10
    \<and> print_hex k s = console_print (hex_text k) s \<and> read_num 16 (drop 2 (hex_text k)) = unat k
    \<and> length (hex_text k) \<le> 2 + 16"
proof -
  have "unat n < 10 ^ 10" "unat k < 16 ^ 16"
    using unsigned_less [of n, where 'a = nat] unsigned_less [of k, where 'a = nat] by simp_all
  then have l: "length (digits_of 10 (unat n)) \<le> 10" "length (digits_of 16 (unat k)) \<le> 16"
    by (auto intro!: length_digits)
  have "print_uint n s = console_print (uint_text n) s \<and> read_num 10 (uint_text n) = unat n
      \<and> length (uint_text n) \<le> 10"
    using l by (simp add: print_uint_text uint_text_def read_num_text) (simp add: num_text_def read_num_def char_digit_def)
  moreover have "print_hex k s = console_print (hex_text k) s \<and> read_num 16 (drop 2 (hex_text k)) = unat k
      \<and> length (hex_text k) \<le> 2 + 16"
    using l by (simp add: print_hex_text hex_text_def read_num_text) (simp add: num_text_def read_num_def char_digit_def)
  ultimately show ?thesis by simp
qed

lemma num_text_head:
  "1 < b \<Longrightarrow> b \<le> 10 \<Longrightarrow> 0 < z \<Longrightarrow> num_text b z \<noteq> [] \<and> hd (num_text b z) \<noteq> 0x2D"
proof (induction b z rule: digits_of.induct)
  case (1 b z)
  have t: "num_text b z = num_text b (z div b) @ [digit_char (z mod b)]"
    using "1.prems" by (simp add: num_text_def digits_of.simps [of b z])
  have "z mod b < 16" using "1.prems" mod_less_divisor [of b z] by linarith
  moreover have "list_all (\<lambda>d. digit_char d \<noteq> 0x2D) [0..<16]" by code_simp
  ultimately have d: "digit_char (z mod b) \<noteq> 0x2D" unfolding list_all_iff by simp
  show ?case
  proof (cases "z div b = 0")
    case True
    then show ?thesis using d t by (simp add: num_text_def digits_of.simps)
  next
    case False
    then show ?thesis using 1 t by simp
  qed
qed

lemma sint_of_int: "- (2 ^ 31) \<le> k \<Longrightarrow> k < 2 ^ 31 \<Longrightarrow> sint (word_of_int k :: u32) = k"
  by (simp add: signed_of_int signed_take_bit_int_eq_self)

lemma sint_neg: "(n :: u32) \<noteq> 0x80000000 \<Longrightarrow> sint (- n) = - sint n"
proof -
  assume n: "n \<noteq> 0x80000000"
  have r: "- (2 ^ 31) \<le> sint n" "sint n < 2 ^ 31" using sint_ge [of n] sint_lt [of n] by simp_all
  have "sint n \<noteq> - (2 ^ 31)"
  proof
    assume "sint n = - (2 ^ 31)"
    moreover have "n = word_of_int (sint n)" by simp
    ultimately show False using n by simp
  qed
  then have "- (2 ^ 31) \<le> - sint n" "- sint n < 2 ^ 31" using r by simp_all
  then have "sint (word_of_int (- sint n) :: u32) = - sint n"
    by (rule sint_of_int)
  moreover have "word_of_int (- sint n) = - n" by simp
  ultimately show ?thesis by simp
qed

text \<open>
  C34: \<^verbatim>\<open>%d\<close> prints every \<^verbatim>\<open>int\<close> except the least one so that it reads back, sign included.
\<close>

theorem print_zahl_roundtrip:
  assumes "n \<noteq> 0x80000000"
  shows "print_zahl n s = console_print (zahl_text n) s \<and> read_int (zahl_text n) = sint n"
proof -
  have z: "sint n = 0 \<longleftrightarrow> n = 0" by (rule signed_eq_0_iff)
  consider "n = 0" | "n \<noteq> 0" "n <s 0" | "n \<noteq> 0" "\<not> n <s 0" by blast
  then have "read_int (zahl_text n) = sint n"
  proof cases
    case 1
    then show ?thesis by (simp add: zahl_text_def read_int_def read_num_def char_digit_def)
  next
    case 2
    then have "sint n < 0" by (simp add: word_sless_alt)
    then show ?thesis using 2
      by (simp add: zahl_text_def read_int_def read_num_text sint_neg [OF assms])
  next
    case 3
    then have "0 < sint n" using z by (simp add: word_sless_alt)
    then show ?thesis using 3 num_text_head [of 10 "nat (sint n)"]
      by (simp add: zahl_text_def read_int_def read_num_text)
  qed
  then show ?thesis by (simp add: print_zahl_text)
qed

lemma print_zahl_roundtrip_witness:
  "read_int (zahl_text (- 42)) = - 42"
  using print_zahl_roundtrip [of "- 42" fb_screen] by simp

text \<open>The least \<^verbatim>\<open>int\<close> is its own negative, and only the sign is printed.\<close>

lemma print_zahl_least: "print_zahl 0x80000000 s = console_putchar 0x2D s"
  by (simp add: print_zahl_def print_digits_def digits_of.simps word_sless_alt Let_def)

section \<open>What a format prints\<close>

text \<open>The text of a conversion, and of a whole format.\<close>

definition conversion :: "u8 \<Rightarrow> kp_arg list \<Rightarrow> (u8 list \<times> kp_arg list) option" where
  "conversion f args =
     (if f \<notin> {0x64, 0x73, 0x78, 0x63, 0x75, 0x70} then Some ([], args)
      else case args of
        KNum v # args \<Rightarrow>
          if f = 0x64 then Some (zahl_text (ucast v), args)
          else if f = 0x63 then Some ([ucast v], args)
          else if f = 0x75 then Some (uint_text (ucast v), args)
          else if f \<in> {0x78, 0x70} then Some (hex_text v, args) else None
      | KStr str # args \<Rightarrow> if f = 0x73 then Some (str, args) else None
      | [] \<Rightarrow> None)"

fun format_text :: "u8 list \<Rightarrow> kp_arg list \<Rightarrow> u8 list option" where
  "format_text [] args = Some []"
| "format_text [c] args = (if c = 0x25 then None else Some [c])"
| "format_text (c # f # fmt) args =
     (if c = 0x25
      then (case conversion f args of
              None \<Rightarrow> None
            | Some (str, args) \<Rightarrow> map_option ((@) str) (format_text fmt args))
      else map_option ((#) c) (format_text (f # fmt) args))"

lemma kprintf_text:
  "kprintf fmt args s = map_option (\<lambda>str. console_print str s) (format_text fmt args)"
proof (induction fmt args arbitrary: s rule: format_text.induct)
  case (1 args)
  then show ?case by (simp add: console_print_simps)
next
  case (2 c args)
  then show ?case by (simp add: console_print_simps)
next
  case (3 c f fmt args)
  show ?case
  proof (cases "c = 0x25")
    case True
    note IH = "3.IH"(1) [OF True]
    show ?thesis
    proof (cases args)
      case Nil
      then show ?thesis using True IH
        by (simp add: conversion_def option.map_comp comp_def console_print_simps)
    next
      case (Cons a as)
      show ?thesis
        using True IH Cons
        by (cases a) (simp_all add: conversion_def option.map_comp comp_def console_print_simps
            print_zahl_text print_uint_text print_hex_text)
    qed
  next
    case False
    then show ?thesis using "3.IH"(2) [OF False]
      by (simp add: option.map_comp comp_def console_print_simps)
  qed
qed

text \<open>
  C27: Printing a format is printing one text: the concatenation of its characters and of the texts of
  its conversions, which take the arguments in order.
\<close>

theorem kprintf_prints_text:
  "kprintf fmt args s = map_option (\<lambda>str. console_print str s) (format_text fmt args)"
  by (rule kprintf_text)

end
