(* ===== verification/Fat_Layout.thy ===== *)
theory Fat_Layout
  imports Livly_Prelude
begin

text \<open>
  The on-disk structures of the file system, \<^verbatim>\<open>src/src/drivers/fs/fat.h\<close>: a sector is the list of
  its 512 bytes, the boot sector and the directory entries are the packed structs the code casts
  the buffer to, little endian as on the machine.  The lemmas are the round trips between bytes
  and records that the file operations rest on.
\<close>

section \<open>Little-endian fields\<close>

type_synonym sector = "u8 list"

definition u16_of :: "u8 \<Rightarrow> u8 \<Rightarrow> u16" where
  "u16_of a b = ucast a OR push_bit 8 (ucast b)"

definition u32_of :: "u8 \<Rightarrow> u8 \<Rightarrow> u8 \<Rightarrow> u8 \<Rightarrow> u32" where
  "u32_of a b c d = ucast a OR push_bit 8 (ucast b) OR push_bit 16 (ucast c) OR push_bit 24 (ucast d)"

definition bytes16 :: "u16 \<Rightarrow> u8 list" where
  "bytes16 v = [ucast v, ucast (drop_bit 8 v)]"

definition bytes32 :: "u32 \<Rightarrow> u8 list" where
  "bytes32 v = [ucast v, ucast (drop_bit 8 v), ucast (drop_bit 16 v), ucast (drop_bit 24 v)]"

definition get16 :: "sector \<Rightarrow> nat \<Rightarrow> u16" where
  "get16 b i = u16_of (b ! i) (b ! (i + 1))"

definition get32 :: "sector \<Rightarrow> nat \<Rightarrow> u32" where
  "get32 b i = u32_of (b ! i) (b ! (i + 1)) (b ! (i + 2)) (b ! (i + 3))"

definition put32 :: "nat \<Rightarrow> u32 \<Rightarrow> sector \<Rightarrow> sector" where
  "put32 i v b = take i b @ bytes32 v @ drop (i + 4) b"

lemma u16_of_bytes: "u16_of (ucast v) (ucast (drop_bit 8 v)) = v"
  by (intro bit_word_eqI) (auto simp: u16_of_def bit_simps)

lemma u32_of_bytes:
  "u32_of (ucast v) (ucast (drop_bit 8 v)) (ucast (drop_bit 16 v)) (ucast (drop_bit 24 v)) = v"
proof (intro bit_word_eqI)
  fix n :: nat assume "n < LENGTH(32)"
  then consider "n < 8" | "8 \<le> n" "n < 16" | "16 \<le> n" "n < 24" | "24 \<le> n" "n < 32"
    by fastforce
  then show "bit (u32_of (ucast v) (ucast (drop_bit 8 v)) (ucast (drop_bit 16 v))
      (ucast (drop_bit 24 v))) n = bit v n"
    by cases (auto simp: u32_of_def bit_simps)
qed

lemma length_bytes [simp]: "length (bytes16 v) = 2" "length (bytes32 w) = 4"
  by (simp_all add: bytes16_def bytes32_def)

lemma get16_append:
  "get16 (bytes16 v @ b) 0 = v" "length p = i \<Longrightarrow> get16 (p @ bytes16 v @ b) i = v"
  by (auto simp: get16_def bytes16_def nth_append u16_of_bytes)

lemma get32_append:
  "get32 (bytes32 v @ b) 0 = v" "length p = i \<Longrightarrow> get32 (p @ bytes32 v @ b) i = v"
  by (auto simp: get32_def bytes32_def nth_append u32_of_bytes)

lemma length_put32 [simp]: "i + 4 \<le> length b \<Longrightarrow> length (put32 i v b) = length b"
  by (simp add: put32_def)

lemma get32_put32: "i + 4 \<le> length b \<Longrightarrow> get32 (put32 i v b) i = v"
  by (simp add: put32_def get32_append)

lemma put32_nth:
  "i + 4 \<le> length b \<Longrightarrow> j < length b \<Longrightarrow> j < i \<or> i + 4 \<le> j \<Longrightarrow> put32 i v b ! j = b ! j"
  by (auto simp: put32_def nth_append)

lemma get32_put32_other:
  "i + 4 \<le> length b \<Longrightarrow> j + 4 \<le> length b \<Longrightarrow> j + 4 \<le> i \<or> i + 4 \<le> j \<Longrightarrow>
     get32 (put32 i v b) j = get32 b j"
  by (auto simp: get32_def put32_nth)


section \<open>Boot sector\<close>

record FAT32BootSector =
  jump :: "u8 list"
  oem :: "u8 list"
  bytes_per_sector :: u16
  sectors_per_cluster :: u8
  reserved_sectors :: u16
  fat_count :: u8
  root_entries :: u16
  total_sectors_16 :: u16
  media_type :: u8
  fat_size_16 :: u16
  sectors_per_track :: u16
  head_count :: u16
  hidden_sectors :: u32
  total_sectors_32 :: u32
  fat_size_32 :: u32
  bs_flags :: u16
  bs_version :: u16
  bs_root_cluster :: u32

definition read_boot :: "sector \<Rightarrow> FAT32BootSector" where
  "read_boot b = \<lparr>jump = take 3 b, oem = take 8 (drop 3 b), bytes_per_sector = get16 b 11,
     sectors_per_cluster = b ! 13, reserved_sectors = get16 b 14, fat_count = b ! 16,
     root_entries = get16 b 17, total_sectors_16 = get16 b 19, media_type = b ! 21,
     fat_size_16 = get16 b 22, sectors_per_track = get16 b 24, head_count = get16 b 26,
     hidden_sectors = get32 b 28, total_sectors_32 = get32 b 32, fat_size_32 = get32 b 36,
     bs_flags = get16 b 40, bs_version = get16 b 42, bs_root_cluster = get32 b 44\<rparr>"

section \<open>Directory entries\<close>

record FAT32DirEntry =
  de_name :: "u8 list"
  de_ext :: "u8 list"
  attributes :: u8
  de_reserved :: "u8 list"
  cluster_high :: u16
  de_time :: u16
  de_date :: u16
  cluster_low :: u16
  de_size :: u32

definition read_entry :: "sector \<Rightarrow> nat \<Rightarrow> FAT32DirEntry" where
  "read_entry buf i =
     (let b = drop (32 * i) buf
      in \<lparr>de_name = take 8 b, de_ext = take 3 (drop 8 b), attributes = b ! 11,
          de_reserved = take 8 (drop 12 b), cluster_high = get16 b 20, de_time = get16 b 22,
          de_date = get16 b 24, cluster_low = get16 b 26, de_size = get32 b 28\<rparr>)"

definition entry_bytes :: "FAT32DirEntry \<Rightarrow> u8 list" where
  "entry_bytes e = de_name e @ de_ext e @ [attributes e] @ de_reserved e @ bytes16 (cluster_high e)
     @ bytes16 (de_time e) @ bytes16 (de_date e) @ bytes16 (cluster_low e) @ bytes32 (de_size e)"

definition write_entry :: "nat \<Rightarrow> FAT32DirEntry \<Rightarrow> sector \<Rightarrow> sector" where
  "write_entry i e buf = take (32 * i) buf @ entry_bytes e @ drop (32 * i + 32) buf"

text \<open>The cluster number an entry holds in its two halves, and how the code stores one.\<close>

definition entry_cluster :: "FAT32DirEntry \<Rightarrow> u32" where
  "entry_cluster e = push_bit 16 (ucast (cluster_high e)) OR ucast (cluster_low e)"

definition set_cluster :: "u32 \<Rightarrow> FAT32DirEntry \<Rightarrow> FAT32DirEntry" where
  "set_cluster c e = e\<lparr>cluster_high := ucast (drop_bit 16 c), cluster_low := ucast (c AND 0xFFFF)\<rparr>"

definition entry_wf :: "FAT32DirEntry \<Rightarrow> bool" where
  "entry_wf e \<longleftrightarrow> length (de_name e) = 8 \<and> length (de_ext e) = 3 \<and> length (de_reserved e) = 8"

lemma entry_cluster_set [simp]: "entry_cluster (set_cluster c e) = c"
proof -
  have m: "(0xFFFF :: u32) = mask 16" by (simp add: mask_eq_exp_minus_1)
  show ?thesis
    unfolding entry_cluster_def set_cluster_def m
    by (intro bit_word_eqI) (auto simp: bit_simps)
qed

lemma length_entry_bytes: "entry_wf e \<Longrightarrow> length (entry_bytes e) = 32"
  by (simp add: entry_bytes_def entry_wf_def)

lemma length_write_entry [simp]:
  "entry_wf e \<Longrightarrow> 32 * i + 32 \<le> length b \<Longrightarrow> length (write_entry i e b) = length b"
  by (simp add: write_entry_def length_entry_bytes)

lemma read_entry_wf: "32 * i + 32 \<le> length b \<Longrightarrow> entry_wf (read_entry b i)"
  by (simp add: read_entry_def entry_wf_def Let_def)

lemma get_append_shift:
  "length p \<le> i \<Longrightarrow> get16 (p @ q) i = get16 q (i - length p)"
  "length p \<le> i \<Longrightarrow> get32 (p @ q) i = get32 q (i - length p)"
  by (simp_all add: get16_def get32_def nth_append Suc_diff_le add.commute)

lemma get_Cons_shift:
  "0 < i \<Longrightarrow> get16 (x # q) i = get16 q (i - 1)" "0 < i \<Longrightarrow> get32 (x # q) i = get32 q (i - 1)"
  using get_append_shift [of "[x]" i q] by simp_all

lemma read_entry_bytes:
  assumes "entry_wf e"
  shows "read_entry (entry_bytes e @ rest) 0 = e"
  using assms
  by (simp add: read_entry_def entry_bytes_def entry_wf_def Let_def nth_append get_append_shift
      get_Cons_shift get16_append get32_append)

lemma read_write_entry:
  assumes "entry_wf e" and "32 * i + 32 \<le> length b"
  shows "read_entry (write_entry i e b) i = e"
proof -
  have "drop (32 * i) (write_entry i e b) = entry_bytes e @ drop (32 * i + 32) b"
    using assms(2) by (simp add: write_entry_def)
  then have "read_entry (write_entry i e b) i = read_entry (entry_bytes e @ drop (32 * i + 32) b) 0"
    by (simp add: read_entry_def)
  then show ?thesis by (simp add: read_entry_bytes [OF assms(1)])
qed

text \<open>An entry depends on its 32 bytes only.\<close>

lemma read_entry_cong:
  assumes "take 32 (drop (32 * j) b) = take 32 (drop (32 * j) c)"
    and "32 * j + 32 \<le> length b" "32 * j + 32 \<le> length c"
  shows "read_entry b j = read_entry c j"
proof -
  let ?b = "drop (32 * j) b" and ?c = "drop (32 * j) c"
  have n: "?b ! k = ?c ! k" if "k < 32" for k
    using arg_cong [OF assms(1), of "\<lambda>l. l ! k"] that assms(2,3) by simp
  have t: "take m (drop k ?b) = take m (drop k ?c)" if "k + m \<le> 32" for k m
  proof -
    have "m \<le> 32 - k" using that by simp
    then show ?thesis using arg_cong [OF assms(1), of "\<lambda>l. take m (drop k l)"]
      by (simp add: drop_take min_absorb1)
  qed
  show ?thesis
    using t [of 0 8] t [of 8 3] t [of 12 8] n
    by (simp add: read_entry_def Let_def get16_def get32_def del: drop_drop nth_drop)
qed

lemma read_write_entry_other:
  assumes "entry_wf e" and "32 * i + 32 \<le> length b" and "32 * j + 32 \<le> length b" and "i \<noteq> j"
  shows "read_entry (write_entry i e b) j = read_entry b j"
proof (rule read_entry_cong)
  note len = length_entry_bytes [OF assms(1)]
  show "take 32 (drop (32 * j) (write_entry i e b)) = take 32 (drop (32 * j) b)"
  proof (cases "i < j")
    case True
    then have "drop (32 * j) (write_entry i e b) = drop (32 * j) b"
      using assms(2) len by (simp add: write_entry_def)
    then show ?thesis by simp
  next
    case False
    then have "32 + 32 * j \<le> 32 * i" using assms(4) by simp
    then obtain d where d: "32 * i = 32 * j + (32 + d)" using le_Suc_ex [of "32 + 32 * j" "32 * i"]
      by (auto simp: ac_simps)
    have "length (take (32 * i) b) = 32 * j + (32 + d)" using assms(2) d by simp
    then have "drop (32 * j) (write_entry i e b)
        = drop (32 * j) (take (32 * i) b) @ entry_bytes e @ drop (32 * i + 32) b"
      unfolding write_entry_def by (simp del: length_take)
    moreover have "drop (32 * j) (take (32 * i) b) = take (32 + d) (drop (32 * j) b)"
      unfolding d by (simp add: drop_take)
    moreover have "length (drop (32 * j) b) \<ge> 32 + d" using assms(2) d by simp
    ultimately show ?thesis by (simp add: min_absorb1 del: length_drop)
  qed
  show "32 * j + 32 \<le> length (write_entry i e b)" using assms by simp
qed (rule assms(3))

section \<open>Properties\<close>

text \<open>
  storing a directory entry in one of a sector's sixteen slots and reading it back gives the
  entry, cluster number included, and the other fifteen slots still read as before.
\<close>

theorem dir_entry_roundtrip:
  assumes "entry_wf e" and "length b = 512" and "i < 16" and "j < 16"
  shows "read_entry (write_entry i (set_cluster c e) b) j
      = (if j = i then set_cluster c e else read_entry b j) \<and>
    entry_cluster (read_entry (write_entry i (set_cluster c e) b) i) = c \<and>
    length (write_entry i (set_cluster c e) b) = 512"
proof -
  have wf: "entry_wf (set_cluster c e)" using assms(1) by (simp add: entry_wf_def set_cluster_def)
  have b: "32 * i + 32 \<le> length b" "32 * j + 32 \<le> length b" using assms by simp_all
  show ?thesis
    using read_write_entry [OF wf b(1)] read_write_entry_other [OF wf b] length_write_entry [OF wf b(1)]
      assms(2) by auto
qed

lemma dir_entry_roundtrip_witness:
  "entry_cluster (read_entry (write_entry 2 (set_cluster 0x12345
     \<lparr>de_name = replicate 8 0x20, de_ext = replicate 3 0x20, attributes = 0x20,
      de_reserved = replicate 8 0, cluster_high = 0, de_time = 0, de_date = 0, cluster_low = 0,
      de_size = 7\<rparr>) (replicate 512 0)) 2) = 0x12345"
proof -
  let ?e = "\<lparr>de_name = replicate 8 0x20, de_ext = replicate 3 0x20, attributes = 0x20,
      de_reserved = replicate 8 0, cluster_high = 0, de_time = 0, de_date = 0, cluster_low = 0,
      de_size = 7\<rparr>"
  have "entry_wf ?e" by (simp add: entry_wf_def)
  from dir_entry_roundtrip [OF this, of "replicate 512 0" 2 2 "0x12345"] show ?thesis by simp
qed

end
