(* ===== verification/Fat_Table.thy ===== *)
theory Fat_Table
  imports Fat_Layout
begin

text \<open>
  The allocation table of \<^verbatim>\<open>src/src/drivers/fs/fat.c\<close> and its one-sector cache.  \<open>disk\<close> maps a
  sector number to the sector's bytes: the drive behind \<^verbatim>\<open>ata_read_sector\<close> and
  \<^verbatim>\<open>ata_write_sector\<close>, which see the low 28 bits of the number only and are taken to succeed.
  \<open>seen\<close> is the disk as the code sees it through the cache; the table operations are described
  by what they do to \<open>seen\<close>, whatever is cached.
\<close>

section \<open>State\<close>

text \<open>What the file system prints, unformatted; umlauts are spelled out.\<close>

datatype msg = Str string | Char u8 | Num u32

record fatfs =
  disk :: "u32 \<Rightarrow> sector"
  boot :: FAT32BootSector
  fat_start :: u32
  data_start :: u32
  root_cluster :: u32
  cwd_cluster :: u32
  cwd_path :: "u8 list"
  cached_nr :: u32
  cached_buf :: sector
  dirty :: bool
  out :: "msg list"

abbreviation FAT32_PARTITION_START :: u32 where "FAT32_PARTITION_START \<equiv> 2048"
abbreviation END_OF_CHAIN :: u32 where "END_OF_CHAIN \<equiv> 0x0FFFFFF8"

definition lba28 :: "u32 \<Rightarrow> u32" where
  "lba28 lba = lba AND 0x0FFFFFFF"

definition ata_read :: "u32 \<Rightarrow> fatfs \<Rightarrow> sector" where
  "ata_read lba s = disk s (lba28 lba)"

definition ata_write :: "u32 \<Rightarrow> sector \<Rightarrow> fatfs \<Rightarrow> fatfs" where
  "ata_write lba b s = s\<lparr>disk := (disk s)(lba28 lba := b)\<rparr>"

definition kprint :: "msg list \<Rightarrow> fatfs \<Rightarrow> fatfs" where
  "kprint ms s = s\<lparr>out := out s @ ms\<rparr>"

definition line :: "string \<Rightarrow> msg list" where
  "line t = [Str t, Char 10]"

definition fat_init :: "fatfs \<Rightarrow> fatfs" where
  "fat_init s =
     (let s = s\<lparr>boot := read_boot (ata_read FAT32_PARTITION_START s)\<rparr>;
          s = s\<lparr>fat_start := FAT32_PARTITION_START + ucast (reserved_sectors (boot s))\<rparr>;
          s = s\<lparr>data_start := fat_start s + ucast (fat_count (boot s)) * fat_size_32 (boot s)\<rparr>;
          s = s\<lparr>root_cluster := bs_root_cluster (boot s)\<rparr>;
          s = s\<lparr>cwd_cluster := root_cluster s\<rparr>
      in s\<lparr>cwd_path := (cwd_path s)[0 := 0x2F, 1 := 0]\<rparr>)"

section \<open>The cache\<close>

definition fat_cache_flush :: "fatfs \<Rightarrow> fatfs" where
  "fat_cache_flush s =
     (if dirty s then (ata_write (cached_nr s) (cached_buf s) s)\<lparr>dirty := False\<rparr> else s)"

text \<open>The \<^verbatim>\<open>if (fat_sector != cached_fat_sector_nr)\<close> every table access repeats.\<close>

definition cache_load :: "u32 \<Rightarrow> fatfs \<Rightarrow> fatfs" where
  "cache_load nr s =
     (if nr \<noteq> cached_nr s
      then (let s = fat_cache_flush s;
                s = s\<lparr>cached_nr := nr\<rparr>
            in s\<lparr>cached_buf := ata_read nr s\<rparr>)
      else s)"

definition fat_sector :: "u32 \<Rightarrow> fatfs \<Rightarrow> u32" where
  "fat_sector c s = fat_start s + c * 4 div 512"

definition entry_index :: "u32 \<Rightarrow> u32" where
  "entry_index c = (c * 4 mod 512) div 4"

text \<open>\<^verbatim>\<open>((uint32_t*)cached_fat_buf)[i]\<close>, read and written.\<close>

definition cache_get :: "u32 \<Rightarrow> fatfs \<Rightarrow> u32" where
  "cache_get i s = get32 (cached_buf s) (4 * unat i)"

definition cache_put :: "u32 \<Rightarrow> u32 \<Rightarrow> fatfs \<Rightarrow> fatfs" where
  "cache_put i v s = s\<lparr>cached_buf := put32 (4 * unat i) v (cached_buf s), dirty := True\<rparr>"

section \<open>Table operations\<close>

definition fat_next_cluster :: "u32 \<Rightarrow> fatfs \<Rightarrow> fatfs \<times> u32" where
  "fat_next_cluster cluster s =
     (let s = cache_load (fat_sector cluster s) s
      in (s, cache_get (entry_index cluster) s AND 0x0FFFFFFF))"

definition total_clusters :: "fatfs \<Rightarrow> u32" where
  "total_clusters s =
     (let data_sector_count = total_sectors_32 (boot s) - (data_start s - FAT32_PARTITION_START)
      in data_sector_count div ucast (sectors_per_cluster (boot s)))"

text \<open>
  One round of the allocation loop; the variables are \<^verbatim>\<open>count\<close>, \<^verbatim>\<open>prev\<close> and \<^verbatim>\<open>first\<close>.  Once \<^verbatim>\<open>count\<close>
  is 0 the loop has ended.
\<close>

definition alloc_round :: "u32 \<Rightarrow> fatfs \<times> u32 \<times> u32 \<times> u32 \<Rightarrow> fatfs \<times> u32 \<times> u32 \<times> u32" where
  "alloc_round i = (\<lambda>(s, count, prev, first).
     if count = 0 then (s, count, prev, first)
     else
      let s = cache_load (fat_sector i s) s in
      if cache_get (entry_index i) s = 0 then
        let first = (if first = 0 then i else first);
            s = cache_put (entry_index i) 0x0FFFFFFF s;
            s = (if prev \<noteq> 0
                 then cache_put (entry_index prev) i (cache_load (fat_sector prev s) s)
                 else s)
        in (s, count - 1, i, first)
      else (s, count, prev, first))"

definition fat_alloc_cluster :: "u32 \<Rightarrow> fatfs \<Rightarrow> fatfs \<times> u32" where
  "fat_alloc_cluster sz s =
     (let cluster_size = ucast (sectors_per_cluster (boot s)) * 512;
          count = (sz + cluster_size - 1) div cluster_size;
          (s, count, prev, first) =
            for_range 2 (total_clusters s + 2) alloc_round (s, count, 0, 0)
      in (fat_cache_flush s, first))"

definition cluster_sector :: "u32 \<Rightarrow> fatfs \<Rightarrow> u32" where
  "cluster_sector c s = data_start s + (c - 2) * ucast (sectors_per_cluster (boot s))"

definition zero_sector :: sector where "zero_sector = replicate 512 0"

definition zero_cluster :: "u32 \<Rightarrow> fatfs \<Rightarrow> fatfs" where
  "zero_cluster c s =
     (let sektor = cluster_sector c s
      in for_range 0 (ucast (sectors_per_cluster (boot s)))
           (\<lambda>i s. ata_write (sektor + i) zero_sector s) s)"

text \<open>One round of the search of \<^verbatim>\<open>fat_extend_chain\<close>, ended by \<^verbatim>\<open>break\<close> once a cluster is found.\<close>

definition extend_round :: "u32 \<Rightarrow> fatfs \<times> u32 \<Rightarrow> fatfs \<times> u32" where
  "extend_round i = (\<lambda>(s, new_cluster).
     if new_cluster \<noteq> 0 then (s, new_cluster)
     else
      let s = cache_load (fat_sector i s) s in
      if cache_get (entry_index i) s = 0 then
        let s = cache_put (entry_index i) 0x0FFFFFFF s;
            s = fat_cache_flush s
        in (zero_cluster i s, i)
      else (s, 0))"

definition fat_extend_chain :: "u32 \<Rightarrow> fatfs \<Rightarrow> fatfs \<times> u32" where
  "fat_extend_chain prev_cluster s =
     (let (s, new_cluster) = for_range 2 (total_clusters s + 2) extend_round (s, 0)
      in if new_cluster = 0
         then (kprint (line ''fat_extend_chain: Kein freier Cluster!'') s, 0x0FFFFFFF)
         else (let s = cache_load (fat_sector prev_cluster s) s;
                   s = cache_put (entry_index prev_cluster) new_cluster s
               in (fat_cache_flush s, new_cluster)))"

text \<open>
  A loop over a chain, \<^verbatim>\<open>while (c < 0x0FFFFFF8) { f; c = fat_next_cluster(c); }\<close>.  A cyclic
  chain has no end, hence \<open>None\<close>.
\<close>

partial_function (option) over_chain ::
  "(u32 \<Rightarrow> 's \<Rightarrow> 's \<times> u32) \<Rightarrow> (u32 \<Rightarrow> 'a \<Rightarrow> 's \<Rightarrow> 'a \<times> 's) \<Rightarrow> u32 \<Rightarrow> 'a \<Rightarrow> 's \<Rightarrow> ('a \<times> 's) option" where
  "over_chain next_of f c a s =
     (if c < END_OF_CHAIN
      then (let (a, s) = f c a s; (s, nxt) = next_of c s in over_chain next_of f nxt a s)
      else Some (a, s))"

section \<open>The disk as the code sees it\<close>

definition seen :: "fatfs \<Rightarrow> u32 \<Rightarrow> sector" where
  "seen s l = (if l = cached_nr s \<and> l < 0x10000000 then cached_buf s else disk s l)"

text \<open>
  The cache is coherent: it holds a whole sector with a 28-bit number, or none at all (the
  number is then all ones), and a clean sector equals the disk's.
\<close>

definition cache_ok :: "fatfs \<Rightarrow> bool" where
  "cache_ok s \<longleftrightarrow> (\<forall>l. length (disk s l) = 512) \<and> length (cached_buf s) = 512 \<and>
     (cached_nr s < 0x10000000 \<or> cached_nr s = 0xFFFFFFFF \<and> \<not> dirty s) \<and>
     (\<not> dirty s \<longrightarrow> cached_nr s < 0x10000000 \<longrightarrow> disk s (cached_nr s) = cached_buf s)"

text \<open>Everything but the disk and the cache.\<close>

definition same_rest :: "fatfs \<Rightarrow> fatfs \<Rightarrow> bool" where
  "same_rest s s' \<longleftrightarrow> boot s' = boot s \<and> fat_start s' = fat_start s \<and> data_start s' = data_start s \<and>
     root_cluster s' = root_cluster s \<and> cwd_cluster s' = cwd_cluster s \<and>
     cwd_path s' = cwd_path s \<and> out s' = out s"

text \<open>The clusters whose table entry has a 28-bit sector number.\<close>

definition in_table :: "fatfs \<Rightarrow> u32 \<Rightarrow> bool" where
  "in_table s c \<longleftrightarrow> unat c < 2 ^ 30 \<and> unat (fat_start s) + unat c div 128 < 2 ^ 28"

definition fat_entry :: "fatfs \<Rightarrow> u32 \<Rightarrow> u32" where
  "fat_entry s c = get32 (seen s (fat_sector c s)) (4 * unat (entry_index c))"

lemma lba28_id: "l < 0x10000000 \<Longrightarrow> lba28 l = l"
proof -
  assume "l < 0x10000000"
  then have "unat l mod 2 ^ 28 = unat l" by (simp add: word_less_nat_alt)
  moreover have "(0x0FFFFFFF :: u32) = mask 28" by (simp add: mask_eq_exp_minus_1)
  then have "lba28 l = take_bit 28 l" by (simp only: lba28_def take_bit_eq_mask)
  ultimately show ?thesis
    by (simp add: word_unat_eq_iff unsigned_take_bit_eq take_bit_eq_mod unat_mod)
qed

lemma same_rest_refl [simp]: "same_rest s s"
  by (simp add: same_rest_def)

lemma same_rest_trans: "same_rest s t \<Longrightarrow> same_rest t u \<Longrightarrow> same_rest s u"
  by (simp add: same_rest_def)

lemma kprint_seen [simp]:
  "seen (kprint ms s) = seen s" "cache_ok (kprint ms s) = cache_ok s"
  "dirty (kprint ms s) = dirty s" "cached_nr (kprint ms s) = cached_nr s"
  by (auto simp: kprint_def seen_def cache_ok_def fun_eq_iff)

lemma flush_seen:
  assumes "cache_ok s"
  shows "cache_ok (fat_cache_flush s)" "seen (fat_cache_flush s) = seen s"
    "same_rest s (fat_cache_flush s)" "\<not> dirty (fat_cache_flush s)"
    "cached_nr (fat_cache_flush s) = cached_nr s"
    "l < 0x10000000 \<Longrightarrow> disk (fat_cache_flush s) l = seen s l"
proof -
  have nr: "dirty s \<Longrightarrow> cached_nr s < 0x10000000" using assms by (auto simp: cache_ok_def)
  show "cache_ok (fat_cache_flush s)" "seen (fat_cache_flush s) = seen s"
    "same_rest s (fat_cache_flush s)" "\<not> dirty (fat_cache_flush s)"
    "cached_nr (fat_cache_flush s) = cached_nr s"
    "l < 0x10000000 \<Longrightarrow> disk (fat_cache_flush s) l = seen s l"
    using assms nr
    by (auto simp: fat_cache_flush_def ata_write_def cache_ok_def seen_def same_rest_def lba28_id
        fun_eq_iff)
qed

lemma seen_length [simp]: "cache_ok s \<Longrightarrow> length (seen s l) = 512"
  by (simp add: cache_ok_def seen_def)

lemma load_seen:
  assumes "cache_ok s" and "nr < 0x10000000"
  shows "cache_ok (cache_load nr s)" "seen (cache_load nr s) = seen s"
    "same_rest s (cache_load nr s)" "cached_nr (cache_load nr s) = nr"
    "cached_buf (cache_load nr s) = seen s nr"
    "dirty (cache_load nr s) \<longrightarrow> dirty s"
proof -
  note fl = flush_seen [OF assms(1)]
  have "cache_ok (cache_load nr s) \<and> seen (cache_load nr s) = seen s \<and>
    same_rest s (cache_load nr s) \<and> cached_nr (cache_load nr s) = nr \<and>
    cached_buf (cache_load nr s) = seen s nr \<and> (dirty (cache_load nr s) \<longrightarrow> dirty s)"
  proof (cases "nr = cached_nr s")
    case True
    then show ?thesis using assms by (simp add: cache_load_def seen_def)
  next
    case False
    have ld: "cache_load nr s = (fat_cache_flush s)\<lparr>cached_nr := nr,
        cached_buf := disk (fat_cache_flush s) nr\<rparr>"
      using False by (simp add: cache_load_def ata_read_def lba28_id [OF assms(2)] Let_def)
    have "seen (cache_load nr s) l = seen s l" for l
    proof (cases "l = nr")
      case True
      then show ?thesis using fl(6) [OF assms(2)] by (auto simp: ld seen_def)
    next
      case False
      then have "seen (cache_load nr s) l = disk (fat_cache_flush s) l" by (simp add: ld seen_def)
      also have "\<dots> = seen (fat_cache_flush s) l"
        using fl(1,4,5) by (auto simp: seen_def cache_ok_def)
      finally show ?thesis by (simp add: fl(2))
    qed
    then show ?thesis
      using fl assms seen_length [OF assms(1), of nr] fl(6) [OF assms(2)]
      by (auto simp: ld cache_ok_def same_rest_def)
  qed
  then show "cache_ok (cache_load nr s)" "seen (cache_load nr s) = seen s"
    "same_rest s (cache_load nr s)" "cached_nr (cache_load nr s) = nr"
    "cached_buf (cache_load nr s) = seen s nr" "dirty (cache_load nr s) \<longrightarrow> dirty s" by blast+
qed

subsection \<open>Entries\<close>

lemma entry_pos:
  assumes "in_table s c"
  shows "unat (fat_sector c s) = unat (fat_start s) + unat c div 128"
    and "unat (entry_index c) = unat c mod 128" and "fat_sector c s < 0x10000000"
proof -
  have c: "unat c < 2 ^ 30" "unat (fat_start s) + unat c div 128 < 2 ^ 28"
    using assms by (simp_all add: in_table_def)
  have c4: "unat (c * 4) = unat c * 4" using unat_mult_fits [of c 4] c(1) by simp
  then have d: "unat (c * 4 div 512) = unat c div 128" by (simp add: unat_div)
  then show s: "unat (fat_sector c s) = unat (fat_start s) + unat c div 128"
    using unat_add_fits [of "fat_start s" "c * 4 div 512"] c(2) by (simp add: fat_sector_def)
  then show "fat_sector c s < 0x10000000" using c(2) by (simp add: word_less_nat_alt)
  have "unat c * 4 mod 512 div 4 = unat c mod 128"
    using mod_mult_mult2 [of "unat c" 4 128] by simp
  then show "unat (entry_index c) = unat c mod 128"
    using c4 by (simp add: entry_index_def unat_div unat_mod)
qed

lemma index_bound: "in_table s c \<Longrightarrow> 4 * unat (entry_index c) + 4 \<le> 512"
  using entry_pos(2) [of s c] by simp

lemma entry_inj:
  assumes "in_table s c" "in_table s d"
    and "fat_sector c s = fat_sector d s" "entry_index c = entry_index d"
  shows "c = d"
proof -
  have "unat c div 128 = unat d div 128" "unat c mod 128 = unat d mod 128"
    using entry_pos [OF assms(1)] entry_pos [OF assms(2)] assms(3,4) by simp_all
  then have "unat c = unat d" by (metis div_mult_mod_eq)
  then show ?thesis by (simp add: word_unat_eq_iff)
qed

lemma in_table_same: "same_rest s s' \<Longrightarrow> in_table s' c = in_table s c"
  by (simp add: in_table_def same_rest_def)

lemma fat_sector_same: "same_rest s s' \<Longrightarrow> fat_sector c s' = fat_sector c s"
  by (simp add: fat_sector_def same_rest_def)

lemma fat_entry_same: "same_rest s s' \<Longrightarrow> seen s' = seen s \<Longrightarrow> fat_entry s' c = fat_entry s c"
  by (simp add: fat_entry_def fat_sector_same)

text \<open>Reading the entry of \<open>c\<close> through the cache, and writing it.\<close>

lemma load_get:
  assumes "cache_ok s" and "in_table s c"
  shows "cache_get (entry_index c) (cache_load (fat_sector c s) s) = fat_entry s c"
  using load_seen(5) [OF assms(1) entry_pos(3) [OF assms(2)]]
  by (simp add: cache_get_def fat_entry_def)

definition fat_write :: "u32 \<Rightarrow> u32 \<Rightarrow> fatfs \<Rightarrow> fatfs" where
  "fat_write c v s = cache_put (entry_index c) v (cache_load (fat_sector c s) s)"

lemma fat_write_seen:
  assumes "cache_ok s" and "in_table s c"
  shows "cache_ok (fat_write c v s)" "same_rest s (fat_write c v s)"
    "in_table s d \<Longrightarrow> fat_entry (fat_write c v s) d = (if d = c then v else fat_entry s d)"
    "l \<noteq> fat_sector c s \<Longrightarrow> seen (fat_write c v s) l = seen s l"
proof -
  note ld = load_seen [OF assms(1) entry_pos(3) [OF assms(2)]]
  note ix = index_bound [OF assms(2)]
  let ?s = "cache_load (fat_sector c s) s"
  have len: "length (cached_buf ?s) = 512" using ld(1) by (simp add: cache_ok_def)
  show rest: "same_rest s (fat_write c v s)"
    using ld(3) by (simp add: fat_write_def cache_put_def same_rest_def)
  show "cache_ok (fat_write c v s)"
    using ld(1,4) len ix entry_pos(3) [OF assms(2)]
    by (simp add: fat_write_def cache_put_def cache_ok_def)
  have at: "seen (fat_write c v s) (fat_sector c s)
      = put32 (4 * unat (entry_index c)) v (seen s (fat_sector c s))"
    using ld(4,5) entry_pos(3) [OF assms(2)] by (simp add: fat_write_def cache_put_def seen_def)
  show off: "seen (fat_write c v s) l = seen s l" if "l \<noteq> fat_sector c s" for l
    using that ld(4) fun_cong [OF ld(2), of l] by (simp add: fat_write_def cache_put_def seen_def)
  show "fat_entry (fat_write c v s) d = (if d = c then v else fat_entry s d)" if d: "in_table s d"
  proof (cases "fat_sector d s = fat_sector c s")
    case False
    then show ?thesis using off [of "fat_sector d s"] rest
      by (auto simp: fat_entry_def fat_sector_same)
  next
    case True
    have sl: "length (seen s (fat_sector c s)) = 512" using ld(5) len by simp
    have "fat_entry (fat_write c v s) d = get32 (put32 (4 * unat (entry_index c)) v
        (seen s (fat_sector c s))) (4 * unat (entry_index d))"
      using True at rest by (simp add: fat_entry_def fat_sector_same)
    moreover have "d \<noteq> c \<Longrightarrow> unat (entry_index d) \<noteq> unat (entry_index c)"
      using entry_inj [OF d assms(2) True] by (auto simp: word_unat_eq_iff)
    moreover have "\<And>i j :: nat. i \<noteq> j \<Longrightarrow> 4 * j + 4 \<le> 4 * i \<or> 4 * i + 4 \<le> 4 * j" by auto
    ultimately show ?thesis
      using get32_put32 [of "4 * unat (entry_index c)" "seen s (fat_sector c s)" v] sl ix
        get32_put32_other [of "4 * unat (entry_index c)" "seen s (fat_sector c s)"
          "4 * unat (entry_index d)" v] index_bound [OF d] True
      by (auto simp: fat_entry_def)
  qed
qed

lemma next_cluster_seen:
  assumes "cache_ok s" and "in_table s c" and "fat_next_cluster c s = (s', n)"
  shows "cache_ok s'" "seen s' = seen s" "same_rest s s'" "n = fat_entry s c AND 0x0FFFFFFF"
    "dirty s' \<longrightarrow> dirty s"
  using assms(3) load_seen [OF assms(1) entry_pos(3) [OF assms(2)]] load_get [OF assms(1,2)]
  by (auto simp: fat_next_cluster_def Let_def)

section \<open>Allocation\<close>

text \<open>Specification: the clusters taken are linked one after the other.\<close>

fun link_cluster :: "(u32 \<Rightarrow> u32) \<times> u32 \<Rightarrow> u32 \<Rightarrow> (u32 \<Rightarrow> u32) \<times> u32" where
  "link_cluster (t, prev) i =
     (let t = t(i := 0x0FFFFFFF) in (if prev \<noteq> 0 then t(prev := i) else t, i))"

definition linked :: "(u32 \<Rightarrow> u32) \<Rightarrow> u32 list \<Rightarrow> u32 \<Rightarrow> u32" where
  "linked t cs = fst (foldl link_cluster (t, 0) cs)"

definition free_clusters :: "(u32 \<Rightarrow> u32) \<Rightarrow> nat \<Rightarrow> u32 list" where
  "free_clusters t n = filter (\<lambda>i. t i = 0) (map of_nat [2..<n])"

lemma linked_last: "snd (foldl link_cluster (t, 0) cs) = (if cs = [] then 0 else last cs)"
proof (cases cs rule: rev_cases)
  case (snoc ys y)
  then show ?thesis by (cases "foldl link_cluster (t, 0) ys") (simp add: Let_def)
qed simp

lemma linked_Nil [simp]: "linked t [] = t"
  by (simp add: linked_def)

lemma linked_snoc:
  "linked t (cs @ [i]) =
     (if cs \<noteq> [] \<and> last cs \<noteq> 0 then (linked t cs)(i := 0x0FFFFFFF, last cs := i)
      else (linked t cs)(i := 0x0FFFFFFF))"
proof (cases "foldl link_cluster (t, 0) cs")
  case (Pair a b)
  then show ?thesis using linked_last [of t cs] by (auto simp: linked_def Let_def)
qed

lemma linked_out: "c \<notin> set cs \<Longrightarrow> linked t cs c = t c"
  by (induction cs rule: rev_induct) (auto simp: linked_snoc)

lemma linked_chain:
  "distinct cs \<Longrightarrow> 0 \<notin> set cs \<Longrightarrow> j < length cs \<Longrightarrow>
     linked t cs (cs ! j) = (if Suc j < length cs then cs ! Suc j else 0x0FFFFFFF)"
proof (induction cs arbitrary: j rule: rev_induct)
  case (snoc i cs)
  show ?case
  proof (cases "j < length cs")
    case False
    then have "j = length cs" using snoc.prems by simp
    then show ?thesis using snoc.prems by (auto simp: linked_snoc)
  next
    case True
    then have ne: "cs \<noteq> []" by auto
    have i: "cs ! j \<noteq> i" using True snoc.prems by auto
    show ?thesis
    proof (cases "Suc j < length cs")
      case True
      then have "cs ! j \<noteq> last cs"
        using snoc.prems ne by (simp add: last_conv_nth nth_eq_iff_index_eq)
      then show ?thesis using True \<open>j < length cs\<close> snoc i by (simp add: linked_snoc nth_append)
    next
      case False
      then have "j = length cs - 1" using True by simp
      then have "cs ! j = last cs" "Suc j = length cs" using ne True by (simp_all add: last_conv_nth)
      moreover have "last cs \<noteq> 0" using ne snoc.prems by (metis Un_iff last_in_set set_append)
      ultimately show ?thesis using ne i True by (simp add: linked_snoc nth_append)
    qed
  qed
qed simp

lemma free_clusters_Suc:
  "2 \<le> n \<Longrightarrow> free_clusters t (Suc n) = free_clusters t n @ (if t (of_nat n) = 0 then [of_nat n] else [])"
  by (simp add: free_clusters_def)

lemma free_clusters_in:
  assumes "c \<in> set (free_clusters t n)" and "n \<le> 2 ^ 32"
  shows "2 \<le> unat c \<and> unat c < n \<and> t c = 0"
proof -
  from assms(1) obtain k where k: "2 \<le> k" "k < n" "c = of_nat k" "t c = 0"
    by (auto simp: free_clusters_def)
  then have "unat c = k" using assms(2) by (simp add: unat_of_nat_fits)
  then show ?thesis using k by simp
qed

lemma free_clusters_distinct:
  assumes "n \<le> 2 ^ 32"
  shows "distinct (free_clusters t n)" "0 \<notin> set (free_clusters t n)"
proof -
  have "inj_on (of_nat :: nat \<Rightarrow> u32) {2..<n}"
    using assms by (intro inj_on_inverseI [of _ unat]) (simp add: unat_of_nat_fits)
  then show "distinct (free_clusters t n)"
    unfolding free_clusters_def by (intro distinct_filter) (simp add: distinct_map)
  show "0 \<notin> set (free_clusters t n)" using free_clusters_in [of 0 t n] assms by auto
qed

text \<open>The volume's clusters all lie in the table, before the data area.\<close>

definition geometry :: "fatfs \<Rightarrow> bool" where
  "geometry s \<longleftrightarrow> sectors_per_cluster (boot s) \<noteq> 0 \<and> unat (total_clusters s) + 2 < 2 ^ 32 \<and>
     (\<forall>c. 2 \<le> unat c \<longrightarrow> unat c < unat (total_clusters s) + 2 \<longrightarrow> in_table s c) \<and>
     (\<forall>c. unat c < unat (total_clusters s) + 2 \<longrightarrow> fat_sector c s < data_start s) \<and>
     unat (data_start s) + unat (total_clusters s) * unat (sectors_per_cluster (boot s)) \<le> 2 ^ 28"

lemma geometry_same: "same_rest s s' \<Longrightarrow> geometry s' = geometry s"
  by (simp add: geometry_def total_clusters_def in_table_def fat_sector_def same_rest_def)

lemma total_clusters_same: "same_rest s s' \<Longrightarrow> total_clusters s' = total_clusters s"
  by (simp add: total_clusters_def same_rest_def)

text \<open>
  The loop of \<^verbatim>\<open>fat_alloc_cluster\<close> before cluster \<open>n\<close>: it has taken and linked the first free
  clusters below \<open>n\<close>, at most \<open>k\<close>.
\<close>

definition alloc_inv :: "fatfs \<Rightarrow> nat \<Rightarrow> nat \<Rightarrow> fatfs \<times> u32 \<times> u32 \<times> u32 \<Rightarrow> bool" where
  "alloc_inv s0 k n = (\<lambda>(s, count, prev, first).
     let cs = take k (free_clusters (fat_entry s0) n)
     in cache_ok s \<and> same_rest s0 s \<and> unat count = k - length cs \<and>
        prev = (if cs = [] then 0 else last cs) \<and> first = (if cs = [] then 0 else hd cs) \<and>
        (\<forall>c. in_table s0 c \<longrightarrow> fat_entry s c = linked (fat_entry s0) cs c) \<and>
        (\<forall>l. (\<forall>c. 2 \<le> unat c \<longrightarrow> unat c < n \<longrightarrow> l \<noteq> fat_sector c s0) \<longrightarrow> seen s l = seen s0 l))"

lemma alloc_round_inv:
  assumes geo: "geometry s0" and w: "2 \<le> w" "w < total_clusters s0 + 2"
    and inv: "alloc_inv s0 k (unat w) st"
  shows "alloc_inv s0 k (Suc (unat w)) (alloc_round w st)"
proof -
  obtain s count prev first where st: "st = (s, count, prev, first)" by (cases st)
  let ?t = "fat_entry s0" and ?n = "unat w"
  let ?cs = "take k (free_clusters ?t ?n)"
  have tot: "unat (total_clusters s0 + 2) = unat (total_clusters s0) + 2"
    using geo unat_add_fits [of "total_clusters s0" 2] by (simp add: geometry_def)
  then have w': "2 \<le> ?n" "?n < unat (total_clusters s0) + 2"
    using w by (simp_all add: word_le_nat_alt word_less_nat_alt)
  then have it: "in_table s0 w" using geo by (simp add: geometry_def)
  have "?n < 2 ^ 32" using unsigned_less [of w] by simp
  then have n32: "?n \<le> 2 ^ 32" by simp
  from inv have s: "cache_ok s" "same_rest s0 s" "unat count = k - length ?cs"
    "prev = (if ?cs = [] then 0 else last ?cs)" "first = (if ?cs = [] then 0 else hd ?cs)"
    "\<And>c. in_table s0 c \<Longrightarrow> fat_entry s c = linked ?t ?cs c"
    "\<And>l. (\<forall>c. 2 \<le> unat c \<longrightarrow> unat c < ?n \<longrightarrow> l \<noteq> fat_sector c s0) \<Longrightarrow> seen s l = seen s0 l"
    by (auto simp: alloc_inv_def st Let_def)
  note sec = fat_sector_same [OF s(2)] and itb = in_table_same [OF s(2)]
  have cs_lt: "c \<in> set ?cs \<Longrightarrow> 2 \<le> unat c \<and> unat c < ?n" for c
    using free_clusters_in [OF in_set_takeD n32] by blast
  have w_out: "w \<notin> set ?cs" using cs_lt by auto
  have suc: "free_clusters ?t (Suc ?n) = free_clusters ?t ?n @ (if ?t w = 0 then [w] else [])"
    using free_clusters_Suc [OF w'(1), of ?t] by simp
  show ?thesis
  proof (cases "count = 0")
    case True
    then have "take k (free_clusters ?t (Suc ?n)) = ?cs" using s(3) suc by simp
    then show ?thesis using True s by (auto simp: alloc_inv_def st alloc_round_def Let_def)
  next
    case False
    note ld = load_seen [OF s(1) entry_pos(3) [OF it [folded itb]]]
    have get: "cache_get (entry_index w) (cache_load (fat_sector w s) s) = ?t w"
      using load_get [OF s(1) it [folded itb]] s(6) [OF it] linked_out [OF w_out, of ?t] by simp
    have short: "length (free_clusters ?t ?n) < k"
      using False s(3) by (metis length_take min.absorb_iff2 diff_is_0_eq linorder_not_less
          unat_eq_0 min.commute nle_le)
    then have cs: "?cs = free_clusters ?t ?n" by simp
    show ?thesis
    proof (cases "?t w = 0")
      case False
      then have "take k (free_clusters ?t (Suc ?n)) = ?cs" using suc by simp
      then show ?thesis
        using False \<open>count \<noteq> 0\<close> get s ld same_rest_trans [OF s(2) ld(3)]
        by (auto simp: alloc_inv_def st alloc_round_def Let_def fat_entry_same [OF ld(3,2)])
    next
      case True
      have new: "take k (free_clusters ?t (Suc ?n)) = ?cs @ [w]" using suc True short cs by simp
      have pin: "in_table s0 prev" if "prev \<noteq> 0"
        using that s(4) cs_lt [OF last_in_set] w' geo by (auto simp: geometry_def split: if_splits)
      define s1 where "s1 = fat_write w 0x0FFFFFFF s"
      define s2 where "s2 = (if prev \<noteq> 0 then fat_write prev w s1 else s1)"
      have round: "alloc_round w st = (s2, count - 1, w, if first = 0 then w else first)"
        using True False get by (simp add: st alloc_round_def Let_def s1_def s2_def fat_write_def)
      note w1 = fat_write_seen [OF s(1) it [folded itb], where v = "0x0FFFFFFF", folded s1_def]
      have r1: "same_rest s0 s1" by (rule same_rest_trans [OF s(2) w1(2)])
      have e1: "fat_entry s1 c = (if c = w then 0x0FFFFFFF else linked ?t ?cs c)" if "in_table s0 c" for c
        using w1(3) [of c] that itb s(6) by simp
      have ok2: "cache_ok s2" "same_rest s0 s2"
        using fat_write_seen(1,2) [OF w1(1), where c = prev and v = w] pin in_table_same [OF r1] w1(1) r1
        by (auto simp: s2_def intro: same_rest_trans)
      have e2: "fat_entry s2 c = linked ?t (?cs @ [w]) c" if c: "in_table s0 c" for c
      proof (cases "prev = 0")
        case True
        then have "?cs = [] \<or> last ?cs = 0" using s(4) by (auto split: if_splits)
        then show ?thesis using True e1 [OF c] by (auto simp: s2_def linked_snoc)
      next
        case False
        then have "?cs \<noteq> [] \<and> last ?cs = prev" using s(4) by (auto split: if_splits)
        then show ?thesis
          using False e1 [OF c] fat_write_seen(3) [OF w1(1), where c = prev and v = w and d = c] pin [OF False] c
            in_table_same [OF r1]
          by (auto simp: s2_def linked_snoc)
      qed
      have out: "seen s2 l = seen s0 l"
        if l: "\<forall>c. 2 \<le> unat c \<longrightarrow> unat c < Suc ?n \<longrightarrow> l \<noteq> fat_sector c s0" for l
      proof -
        have "seen s1 l = seen s0 l"
          using w1(4) [of l] s(7) [of l] l w' by (auto simp: sec)
        moreover have "prev \<noteq> 0 \<Longrightarrow> l \<noteq> fat_sector prev s1"
          using l s(4) cs_lt [OF last_in_set] by (auto simp: fat_sector_same [OF r1] split: if_splits)
        ultimately show ?thesis
          using fat_write_seen(4) [OF w1(1), where c = prev and v = w and l = l] pin in_table_same [OF r1]
          by (auto simp: s2_def)
      qed
      have cnt: "unat (count - 1) = k - length (?cs @ [w])"
        using False s(3) short unat_pred [of count] by (simp add: word_neq_0_conv min_absorb1)
      have fst: "(if first = 0 then w else first) = hd (?cs @ [w])"
        using s(5) cs_lt [of "hd ?cs"] by (auto split: if_splits)
      show ?thesis
        unfolding round alloc_inv_def new Let_def split using ok2 e2 out cnt fst by auto
    qed
  qed
qed

lemma alloc_loop_inv:
  assumes "cache_ok s" and geo: "geometry s"
  shows "alloc_inv s (unat count) (unat (total_clusters s) + 2)
    (for_range 2 (total_clusters s + 2) alloc_round (s, count, 0, 0))"
proof -
  have tot: "unat (total_clusters s + 2) = unat (total_clusters s) + 2"
    using geo unat_add_fits [of "total_clusters s" 2] by (simp add: geometry_def)
  have "alloc_inv s (unat count) (unat (2::u32)) (s, count, 0, 0)"
    using assms(1) by (simp add: alloc_inv_def free_clusters_def)
  moreover have "(2::u32) \<le> total_clusters s + 2" using tot by (simp add: word_le_nat_alt)
  ultimately have "alloc_inv s (unat count) (unat (total_clusters s + 2))
      (for_range 2 (total_clusters s + 2) alloc_round (s, count, 0, 0))"
    by (rule for_range_inv) (rule alloc_round_inv [OF geo])
  then show ?thesis unfolding tot .
qed

text \<open>The clusters \<^verbatim>\<open>fat_alloc_cluster\<close> takes for \<open>sz\<close> bytes.\<close>

definition wanted :: "u32 \<Rightarrow> fatfs \<Rightarrow> nat" where
  "wanted sz s = unat ((sz + ucast (sectors_per_cluster (boot s)) * 512 - 1)
     div (ucast (sectors_per_cluster (boot s)) * 512))"

definition all_free :: "fatfs \<Rightarrow> u32 list" where
  "all_free s = free_clusters (fat_entry s) (unat (total_clusters s) + 2)"

lemma alloc_spec:
  assumes ok: "cache_ok s" and geo: "geometry s"
    and al: "fat_alloc_cluster sz s = (s', r)" and cs: "cs = take (wanted sz s) (all_free s)"
  shows "cache_ok s'" "\<not> dirty s'" "same_rest s s'" "r = (if cs = [] then 0 else hd cs)"
    "in_table s c \<Longrightarrow> fat_entry s' c = linked (fat_entry s) cs c"
    "data_start s \<le> l \<Longrightarrow> seen s' l = seen s l"
proof -
  define count where "count = (sz + ucast (sectors_per_cluster (boot s)) * 512 - 1)
     div (ucast (sectors_per_cluster (boot s)) * 512)"
  obtain s1 n p where lp: "for_range 2 (total_clusters s + 2) alloc_round (s, count, 0, 0) = (s1, n, p, r)"
    and s': "s' = fat_cache_flush s1"
    using al by (auto simp: fat_alloc_cluster_def Let_def count_def split: prod.splits)
  have cs': "cs = take (unat count) (free_clusters (fat_entry s) (unat (total_clusters s) + 2))"
    by (simp add: cs wanted_def all_free_def count_def)
  note inv = alloc_loop_inv [OF ok geo, of count, unfolded lp alloc_inv_def split Let_def, folded cs']
  then have s1: "cache_ok s1" "same_rest s s1" by auto
  note fl = flush_seen [OF s1(1)]
  show "cache_ok s'" "\<not> dirty s'" using fl s' by simp_all
  show r: "same_rest s s'" using same_rest_trans [OF s1(2) fl(3)] s' by simp
  show "r = (if cs = [] then 0 else hd cs)" using inv by simp
  show "in_table s c \<Longrightarrow> fat_entry s' c = linked (fat_entry s) cs c"
    using inv fat_entry_same [OF fl(3,2)] s' by simp
  show "seen s' l = seen s l" if l: "data_start s \<le> l"
  proof -
    have "\<forall>c. 2 \<le> unat c \<longrightarrow> unat c < unat (total_clusters s) + 2 \<longrightarrow> l \<noteq> fat_sector c s"
      using geo l unfolding geometry_def by (metis linorder_not_less)
    then show ?thesis using inv fl(2) s' by auto
  qed
qed

text \<open>One byte wants one cluster: the first free one.\<close>

lemma wanted_1: "geometry s \<Longrightarrow> wanted 1 s = 1"
proof -
  assume g: "geometry s"
  let ?c = "sectors_per_cluster (boot s)"
  have "unat ?c < 256" "?c \<noteq> 0" using unsigned_less [of ?c] g by (simp_all add: geometry_def)
  then have c: "unat (ucast ?c * 512 :: u32) = unat ?c * 512" "0 < unat ?c"
    using unat_mult_fits [of "ucast ?c :: u32" 512]
    by (simp_all add: unat_ucast_up unat_gt_0)
  have "(1 + ucast ?c * 512 - 1 :: u32) = ucast ?c * 512" by simp
  then show ?thesis using c by (simp add: wanted_def unat_div)
qed

section \<open>Data sectors\<close>

lemma ata_write_seen:
  assumes "cache_ok s" and "l < 0x10000000" and "l \<noteq> cached_nr s" and "length b = 512"
  shows "cache_ok (ata_write l b s)" "seen (ata_write l b s) = (seen s)(l := b)"
    "same_rest s (ata_write l b s)" "cached_nr (ata_write l b s) = cached_nr s"
    "dirty (ata_write l b s) = dirty s"
  using assms
  by (auto simp: ata_write_def cache_ok_def seen_def same_rest_def lba28_id fun_eq_iff)

lemma ata_read_seen:
  assumes "l < 0x10000000" and "l \<noteq> cached_nr s"
  shows "ata_read l s = seen s l"
  using assms by (simp add: ata_read_def seen_def lba28_id)

text \<open>The sectors of a cluster.\<close>

definition in_volume :: "fatfs \<Rightarrow> u32 \<Rightarrow> bool" where
  "in_volume s c \<longleftrightarrow> 2 \<le> unat c \<and> unat c < unat (total_clusters s) + 2"

definition cluster_sectors :: "fatfs \<Rightarrow> u32 \<Rightarrow> u32 set" where
  "cluster_sectors s c = {l. unat (cluster_sector c s) \<le> unat l \<and>
     unat l < unat (cluster_sector c s) + unat (sectors_per_cluster (boot s))}"

lemma cluster_sector_same: "same_rest s s' \<Longrightarrow> cluster_sector c s' = cluster_sector c s"
  by (simp add: cluster_sector_def same_rest_def)

lemma in_volume_same: "same_rest s s' \<Longrightarrow> in_volume s' c = in_volume s c"
  by (simp add: in_volume_def total_clusters_same)

lemma in_volume_table: "geometry s \<Longrightarrow> in_volume s c \<Longrightarrow> in_table s c"
  by (simp add: geometry_def in_volume_def)

lemma cluster_sector_unat:
  assumes "geometry s" and "in_volume s c"
  shows "unat (cluster_sector c s)
      = unat (data_start s) + (unat c - 2) * unat (sectors_per_cluster (boot s))"
    and "unat (cluster_sector c s) + unat (sectors_per_cluster (boot s)) \<le> 2 ^ 28"
proof -
  let ?p = "unat (sectors_per_cluster (boot s))"
  have c: "2 \<le> unat c" "unat c - 2 + 1 \<le> unat (total_clusters s)"
    using assms(2) by (auto simp: in_volume_def)
  have "(unat c - 2 + 1) * ?p \<le> unat (total_clusters s) * ?p" using c(2) by (rule mult_le_mono1)
  then have b: "unat (data_start s) + ((unat c - 2) * ?p + ?p) \<le> 2 ^ 28"
    using assms(1) by (simp add: geometry_def)
  have "unat (c - 2) = unat c - 2" using c(1) by (subst unat_sub_le) simp_all
  then have "unat ((c - 2) * ucast (sectors_per_cluster (boot s))) = (unat c - 2) * ?p"
    using unat_mult_fits [of "c - 2" "ucast (sectors_per_cluster (boot s))"] b
    by (simp add: unat_ucast_up)
  then show *: "unat (cluster_sector c s) = unat (data_start s) + (unat c - 2) * ?p"
    using unat_add_fits [of "data_start s" "(c - 2) * ucast (sectors_per_cluster (boot s))"] b
    by (simp add: cluster_sector_def)
  show "unat (cluster_sector c s) + ?p \<le> 2 ^ 28" using * b by simp
qed

text \<open>A sector of a cluster is a data sector with a 28-bit number.\<close>

lemma cluster_sectors_data:
  assumes "geometry s" and "in_volume s c" and "l \<in> cluster_sectors s c"
  shows "data_start s \<le> l" and "l < 0x10000000"
  using cluster_sector_unat [OF assms(1,2)] assms(3)
  by (auto simp: cluster_sectors_def word_le_nat_alt word_less_nat_alt)

lemma cluster_sector_add:
  assumes "geometry s" and "in_volume s c" and "unat i < unat (sectors_per_cluster (boot s))"
  shows "unat (cluster_sector c s + i) = unat (cluster_sector c s) + unat i"
    and "cluster_sector c s + i \<in> cluster_sectors s c"
proof -
  show "unat (cluster_sector c s + i) = unat (cluster_sector c s) + unat i"
    using unat_add_fits [of "cluster_sector c s" i] cluster_sector_unat(2) [OF assms(1,2)] assms(3)
    by simp
  then show "cluster_sector c s + i \<in> cluster_sectors s c"
    using assms(3) by (simp add: cluster_sectors_def)
qed

lemma zero_cluster_seen:
  assumes ok: "cache_ok s" and geo: "geometry s" and c: "in_volume s c"
    and nr: "cached_nr s < data_start s"
  shows "cache_ok (zero_cluster c s) \<and> same_rest s (zero_cluster c s) \<and>
    cached_nr (zero_cluster c s) = cached_nr s \<and> dirty (zero_cluster c s) = dirty s \<and>
    (\<forall>l. seen (zero_cluster c s) l = (if l \<in> cluster_sectors s c then zero_sector else seen s l))"
proof -
  let ?p = "ucast (sectors_per_cluster (boot s)) :: u32" and ?a = "cluster_sector c s"
  have p: "unat ?p = unat (sectors_per_cluster (boot s))" by (simp add: unat_ucast_up)
  define I where "I n t \<longleftrightarrow> cache_ok t \<and> same_rest s t \<and> cached_nr t = cached_nr s \<and>
    dirty t = dirty s \<and> (\<forall>l. seen t l = (if unat ?a \<le> unat l \<and> unat l < unat ?a + n
      then zero_sector else seen s l))" for n t
  have "I (unat ?p) (for_range 0 ?p (\<lambda>i s. ata_write (?a + i) zero_sector s) s)"
  proof (rule for_range_inv)
    show "I (unat (0::u32)) s" using ok by (auto simp: I_def)
    fix w t assume w: "0 \<le> w" "w < ?p" and I: "I (unat w) t"
    have wp: "unat w < unat (sectors_per_cluster (boot s))" using w(2) p by (simp add: word_less_nat_alt)
    note at = cluster_sector_add [OF geo c wp]
    note dt = cluster_sectors_data [OF geo c at(2)]
    have ne: "?a + w \<noteq> cached_nr t" using dt(1) nr I by (auto simp: I_def)
    have t: "cache_ok t" "same_rest s t" using I by (simp_all add: I_def)
    note wr = ata_write_seen [OF t(1) dt(2) ne, of zero_sector]
    have "seen (ata_write (?a + w) zero_sector t) l = (if unat ?a \<le> unat l \<and>
        unat l < unat ?a + Suc (unat w) then zero_sector else seen s l)" for l
    proof (cases "l = ?a + w")
      case True
      then show ?thesis using wr(2) at(1) by (simp add: zero_sector_def)
    next
      case False
      then have "unat l \<noteq> unat ?a + unat w" using at(1) by (metis word_unat_eq_iff)
      then show ?thesis using wr(2) False I by (auto simp: I_def zero_sector_def)
    qed
    then show "I (Suc (unat w)) (ata_write (?a + w) zero_sector t)"
      using wr I same_rest_trans [OF t(2) wr(3)] by (simp add: I_def zero_sector_def)
  qed simp
  then show ?thesis using p by (simp add: I_def zero_cluster_def cluster_sectors_def Let_def)
qed

section \<open>Extending a chain\<close>

text \<open>The search of \<^verbatim>\<open>fat_extend_chain\<close> before cluster \<open>n\<close>.\<close>

definition extend_inv :: "fatfs \<Rightarrow> nat \<Rightarrow> fatfs \<times> u32 \<Rightarrow> bool" where
  "extend_inv s0 n = (\<lambda>(s, new).
     cache_ok s \<and> same_rest s0 s \<and> (dirty s \<longrightarrow> dirty s0) \<and>
     (case free_clusters (fat_entry s0) n of
        [] \<Rightarrow> new = 0 \<and> seen s = seen s0
      | c # cs \<Rightarrow> new = c \<and>
          (\<forall>d. in_table s0 d \<longrightarrow> unat d < unat (total_clusters s0) + 2 \<longrightarrow>
             fat_entry s d = (if d = c then 0x0FFFFFFF else fat_entry s0 d)) \<and>
          (\<forall>l. data_start s0 \<le> l \<longrightarrow>
             seen s l = (if l \<in> cluster_sectors s0 c then zero_sector else seen s0 l))))"

lemma extend_round_inv:
  assumes geo: "geometry s0" and w: "2 \<le> w" "w < total_clusters s0 + 2"
    and inv: "extend_inv s0 (unat w) st"
  shows "extend_inv s0 (Suc (unat w)) (extend_round w st)"
proof -
  obtain s new where st: "st = (s, new)" by (cases st)
  let ?t = "fat_entry s0"
  have tot: "unat (total_clusters s0 + 2) = unat (total_clusters s0) + 2"
    using geo unat_add_fits [of "total_clusters s0" 2] by (simp add: geometry_def)
  then have w': "2 \<le> unat w" "unat w < unat (total_clusters s0) + 2"
    using w by (simp_all add: word_le_nat_alt word_less_nat_alt)
  then have vol: "in_volume s0 w" by (simp add: in_volume_def)
  have it: "in_table s0 w" by (rule in_volume_table [OF geo vol])
  have s: "cache_ok s" "same_rest s0 s" using inv by (auto simp: extend_inv_def st)
  have suc: "free_clusters ?t (Suc (unat w)) = free_clusters ?t (unat w) @ (if ?t w = 0 then [w] else [])"
    using free_clusters_Suc [OF w'(1), of ?t] by simp
  show ?thesis
  proof (cases "free_clusters ?t (unat w)")
    case (Cons c cs)
    have "unat w < 2 ^ 32" using unsigned_less [of w] by simp
    then have "c \<noteq> 0" using free_clusters_in [of c ?t "unat w"] Cons by auto
    then show ?thesis using inv Cons by (simp add: extend_inv_def st extend_round_def suc)
  next
    case Nil
    then have new: "new = 0" "seen s = seen s0" using inv by (simp_all add: extend_inv_def st)
    have its: "in_table s w" using it in_table_same [OF s(2)] by simp
    note ld = load_seen [OF s(1) entry_pos(3) [OF its]]
    have get: "cache_get (entry_index w) (cache_load (fat_sector w s) s) = ?t w"
      using load_get [OF s(1) its] fat_entry_same [OF s(2) new(2)] by simp
    show ?thesis
    proof (cases "?t w = 0")
      case False
      then show ?thesis using Nil ld get new inv same_rest_trans [OF s(2) ld(3)]
        by (auto simp: extend_inv_def st extend_round_def suc Let_def)
    next
      case True
      define s1 where "s1 = fat_cache_flush (fat_write w 0x0FFFFFFF s)"
      note wr = fat_write_seen [OF s(1) its, where v = "0x0FFFFFFF"]
      note fl = flush_seen [OF wr(1), folded s1_def]
      have r1: "same_rest s0 s1" by (rule same_rest_trans [OF same_rest_trans [OF s(2) wr(2)] fl(3)])
      have sw: "fat_sector w s0 < data_start s0" using geo w'(2) by (simp add: geometry_def)
      have "cached_nr s1 = fat_sector w s"
        using fl(5) ld(4) by (simp add: fat_write_def cache_put_def)
      then have nr: "cached_nr s1 < data_start s1"
        using sw fat_sector_same [OF s(2)] r1 by (simp add: same_rest_def)
      have vol1: "in_volume s1 w" using vol in_volume_same [OF r1] by simp
      note z = zero_cluster_seen [OF fl(1) geometry_same [OF r1, THEN iffD2, OF geo] vol1 nr]
      have secs: "cluster_sectors s1 w = cluster_sectors s0 w"
        using r1 cluster_sector_same [OF r1] by (simp add: cluster_sectors_def same_rest_def)
      have e1: "fat_entry s1 d = (if d = w then 0x0FFFFFFF else fat_entry s0 d)" if "in_table s0 d" for d
        using fat_entry_same [OF fl(3,2)] wr(3) [of d] that in_table_same [OF s(2)]
          fat_entry_same [OF s(2) new(2)] by simp
      have round: "extend_round w st = (zero_cluster w s1, w)"
        using True get by (simp add: st new extend_round_def Let_def s1_def fat_write_def)
      have rz: "same_rest s0 (zero_cluster w s1)" using same_rest_trans [OF r1] z by blast
      have "fat_entry (zero_cluster w s1) d = fat_entry s1 d"
        if d: "in_table s0 d" "unat d < unat (total_clusters s0) + 2" for d
      proof -
        have "fat_sector d s0 < data_start s0" using geo d by (simp add: geometry_def)
        then have "fat_sector d s1 \<notin> cluster_sectors s1 w"
          using cluster_sectors_data(1) [OF geo vol] secs fat_sector_same [OF r1] by fastforce
        then show ?thesis
          using z fat_sector_same [OF rz] fat_sector_same [OF r1] by (simp add: fat_entry_def)
      qed
      moreover have "seen s1 l = seen s0 l" if "data_start s0 \<le> l" for l
        using wr(4) [of l] that sw fat_sector_same [OF s(2)] new(2) fl(2) by auto
      ultimately show ?thesis
        using z e1 rz fl(4) unfolding round
        by (simp add: extend_inv_def suc Nil True secs)
    qed
  qed
qed

lemma extend_spec:
  assumes ok: "cache_ok s" and geo: "geometry s" and p: "in_volume s p" "fat_entry s p \<noteq> 0"
    and ext: "fat_extend_chain p s = (s', r)"
  shows "case all_free s of
      [] \<Rightarrow> r = 0x0FFFFFFF \<and> seen s' = seen s \<and> cache_ok s'
    | c # cs \<Rightarrow> r = c \<and> cache_ok s' \<and> same_rest s s' \<and> \<not> dirty s' \<and>
        (\<forall>d. in_table s d \<longrightarrow> unat d < unat (total_clusters s) + 2 \<longrightarrow>
           fat_entry s' d = (if d = p then c else if d = c then 0x0FFFFFFF else fat_entry s d)) \<and>
        (\<forall>l. data_start s \<le> l \<longrightarrow>
           seen s' l = (if l \<in> cluster_sectors s c then zero_sector else seen s l))"
proof -
  have tot: "unat (total_clusters s + 2) = unat (total_clusters s) + 2"
    using geo unat_add_fits [of "total_clusters s" 2] by (simp add: geometry_def)
  obtain s1 new where lp: "for_range 2 (total_clusters s + 2) extend_round (s, 0) = (s1, new)" by fastforce
  have "extend_inv s (unat (total_clusters s + 2)) (s1, new)"
    unfolding lp [symmetric]
  proof (rule for_range_inv)
    show "extend_inv s (unat (2::u32)) (s, 0)" using ok by (simp add: extend_inv_def free_clusters_def)
    show "2 \<le> total_clusters s + 2" using tot by (simp add: word_le_nat_alt)
  qed (rule extend_round_inv [OF geo])
  then have inv: "extend_inv s (unat (total_clusters s) + 2) (s1, new)" unfolding tot .
  show ?thesis
  proof (cases "all_free s")
    case Nil
    then have "new = 0" "seen s1 = seen s" "cache_ok s1"
      using inv by (auto simp: extend_inv_def all_free_def)
    then show ?thesis using ext Nil by (auto simp: fat_extend_chain_def lp)
  next
    case (Cons c cs)
    have i: "cache_ok s1" "same_rest s s1" "new = c"
      "\<And>d. in_table s d \<Longrightarrow> unat d < unat (total_clusters s) + 2 \<Longrightarrow>
         fat_entry s1 d = (if d = c then 0x0FFFFFFF else fat_entry s d)"
      "\<And>l. data_start s \<le> l \<Longrightarrow> seen s1 l = (if l \<in> cluster_sectors s c then zero_sector else seen s l)"
      using inv Cons by (auto simp: extend_inv_def all_free_def)
    have "unat (total_clusters s) + 2 \<le> 2 ^ 32" using geo by (simp add: geometry_def)
    from free_clusters_in [OF _ this, of c "fat_entry s"] Cons
    have c: "2 \<le> unat c" "fat_entry s c = 0" by (simp_all add: all_free_def)
    then have c0: "c \<noteq> 0" and cp: "c \<noteq> p" using p(2) by auto
    have pt: "in_table s1 p" using in_volume_table [OF geo p(1)] in_table_same [OF i(2)] by simp
    have s': "s' = fat_cache_flush (fat_write p c s1)" and r: "r = c"
      using ext c0 i(3) by (auto simp: fat_extend_chain_def lp fat_write_def Let_def)
    note wr = fat_write_seen [OF i(1) pt, where v = c]
    note fl = flush_seen [OF wr(1), folded s']
    have rest: "same_rest s s'" by (rule same_rest_trans [OF same_rest_trans [OF i(2) wr(2)] fl(3)])
    have "fat_sector p s < data_start s" using geo p(1) by (simp add: geometry_def in_volume_def)
    then have "seen s' l = seen s1 l" if "data_start s \<le> l" for l
      using wr(4) [of l] that fat_sector_same [OF i(2)] fl(2) by auto
    moreover have "fat_entry s' d = (if d = p then c else fat_entry s1 d)" if "in_table s d" for d
      using fat_entry_same [OF fl(3,2)] wr(3) [of d] that in_table_same [OF i(2)] by simp
    ultimately show ?thesis using Cons r rest fl(1,4) i(4,5) by simp
  qed
qed

section \<open>The interface to the file operations\<close>

text \<open>The clusters of a chain, in order; it ends at a number of at least \<open>END_OF_CHAIN\<close>.\<close>

fun cluster_chain :: "(u32 \<Rightarrow> u32) \<Rightarrow> u32 \<Rightarrow> u32 list \<Rightarrow> bool" where
  "cluster_chain t c [] \<longleftrightarrow> END_OF_CHAIN \<le> c"
| "cluster_chain t c (d # ds) \<longleftrightarrow>
     c = d \<and> c < END_OF_CHAIN \<and> cluster_chain t (t c AND 0x0FFFFFFF) ds"

text \<open>
  What the file operations rely on when they follow a chain: \<open>look\<close> is what they can observe of
  the state, and following the chain changes nothing of it.
\<close>

locale linked_table =
  fixes next_of :: "u32 \<Rightarrow> 's \<Rightarrow> 's \<times> u32"
    and ok :: "'s \<Rightarrow> bool"
    and look :: "'s \<Rightarrow> 'o"
    and entry :: "'o \<Rightarrow> u32 \<Rightarrow> u32"
    and valid :: "'o \<Rightarrow> u32 \<Rightarrow> bool"
  assumes next_ok: "ok s \<Longrightarrow> valid (look s) c \<Longrightarrow> next_of c s = (s', n) \<Longrightarrow>
      ok s' \<and> look s' = look s \<and> n = entry (look s) c AND 0x0FFFFFFF"
begin

text \<open>A loop over a chain ends, and is the fold of its body over the clusters of the chain.\<close>

lemma over_chain_fold:
  assumes "cluster_chain (entry (look s)) c cs" and "\<forall>d\<in>set cs. valid (look s) d" and "ok s"
    and body: "\<And>d a t. ok t \<Longrightarrow> look t = look s \<Longrightarrow> d \<in> set cs \<Longrightarrow>
      \<exists>t'. f d a t = (g (look s) d a, t') \<and> ok t' \<and> look t' = look s"
  shows "\<exists>s'. over_chain next_of f c a s = Some (fold (g (look s)) cs a, s') \<and> ok s' \<and>
    look s' = look s"
proof -
  have "\<exists>s'. over_chain next_of f c a t = Some (fold (g (look s)) ds a, s') \<and> ok s' \<and>
      look s' = look s"
    if "cluster_chain (entry (look s)) c ds" "set ds \<subseteq> set cs" "ok t" "look t = look s" for ds c a t
    using that
  proof (induction ds arbitrary: c a t)
    case Nil
    then have "\<not> c < END_OF_CHAIN" by (simp add: not_less)
    then show ?case using Nil by (subst over_chain.simps) simp
  next
    case (Cons d ds)
    have d: "c = d" "c < END_OF_CHAIN" "d \<in> set cs"
      "cluster_chain (entry (look s)) (entry (look s) d AND 0x0FFFFFFF) ds" "set ds \<subseteq> set cs"
      using Cons.prems(1,2) by auto
    obtain t1 where t1: "f d a t = (g (look s) d a, t1)" "ok t1" "look t1 = look s"
      using body [OF Cons.prems(3,4) d(3)] by blast
    obtain t2 n where n: "next_of d t1 = (t2, n)" by fastforce
    have v: "valid (look t1) d" using assms(2) d(3) t1(3) by simp
    note nx = next_ok [OF t1(2) v n]
    from Cons.IH [of n t2 "g (look s) d a"] nx t1(3) d(4,5)
    obtain s' where "over_chain next_of f n (g (look s) d a) t2
        = Some (fold (g (look s)) ds (g (look s) d a), s')" "ok s'" "look s' = look s" by auto
    then show ?case
      using d(1,2) t1(1) n by (subst over_chain.simps) (simp add: Let_def)
  qed
  from this [OF assms(1) subset_refl assms(3) refl] show ?thesis .
qed

end

text \<open>The file system without its cache.\<close>

definition flat :: "fatfs \<Rightarrow> fatfs" where
  "flat s = s\<lparr>disk := seen s, cached_nr := 0xFFFFFFFF, cached_buf := [], dirty := False\<rparr>"

lemma flat_eq_iff: "flat s' = flat s \<longleftrightarrow> seen s' = seen s \<and> same_rest s s'"
  by (cases s; cases s') (auto simp: flat_def same_rest_def)

lemma seen_flat [simp]: "seen (flat s) = seen s"
  by (auto simp: seen_def flat_def fun_eq_iff)

lemma same_rest_flat: "same_rest s (flat s)"
  by (simp add: same_rest_def flat_def)

lemma flat_flat [simp]: "flat (flat s) = flat s"
  by (simp add: flat_eq_iff same_rest_flat)

lemma flat_simps [simp]:
  "fat_entry (flat s) = fat_entry s" "in_table (flat s) = in_table s"
  "in_volume (flat s) = in_volume s" "geometry (flat s) = geometry s"
  "cluster_sector c (flat s) = cluster_sector c s" "boot (flat s) = boot s"
  "cluster_sectors (flat s) = cluster_sectors s" "cwd_cluster (flat s) = cwd_cluster s"
  using fat_entry_same [OF same_rest_flat seen_flat] in_table_same [OF same_rest_flat]
    in_volume_same [OF same_rest_flat] geometry_same [OF same_rest_flat]
    cluster_sector_same [OF same_rest_flat]
  by (simp_all add: fun_eq_iff) (simp_all add: cluster_sectors_def flat_def cluster_sector_def)

interpretation table: linked_table fat_next_cluster cache_ok flat fat_entry in_table
proof unfold_locales
  fix s s' :: fatfs and c n :: u32
  assume "cache_ok s" "in_table (flat s) c" "fat_next_cluster c s = (s', n)"
  then show "cache_ok s' \<and> flat s' = flat s \<and> n = fat_entry (flat s) c AND 0x0FFFFFFF"
    using next_cluster_seen [of s c s' n] by (simp add: flat_eq_iff)
qed

section \<open>Properties\<close>

text \<open>A volume of ten one-sector clusters; cluster 2 is the root directory, the others are free.\<close>

definition small_fs :: fatfs where
  "small_fs = \<lparr>disk = (\<lambda>l. if l = 2048 then put32 0 0x0FFFFFF8 (put32 4 0x0FFFFFFF
       (put32 8 0x0FFFFFFF zero_sector)) else zero_sector),
     boot = \<lparr>jump = [], oem = [], bytes_per_sector = 512, sectors_per_cluster = 1,
       reserved_sectors = 0, fat_count = 1, root_entries = 0, total_sectors_16 = 0,
       media_type = 0xF8, fat_size_16 = 0, sectors_per_track = 0, head_count = 0,
       hidden_sectors = 0, total_sectors_32 = 11, fat_size_32 = 1, bs_flags = 0, bs_version = 0,
       bs_root_cluster = 2\<rparr>,
     fat_start = 2048, data_start = 2049, root_cluster = 2, cwd_cluster = 2,
     cwd_path = 0x2F # replicate 255 0, cached_nr = 0xFFFFFFFF, cached_buf = zero_sector,
     dirty = False, out = []\<rparr>"

lemma small_fs_ok: "cache_ok small_fs"
  by (simp add: cache_ok_def small_fs_def zero_sector_def)

lemma small_fs_total: "total_clusters small_fs = 10"
  by (simp add: total_clusters_def small_fs_def)

lemma small_fs_geometry: "geometry small_fs"
proof -
  have t: "in_table small_fs c \<and> fat_sector c small_fs < data_start small_fs" if "unat c < 12" for c
  proof -
    have it: "in_table small_fs c" using that by (simp add: in_table_def small_fs_def)
    have "unat (fat_sector c small_fs) = 2048" using entry_pos(1) [OF it] that by (simp add: small_fs_def)
    then show ?thesis using it by (simp add: word_less_nat_alt) (simp add: small_fs_def)
  qed
  show ?thesis
    using t unfolding geometry_def small_fs_total by (simp add: small_fs_def)
qed

lemma small_fs_free: "all_free small_fs = [3, 4, 5, 6, 7, 8, 9, 10, 11]"
  unfolding all_free_def small_fs_total free_clusters_def by code_simp

text \<open>
  C37: the cache is transparent to \<^verbatim>\<open>fat_next_cluster\<close>: whatever sector is cached, clean or
  dirty, it returns the table entry with its top four bits cleared, and the volume as the code
  sees it, the geometry and the working directory stay as they are.
\<close>

theorem fat_next_cluster_transparent:
  assumes "cache_ok s" and "in_table s c" and "fat_next_cluster c s = (s', n)"
  shows "cache_ok s' \<and> flat s' = flat s \<and> n = fat_entry (flat s) c AND 0x0FFFFFFF"
  by (rule table.next_ok [OF assms(1) _ assms(3)]) (simp add: assms(2))

lemma fat_next_cluster_transparent_witness:
  "\<exists>s'. fat_next_cluster 2 small_fs = (s', 0x0FFFFFFF) \<and> cached_nr s' = 2048 \<and>
     flat s' = flat small_fs"
proof -
  obtain s' n where n: "fat_next_cluster 2 small_fs = (s', n)" by fastforce
  have it: "in_table small_fs 2" by (simp add: in_table_def small_fs_def)
  have e: "fat_entry (flat small_fs) 2 = 0x0FFFFFFF" unfolding flat_simps by code_simp
  have c: "cached_nr s' = 2048"
    using n load_seen(4) [OF small_fs_ok entry_pos(3) [OF it]]
    by (auto simp: fat_next_cluster_def Let_def fat_sector_def) (simp add: small_fs_def)
  show ?thesis
    using fat_next_cluster_transparent [OF small_fs_ok it n] n c unfolding e by simp
qed



text \<open>
  C29: \<^verbatim>\<open>fat_extend_chain\<close> appends the first free cluster, cleared, to a chain: the old end points
  to it, it is the new end, no other entry and no sector outside it changes; when no cluster is
  free it returns the end mark and the volume stays as it is.
\<close>

theorem fat_extend_chain_links:
  assumes "cache_ok s" and "geometry s" and "in_volume s p" and "fat_entry s p \<noteq> 0"
    and "fat_extend_chain p s = (s', r)"
  shows "case all_free s of
      [] \<Rightarrow> r = 0x0FFFFFFF \<and> seen s' = seen s \<and> cache_ok s'
    | c # cs \<Rightarrow> r = c \<and> cache_ok s' \<and> same_rest s s' \<and> \<not> dirty s' \<and>
        (\<forall>d. in_table s d \<longrightarrow> unat d < unat (total_clusters s) + 2 \<longrightarrow>
           fat_entry s' d = (if d = p then c else if d = c then 0x0FFFFFFF else fat_entry s d)) \<and>
        (\<forall>l. data_start s \<le> l \<longrightarrow>
           seen s' l = (if l \<in> cluster_sectors s c then zero_sector else seen s l))"
  by (rule extend_spec [OF assms])

lemma fat_extend_chain_links_witness:
  "\<exists>s'. fat_extend_chain 2 small_fs = (s', 3) \<and> fat_entry s' 2 = 3 \<and> fat_entry s' 3 = 0x0FFFFFFF"
proof -
  obtain s' r where ex: "fat_extend_chain 2 small_fs = (s', r)" by fastforce
  have v: "in_volume small_fs 2" by (simp add: in_volume_def small_fs_total)
  have e: "fat_entry small_fs 2 \<noteq> 0" by code_simp
  have it: "in_table small_fs 2" "in_table small_fs 3" by (simp_all add: in_table_def small_fs_def)
  have t: "unat (2::u32) < unat (total_clusters small_fs) + 2"
    "unat (3::u32) < unat (total_clusters small_fs) + 2" by (simp_all add: small_fs_total)
  show ?thesis
    using fat_extend_chain_links [OF small_fs_ok small_fs_geometry v e ex] ex it t
    unfolding small_fs_free by auto
qed

end
