(* ===== verification/Fat_Files.thy ===== *)
theory Fat_Files
  imports Fat_Table
begin

text \<open>
  Directories and files, the rest of \<^verbatim>\<open>src/src/drivers/fs/fat.c\<close>.  Directory and data sectors are
  read and written directly, past the table's cache.  A name is the caller's \<^verbatim>\<open>char\<close> buffer with
  its terminating NUL; loops that follow a chain of clusters are partial functions.  The loops
  over the sixteen entries of a sector, and over the sectors of a cluster, that stop at the first
  hit are written with \<open>find\<close> over the indices.
\<close>

section \<open>Names\<close>

abbreviation SPACE :: u8 where "SPACE \<equiv> 0x20"
abbreviation SLASH :: u8 where "SLASH \<equiv> 0x2F"
abbreviation DELETED :: u8 where "DELETED \<equiv> 0xE5"

function str_equal_from :: "nat \<Rightarrow> u8 list \<Rightarrow> u8 list \<Rightarrow> bool" where
  "str_equal_from i fat_name name =
     (if i < 8
      then if fat_name ! i = SPACE \<and> name ! i = 0 then True
           else if fat_name ! i \<noteq> name ! i then False
           else str_equal_from (i + 1) fat_name name
      else name ! i = 0)"
  by pat_completeness auto
termination by (relation "measure (\<lambda>(i, f, n). 8 - i)") auto

declare str_equal_from.simps [simp del]

definition str_equal_fat :: "u8 list \<Rightarrow> u8 list \<Rightarrow> bool" where
  "str_equal_fat fat_name name = str_equal_from 0 fat_name name"

text \<open>\<^verbatim>\<open>for (j = 0; j < n && src[j] != 0; j++) dst[j] = src[j];\<close>\<close>

function copy_field :: "nat \<Rightarrow> nat \<Rightarrow> u8 list \<Rightarrow> u8 list \<Rightarrow> u8 list" where
  "copy_field j n src dst =
     (if j < n \<and> src ! j \<noteq> 0 then copy_field (j + 1) n src (dst[j := src ! j]) else dst)"
  by pat_completeness auto
termination by (relation "measure (\<lambda>(j, n, s, d). n - j)") auto

declare copy_field.simps [simp del]

definition put_name :: "u8 list \<Rightarrow> u8 list" where
  "put_name name = copy_field 0 8 name (replicate 8 SPACE)"

definition put_ext :: "u8 list \<Rightarrow> u8 list" where
  "put_ext ext = copy_field 0 3 ext (replicate 3 SPACE)"

text \<open>The characters of a NUL-terminated buffer.\<close>

definition cstring :: "u8 list \<Rightarrow> u8 list" where
  "cstring b = takeWhile (\<lambda>c. c \<noteq> 0) b"

section \<open>The working directory's path\<close>

fun put_string :: "nat \<Rightarrow> u8 list \<Rightarrow> u8 list \<Rightarrow> u8 list" where
  "put_string i [] p = p"
| "put_string i (c # cs) p = put_string (i + 1) cs (p[i := c])"

definition str_end :: "u8 list \<Rightarrow> fatfs \<Rightarrow> fatfs" where
  "str_end name s =
     (case find (\<lambda>i. cwd_path s ! i = 0) [0..<256] of None \<Rightarrow> s
      | Some i \<Rightarrow>
        let p = put_string i (cstring name) (cwd_path s);
            i = i + length (cstring name);
            p = p[i := SLASH]
        in s\<lparr>cwd_path := p[i + 1 := 0]\<rparr>)"

definition fat_cd_root :: "fatfs \<Rightarrow> fatfs" where
  "fat_cd_root s =
     (let s = s\<lparr>cwd_cluster := root_cluster s\<rparr> in s\<lparr>cwd_path := (cwd_path s)[0 := 0]\<rparr>)"

definition fat_get_cwdpath :: "fatfs \<Rightarrow> u8 list" where
  "fat_get_cwdpath s = cwd_path s"

primrec back_to_slash :: "u8 list \<Rightarrow> nat \<Rightarrow> nat" where
  "back_to_slash p 0 = 0"
| "back_to_slash p (Suc i) = (if p ! Suc i \<noteq> SLASH then back_to_slash p i else Suc i)"

definition path_back :: "u8 list \<Rightarrow> u8 list" where
  "path_back p =
     (let i = length (cstring p);
          i = (if i > 0 then i - 1 else i);
          i = (if i > 0 \<and> p ! i = SLASH then i - 1 else i);
          i = back_to_slash p i
      in p[i + 1 := 0])"

definition fat_cd_back :: "fatfs \<Rightarrow> fatfs" where
  "fat_cd_back s =
     (if cwd_cluster s = root_cluster s then kprint (line ''Bereits im root Verzeichnis'') s
      else
       let buf = ata_read (cluster_sector (cwd_cluster s) s) s;
           parent = entry_cluster (read_entry buf 1);
           parent = (if parent = 0 then root_cluster s else parent);
           s = s\<lparr>cwd_cluster := parent\<rparr>
       in s\<lparr>cwd_path := path_back (cwd_path s)\<rparr>)"

section \<open>Looking through directories\<close>

definition first_byte :: "FAT32DirEntry \<Rightarrow> u8" where
  "first_byte e = de_name e ! 0"

definition find_entry :: "(FAT32DirEntry \<Rightarrow> bool) \<Rightarrow> sector \<Rightarrow> nat option" where
  "find_entry P buf = find (\<lambda>i. P (read_entry buf i)) [0..<16]"

definition sector_of :: "u32 \<Rightarrow> nat \<Rightarrow> fatfs \<Rightarrow> u32" where
  "sector_of c k s = cluster_sector c s + of_nat k"

definition spc :: "fatfs \<Rightarrow> nat" where
  "spc s = unat (sectors_per_cluster (boot s))"

text \<open>The first sector of a cluster with a matching entry, and the index of the first match.\<close>

definition find_in_cluster :: "(FAT32DirEntry \<Rightarrow> bool) \<Rightarrow> u32 \<Rightarrow> fatfs \<Rightarrow> (u32 \<times> nat) option" where
  "find_in_cluster P c s =
     (case find (\<lambda>k. find_entry P (ata_read (sector_of c k s) s) \<noteq> None) [0..<spc s] of
        None \<Rightarrow> None
      | Some k \<Rightarrow> (case find_entry P (ata_read (sector_of c k s) s) of None \<Rightarrow> None
                  | Some i \<Rightarrow> Some (sector_of c k s, i)))"

text \<open>
  The loop of \<^verbatim>\<open>fat_rename_file\<close>, \<^verbatim>\<open>fat_read_file\<close> and \<^verbatim>\<open>fat_write_data\<close>: the first match of a
  directory chain.
\<close>

partial_function (option) search_chain ::
  "(FAT32DirEntry \<Rightarrow> bool) \<Rightarrow> u32 \<Rightarrow> fatfs \<Rightarrow> (fatfs \<times> (u32 \<times> nat) option) option" where
  "search_chain P c s =
     (case find_in_cluster P c s of Some hit \<Rightarrow> Some (s, Some hit)
      | None \<Rightarrow> (let (s, nxt) = fat_next_cluster c s
                in if nxt \<ge> END_OF_CHAIN then Some (s, None) else search_chain P nxt s))"

text \<open>All entries of a cluster's sectors, in the order the loops visit them.\<close>

definition sector_entries :: "sector \<Rightarrow> FAT32DirEntry list" where
  "sector_entries buf = map (read_entry buf) [0..<16]"

definition cluster_entries :: "u32 \<Rightarrow> fatfs \<Rightarrow> FAT32DirEntry list" where
  "cluster_entries c s =
     concat (map (\<lambda>k. sector_entries (ata_read (sector_of c k s) s)) [0..<spc s])"

definition not_end :: "FAT32DirEntry \<Rightarrow> bool" where
  "not_end e \<longleftrightarrow> first_byte e \<noteq> 0"

definition named :: "u8 list \<Rightarrow> FAT32DirEntry \<Rightarrow> bool" where
  "named name e \<longleftrightarrow> str_equal_fat (de_name e) name"

definition taken :: "u8 list \<Rightarrow> FAT32DirEntry list \<Rightarrow> bool" where
  "taken name es \<longleftrightarrow> (\<exists>e\<in>set (takeWhile not_end es). first_byte e \<noteq> DELETED \<and> named name e)"

subsection \<open>Listing\<close>

definition show_size :: "u32 \<Rightarrow> msg list" where
  "show_size sz =
     (if sz < 1024 then [Str ''    '', Num sz, Str '' B'']
      else if sz < 1024 * 1024 then [Str ''    '', Num (sz div 1024), Str '' KB'']
      else if sz < 1024 * 1024 * 1024 then [Str ''    '', Num (sz div (1024 * 1024)), Str '' MB'']
      else [Str ''    '', Num (sz div (1024 * 1024 * 1024)), Str '' GB''])"

definition show_chars :: "u8 list \<Rightarrow> msg list" where
  "show_chars cs = map Char (takeWhile (\<lambda>c. c \<noteq> SPACE) cs)"

definition show_entry :: "FAT32DirEntry \<Rightarrow> msg list" where
  "show_entry e =
     (if first_byte e = DELETED then [] else if first_byte e < 0x20 then []
      else if first_byte e = 0x2E then []
      else if attributes e = 0x10 then [Str ''[DIR] ''] @ show_chars (de_name e) @ [Char 10]
      else show_chars (de_name e) @ [Str ''.''] @ show_chars (de_ext e) @ show_size (de_size e)
             @ [Char 10])"

partial_function (option) list_from :: "u32 \<Rightarrow> fatfs \<Rightarrow> fatfs option" where
  "list_from c s =
     (if c < END_OF_CHAIN then
       (let es = cluster_entries c s;
            s = kprint (concat (map show_entry (takeWhile not_end es))) s
        in if \<not> (\<forall>e\<in>set es. not_end e) then Some s
           else (let (s, nxt) = fat_next_cluster c s in list_from nxt s))
      else Some s)"

definition fat_list_dir :: "fatfs \<Rightarrow> fatfs option" where
  "fat_list_dir s = list_from (cwd_cluster s) s"

section \<open>Creating files and directories\<close>

text \<open>The check for duplicates of \<^verbatim>\<open>fat_write_file\<close>: the first sector of each cluster only.\<close>

partial_function (option) file_exists_from :: "u8 list \<Rightarrow> u32 \<Rightarrow> fatfs \<Rightarrow> (fatfs \<times> bool) option" where
  "file_exists_from name c s =
     (if c < END_OF_CHAIN then
       (if taken name (sector_entries (ata_read (cluster_sector c s) s)) then Some (s, True)
        else (let (s, nxt) = fat_next_cluster c s in file_exists_from name nxt s))
      else Some (s, False))"

definition free_slot :: "FAT32DirEntry \<Rightarrow> bool" where
  "free_slot e \<longleftrightarrow> first_byte e = 0 \<or> first_byte e = DELETED"

definition new_file :: "u8 list \<Rightarrow> u8 list \<Rightarrow> FAT32DirEntry \<Rightarrow> FAT32DirEntry" where
  "new_file name ext e = e\<lparr>de_name := put_name name, de_ext := put_ext ext, attributes := 0x20,
     de_size := 0\<rparr>"

text \<open>Fill slot \<open>i\<close> of sector \<open>l\<close> with \<open>e\<close> and the cluster allocated for it.\<close>

definition fill_slot :: "(FAT32DirEntry \<Rightarrow> FAT32DirEntry) \<Rightarrow> u32 \<Rightarrow> nat \<Rightarrow> fatfs \<Rightarrow> fatfs \<times> u32" where
  "fill_slot f l i s =
     (let buf = ata_read l s;
          e = f (read_entry buf i);
          (s, cluster) = fat_alloc_cluster 1 s;
          buf = write_entry i (set_cluster cluster e) buf
      in (ata_write l buf s, cluster))"

partial_function (option) place_file :: "u8 list \<Rightarrow> u8 list \<Rightarrow> u32 \<Rightarrow> fatfs \<Rightarrow> fatfs option" where
  "place_file name ext c s =
     (case find_in_cluster free_slot c s of
        Some (l, i) \<Rightarrow> Some (fst (fill_slot (new_file name ext) l i s))
      | None \<Rightarrow>
          (let (s, nxt) = fat_next_cluster c s
           in if nxt \<ge> END_OF_CHAIN
              then (let (s, nxt) = fat_extend_chain c s
                    in if nxt \<ge> END_OF_CHAIN
                       then Some (kprint (line ''Kein Platz im Root-Directory'') s)
                       else place_file name ext nxt s)
              else place_file name ext nxt s))"

definition fat_write_file :: "u8 list \<Rightarrow> u8 list \<Rightarrow> fatfs \<Rightarrow> fatfs option" where
  "fat_write_file name ext s =
     (case file_exists_from name (cwd_cluster s) s of None \<Rightarrow> None
      | Some (s, True) \<Rightarrow> Some (kprint (line ''Datei existiert bereits'') s)
      | Some (s, False) \<Rightarrow> place_file name ext (cwd_cluster s) s)"

definition dot_entry :: "u8 list \<Rightarrow> u32 \<Rightarrow> FAT32DirEntry \<Rightarrow> FAT32DirEntry" where
  "dot_entry dots c e =
     set_cluster c (e\<lparr>de_name := dots @ replicate (8 - length dots) SPACE,
       de_ext := replicate 3 SPACE, attributes := 0x10\<rparr>)"

definition fat_init_dir_cluster :: "u32 \<Rightarrow> u32 \<Rightarrow> fatfs \<Rightarrow> fatfs" where
  "fat_init_dir_cluster cluster parent_cluster s =
     (let buf = replicate 512 0;
          buf = write_entry 0 (dot_entry [0x2E] cluster (read_entry buf 0)) buf;
          buf = write_entry 1 (dot_entry [0x2E, 0x2E] parent_cluster (read_entry buf 1)) buf
      in ata_write (cluster_sector cluster s) buf s)"

text \<open>The check of \<^verbatim>\<open>fat_create_dir\<close>: every sector, up to the end mark.\<close>

partial_function (option) dir_exists_from :: "u8 list \<Rightarrow> u32 \<Rightarrow> fatfs \<Rightarrow> (fatfs \<times> bool) option" where
  "dir_exists_from name c s =
     (if c < END_OF_CHAIN then
       (let es = cluster_entries c s
        in if taken name es then Some (s, True)
           else if \<not> (\<forall>e\<in>set es. not_end e) then Some (s, False)
           else (let (s, nxt) = fat_next_cluster c s in dir_exists_from name nxt s))
      else Some (s, False))"

definition new_dir :: "u8 list \<Rightarrow> FAT32DirEntry \<Rightarrow> FAT32DirEntry" where
  "new_dir name e = e\<lparr>de_name := put_name name, de_ext := replicate 3 SPACE, attributes := 0x10,
     de_size := 0\<rparr>"

partial_function (option) place_dir :: "u8 list \<Rightarrow> u32 \<Rightarrow> fatfs \<Rightarrow> fatfs option" where
  "place_dir name c s =
     (case find_in_cluster free_slot c s of
        Some (l, i) \<Rightarrow> (let (s, cluster) = fill_slot (new_dir name) l i s
                       in Some (fat_init_dir_cluster cluster c s))
      | None \<Rightarrow>
          (let (s, nxt) = fat_next_cluster c s
           in if nxt \<ge> END_OF_CHAIN
              then (let (s, nxt) = fat_extend_chain c s
                    in if nxt \<ge> END_OF_CHAIN
                       then Some (kprint (line ''Kein Platz mehr Uebrig'') s)
                       else place_dir name nxt s)
              else place_dir name nxt s))"

definition fat_create_dir :: "u8 list \<Rightarrow> fatfs \<Rightarrow> fatfs option" where
  "fat_create_dir name s =
     (let s = kprint (map Char (take 8 (cstring name)) @ [Char 10]) s
      in case dir_exists_from name (cwd_cluster s) s of None \<Rightarrow> None
         | Some (s, True) \<Rightarrow> Some (kprint (line ''Datei existiert bereits'') s)
         | Some (s, False) \<Rightarrow> place_dir name (cwd_cluster s) s)"

section \<open>Changing into a directory\<close>

definition dir_named :: "u8 list \<Rightarrow> FAT32DirEntry \<Rightarrow> bool" where
  "dir_named name e \<longleftrightarrow> attributes e = 0x10 \<and> named name e"

text \<open>The \<^verbatim>\<open>break\<close> leaves the entry loop only, so the sectors after a hit are still looked at.\<close>

definition open_sector :: "u8 list \<Rightarrow> u32 \<Rightarrow> nat \<Rightarrow> fatfs \<times> bool \<Rightarrow> fatfs \<times> bool" where
  "open_sector name c k = (\<lambda>(s, found).
     let buf = ata_read (sector_of c k s) s
     in case find_entry (dir_named name) buf of None \<Rightarrow> (s, found)
        | Some i \<Rightarrow>
          (str_end name (s\<lparr>cwd_cluster := entry_cluster (read_entry buf i)\<rparr>), True))"

partial_function (option) open_from :: "u8 list \<Rightarrow> u32 \<Rightarrow> bool \<Rightarrow> fatfs \<Rightarrow> (fatfs \<times> bool) option" where
  "open_from name c found s =
     (if c < END_OF_CHAIN then
       (let (s, found) = fold (open_sector name c) [0..<spc s] (s, found);
            (s, nxt) = fat_next_cluster c s
        in if found then Some (s, found) else open_from name nxt found s)
      else Some (s, found))"

definition fat_open_dir :: "u8 list \<Rightarrow> fatfs \<Rightarrow> fatfs option" where
  "fat_open_dir name s =
     (case open_from name (cwd_cluster s) False s of None \<Rightarrow> None
      | Some (s, found) \<Rightarrow>
          Some (if found then s
                else kprint (Str ''Ordner nicht gefunden: '' # map Char (cstring name) @ [Char 10]) s))"

section \<open>Deleting and renaming\<close>

text \<open>Frees a chain: the table is read through the cache but written past it.\<close>

partial_function (option) free_chain :: "u32 \<Rightarrow> fatfs \<Rightarrow> fatfs option" where
  "free_chain file_cluster s =
     (if file_cluster < END_OF_CHAIN then
       (let (s, nxt) = fat_next_cluster file_cluster s;
            sec = fat_sector file_cluster s;
            fbuf = ata_read sec s;
            fbuf = put32 (4 * unat (entry_index file_cluster)) 0 fbuf
        in free_chain nxt (ata_write sec fbuf s))
      else Some s)"

text \<open>The entry loop of \<^verbatim>\<open>fat_delete_file\<close>; it does not stop at the first match.\<close>

fun delete_entries :: "u8 list \<Rightarrow> u32 \<Rightarrow> nat list \<Rightarrow> sector \<Rightarrow> fatfs \<Rightarrow> fatfs option" where
  "delete_entries name l [] buf s = Some s"
| "delete_entries name l (j # js) buf s =
     (let e = read_entry buf j
      in if named name e then
           (let buf = write_entry j (e\<lparr>de_name := (de_name e)[0 := DELETED]\<rparr>) buf
            in case free_chain (entry_cluster e) (ata_write l buf s) of None \<Rightarrow> None
               | Some s \<Rightarrow> delete_entries name l js buf s)
         else delete_entries name l js buf s)"

partial_function (option) delete_from :: "u8 list \<Rightarrow> u32 \<Rightarrow> fatfs \<Rightarrow> fatfs option" where
  "delete_from name c s =
     (case find_in_cluster (named name) c s of
        Some (l, i) \<Rightarrow> delete_entries name l [0..<16] (ata_read l s) s
      | None \<Rightarrow>
          (let (s, nxt) = fat_next_cluster c s
           in if nxt \<ge> END_OF_CHAIN then Some (kprint (line ''Datei nicht gefunden :('') s)
              else delete_from name nxt s))"

definition fat_delete_file :: "u8 list \<Rightarrow> fatfs \<Rightarrow> fatfs option" where
  "fat_delete_file name s = delete_from name (cwd_cluster s) s"

definition fat_rename_file :: "u8 list \<Rightarrow> u8 list \<Rightarrow> fatfs \<Rightarrow> fatfs option" where
  "fat_rename_file old new s =
     (case search_chain (named old) (cwd_cluster s) s of None \<Rightarrow> None
      | Some (s, None) \<Rightarrow> Some (kprint [Str ''nicht gefunden :(n''] s)
      | Some (s, Some (l, i)) \<Rightarrow>
          (let buf = ata_read l s;
               e = (read_entry buf i)\<lparr>de_name := put_name new\<rparr>
           in Some (ata_write l (write_entry i e buf) s)))"

section \<open>Reading and writing file data\<close>

text \<open>
  \<^verbatim>\<open>fat_read_file\<close> stores the size it finds and copies whole clusters: the result is the size and
  the bytes written to the caller's buffer from its start on.
\<close>

definition read_cluster :: "u32 \<Rightarrow> u8 list \<Rightarrow> fatfs \<Rightarrow> u8 list \<times> fatfs" where
  "read_cluster c acc s =
     (acc @ concat (map (\<lambda>k. ata_read (sector_of c k s) s) [0..<spc s]), s)"

definition fat_read_file :: "u8 list \<Rightarrow> fatfs \<Rightarrow> (fatfs \<times> u32 \<times> u8 list) option" where
  "fat_read_file name s =
     (case search_chain (named name) (cwd_cluster s) s of None \<Rightarrow> None
      | Some (s, None) \<Rightarrow> Some (kprint (line ''nicht gefunden'') s, 0, [])
      | Some (s, Some (l, i)) \<Rightarrow>
          (let e = read_entry (ata_read l s) i
           in if de_size e = 0 then Some (s, 0, [])
              else case over_chain fat_next_cluster read_cluster (entry_cluster e) [] s of
                     None \<Rightarrow> None
                   | Some (bytes, s) \<Rightarrow> Some (s, de_size e, bytes)))"

definition sector_data :: "u8 list \<Rightarrow> u32 \<Rightarrow> u32 \<Rightarrow> sector" where
  "sector_data buf sz offset =
     map (\<lambda>j. if offset + of_nat j < sz then buf ! unat (offset + of_nat j) else 0) [0..<512]"

definition write_sector_at :: "u8 list \<Rightarrow> u32 \<Rightarrow> u32 \<Rightarrow> nat \<Rightarrow> u32 \<times> fatfs \<Rightarrow> u32 \<times> fatfs" where
  "write_sector_at buf sz c k = (\<lambda>(offset, s).
     if offset \<ge> sz then (offset, s)
     else (offset + 512, ata_write (sector_of c k s) (sector_data buf sz offset) s))"

partial_function (option) write_from ::
  "u8 list \<Rightarrow> u32 \<Rightarrow> u32 \<Rightarrow> u32 \<Rightarrow> fatfs \<Rightarrow> fatfs option" where
  "write_from buf sz c offset s =
     (if c < END_OF_CHAIN then
       (let (offset, s) = fold (write_sector_at buf sz c) [0..<spc s] (offset, s)
        in if offset < sz
           then (let (s, c) = fat_extend_chain c s in write_from buf sz c offset s)
           else Some s)
      else Some s)"

definition fat_write_data :: "u8 list \<Rightarrow> u8 list \<Rightarrow> u32 \<Rightarrow> fatfs \<Rightarrow> fatfs option" where
  "fat_write_data name buf sz s =
     (case search_chain (named name) (cwd_cluster s) s of None \<Rightarrow> None
      | Some (s, None) \<Rightarrow> write_from buf sz 0 0 (kprint (line ''Nicht genuegend Speicherplatz!'') s)
      | Some (s, Some (l, i)) \<Rightarrow>
          (let sbuf = ata_read l s;
               e = (read_entry sbuf i)\<lparr>de_size := sz\<rparr>
           in write_from buf sz (entry_cluster e) 0 (ata_write l (write_entry i e sbuf) s)))"

section \<open>Names, as stored and as compared\<close>

text \<open>A caller's buffer: the characters, the NUL, whatever follows.\<close>

definition holds :: "u8 list \<Rightarrow> u8 list \<Rightarrow> bool" where
  "holds b cs \<longleftrightarrow> 0 \<notin> set cs \<and> (\<exists>r. b = cs @ 0 # r)"

lemma holds_nth:
  "holds b cs \<Longrightarrow> i < length cs \<Longrightarrow> b ! i = cs ! i \<and> cs ! i \<noteq> 0"
  "holds b cs \<Longrightarrow> b ! length cs = 0"
  by (auto simp: holds_def nth_append in_set_conv_nth)

lemma holds_cstring: "holds b cs \<Longrightarrow> cstring b = cs"
  unfolding holds_def cstring_def by (auto simp: takeWhile_append takeWhile_eq_all_conv)

lemma copy_field_spec:
  "holds src cs \<Longrightarrow> j \<le> length cs \<Longrightarrow> j \<le> n \<Longrightarrow> length dst = n \<Longrightarrow>
     copy_field j n src dst = take j dst @ take (n - j) (drop j cs) @ drop (max j (min n (length cs))) dst"
proof (induction j n src dst rule: copy_field.induct)
  case (1 j n src dst)
  show ?case
  proof (cases "j < n \<and> j < length cs")
    case True
    then have c: "src ! j = cs ! j" "src ! j \<noteq> 0" using holds_nth(1) [OF "1.prems"(1)] by auto
    have "copy_field j n src dst = copy_field (j + 1) n src (dst[j := cs ! j])"
      using True c by (subst copy_field.simps) simp
    also have "\<dots> = take (j + 1) (dst[j := cs ! j]) @ take (n - (j + 1)) (drop (j + 1) cs)
        @ drop (max (j + 1) (min n (length cs))) (dst[j := cs ! j])"
      using "1.IH" True c "1.prems" by simp
    also have "take (j + 1) (dst[j := cs ! j]) = take j dst @ [cs ! j]"
      using True "1.prems"(4) by (simp add: take_Suc_conv_app_nth)
    also have "drop (max (j + 1) (min n (length cs))) (dst[j := cs ! j])
        = drop (max j (min n (length cs))) dst" using True by simp
    also have "(take j dst @ [cs ! j]) @ take (n - (j + 1)) (drop (j + 1) cs)
        @ drop (max j (min n (length cs))) dst
        = take j dst @ take (n - j) (drop j cs) @ drop (max j (min n (length cs))) dst"
    proof -
      have "drop j cs = cs ! j # drop (Suc j) cs" using True by (simp add: Cons_nth_drop_Suc)
      moreover have "n - j = Suc (n - (j + 1))" using True by linarith
      ultimately show ?thesis by simp
    qed
    finally show ?thesis .
  next
    case False
    then have "\<not> (j < n \<and> src ! j \<noteq> 0)"
      using "1.prems"(2) holds_nth(2) [OF "1.prems"(1)] by (cases "j = length cs") auto
    then have "copy_field j n src dst = dst" by (subst copy_field.simps) (simp only: if_False)
    moreover have "take (n - j) (drop j cs) = []" using False by auto
    moreover have "max j (min n (length cs)) = j" using False "1.prems"(2,3) by auto
    ultimately show ?thesis by (simp only: append_Nil append_take_drop_id)
  qed
qed

lemma put_name_spec: "holds b cs \<Longrightarrow> put_name b = take 8 cs @ replicate (8 - length cs) SPACE"
  using copy_field_spec [of b cs 0 8 "replicate 8 SPACE"] by (simp add: put_name_def min_def)

lemma put_ext_spec: "holds b cs \<Longrightarrow> put_ext b = take 3 cs @ replicate (3 - length cs) SPACE"
  using copy_field_spec [of b cs 0 3 "replicate 3 SPACE"] by (simp add: put_ext_def min_def)

lemma str_equal_from_spec:
  assumes b: "holds b cs" and fat: "length fat = 8" "0 \<notin> set fat"
  shows "i \<le> 8 \<Longrightarrow> i \<le> length cs \<Longrightarrow> str_equal_from i fat b \<longleftrightarrow>
     length cs \<le> 8 \<and> (\<forall>k. i \<le> k \<longrightarrow> k < length cs \<longrightarrow> fat ! k = cs ! k) \<and>
     (length cs < 8 \<longrightarrow> fat ! length cs = SPACE)"
proof (induction "8 - i" arbitrary: i)
  case 0
  then have i: "i = 8" by simp
  have "b ! 8 = 0 \<longleftrightarrow> length cs = 8"
    using holds_nth [OF b] 0 i by (metis le_neq_implies_less)
  then show ?case using 0 i by (subst str_equal_from.simps) auto
next
  case (Suc n)
  then have i: "i < 8" by simp
  have nz: "fat ! i \<noteq> 0" using fat i by (metis nth_mem)
  show ?case
  proof (cases "i = length cs")
    case True
    then have "b ! i = 0" using holds_nth(2) [OF b] by simp
    then show ?thesis using True i nz by (subst str_equal_from.simps) auto
  next
    case False
    then have lt: "i < length cs" using Suc.prems(2) by simp
    note bi = holds_nth(1) [OF b lt]
    have step: "str_equal_from i fat b \<longleftrightarrow> fat ! i = cs ! i \<and> str_equal_from (i + 1) fat b"
      using bi i by (subst str_equal_from.simps) auto
    have IH: "str_equal_from (i + 1) fat b \<longleftrightarrow>
     length cs \<le> 8 \<and> (\<forall>k. i + 1 \<le> k \<longrightarrow> k < length cs \<longrightarrow> fat ! k = cs ! k) \<and>
     (length cs < 8 \<longrightarrow> fat ! length cs = SPACE)"
      using Suc.hyps(1) [of "i + 1"] Suc.hyps(2) i lt by simp
    have "(\<forall>k. i \<le> k \<longrightarrow> k < length cs \<longrightarrow> fat ! k = cs ! k) \<longleftrightarrow>
      fat ! i = cs ! i \<and> (\<forall>k. i + 1 \<le> k \<longrightarrow> k < length cs \<longrightarrow> fat ! k = cs ! k)"
      using lt by (metis Suc_eq_plus1 Suc_leI le_neq_implies_less le_refl Suc_leD)
    then show ?thesis unfolding step IH by blast
  qed
qed

lemma str_equal_spec:
  assumes "holds b cs" and "length fat = 8" and "0 \<notin> set fat"
  shows "str_equal_fat fat b \<longleftrightarrow> length cs \<le> 8 \<and> take (length cs) fat = cs \<and>
     (length cs < 8 \<longrightarrow> fat ! length cs = SPACE)"
proof -
  have "length cs \<le> 8 \<Longrightarrow> take (length cs) fat = cs \<longleftrightarrow> (\<forall>k<length cs. fat ! k = cs ! k)"
    using assms(2) by (auto simp: list_eq_iff_nth_eq)
  then show ?thesis using str_equal_from_spec [OF assms, of 0] by (auto simp: str_equal_fat_def)
qed

text \<open>
  a stored name of eight non-NUL bytes equals a caller's name exactly when the name has at
  most eight characters, the stored name begins with them, and a shorter name is followed by a
  space; in particular a file just created is found by its name if and only if the name has at
  most eight characters.
\<close>

theorem fat_name_lookup:
  assumes "holds b cs" and "length fat = 8" and "0 \<notin> set fat"
  shows "(str_equal_fat fat b \<longleftrightarrow> length cs \<le> 8 \<and> take (length cs) fat = cs \<and>
      (length cs < 8 \<longrightarrow> fat ! length cs = SPACE)) \<and>
    length (put_name b) = 8 \<and>
    (str_equal_fat (put_name b) b \<longleftrightarrow> length cs \<le> 8)"
proof -
  have pn: "put_name b = take 8 cs @ replicate (8 - length cs) SPACE" by (rule put_name_spec [OF assms(1)])
  have len: "length (put_name b) = 8" unfolding pn by simp
  have "0 \<notin> set (put_name b)"
    using assms(1) unfolding pn holds_def by (auto dest: in_set_takeD)
  note eq = str_equal_spec [OF assms(1) len this]
  have "take (length cs) (put_name b) = cs" "length cs < 8 \<longrightarrow> put_name b ! length cs = SPACE"
    if "length cs \<le> 8" using that by (simp_all add: pn nth_append)
  then show ?thesis using str_equal_spec [OF assms] len eq by blast
qed

lemma fat_name_lookup_witness:
  "str_equal_fat (put_name [0x41, 0x42, 0, 7, 7]) [0x41, 0x42, 0, 7, 7] \<and>
   \<not> str_equal_fat (replicate 8 0x41) (replicate 9 0x41 @ [0])"
proof -
  have h: "holds [0x41, 0x42, 0, 7, 7] [0x41, 0x42]" "holds (replicate 9 0x41 @ [0]) (replicate 9 0x41)"
    by (auto simp: holds_def)
  show ?thesis
    using fat_name_lookup [OF h(1), of "replicate 8 0x41"] fat_name_lookup [OF h(2), of "replicate 8 0x41"]
    by simp
qed

section \<open>The path\<close>

lemma put_string_spec:
  "i + length cs \<le> length p \<Longrightarrow> put_string i cs p = take i p @ cs @ drop (i + length cs) p"
proof (induction cs arbitrary: i p)
  case (Cons c cs)
  then have "put_string i (c # cs) p = take (i + 1) (p[i := c]) @ cs @ drop (i + 1 + length cs) (p[i := c])"
    by simp
  then show ?case using Cons.prems by (simp add: take_Suc_conv_app_nth)
qed simp

lemma find_nul:
  assumes "holds p pre" and "length pre < 256"
  shows "find (\<lambda>i. p ! i = 0) [0..<256] = Some (length pre)"
  using assms(2) holds_nth [OF assms(1)] unfolding find_Some_iff
  by (intro exI [of _ "length pre"]) auto

text \<open>Opening a directory appends its name and a slash.\<close>

lemma str_end_holds:
  assumes "holds (cwd_path s) pre" and "holds b name" and "length (cwd_path s) = 256"
    and "length pre + length name + 2 \<le> 256"
  shows "holds (cwd_path (str_end b s)) (pre @ name @ [SLASH])"
proof -
  obtain r where r: "cwd_path s = pre @ 0 # r" using assms(1) by (auto simp: holds_def)
  let ?n = "length pre + length name"
  have ps: "put_string (length pre) name (cwd_path s) = (pre @ name) @ drop (?n) (cwd_path s)"
    using put_string_spec [of "length pre" name "cwd_path s"] assms(3,4) by (simp add: r)
  obtain x y t where d: "drop ?n (cwd_path s) = x # y # t"
    using assms(3,4) by (cases "drop ?n (cwd_path s)"; cases "tl (drop ?n (cwd_path s))")
      (auto dest: arg_cong [of _ _ length])
  have "cwd_path (str_end b s) = (pre @ name) @ SLASH # 0 # t"
    using find_nul [OF assms(1)] assms(4) holds_cstring [OF assms(2)] ps
    by (simp add: str_end_def Let_def d list_update_append)
  then show ?thesis using assms(1,2) by (auto simp: holds_def)
qed

lemma back_to_slash_spec:
  "j \<le> i \<Longrightarrow> (\<forall>k. j < k \<longrightarrow> k \<le> i \<longrightarrow> p ! k \<noteq> SLASH) \<Longrightarrow> j = 0 \<or> p ! j = SLASH \<Longrightarrow>
     back_to_slash p i = j"
proof (induction i)
  case (Suc i)
  show ?case
  proof (cases "j = Suc i")
    case False
    then show ?thesis using Suc by simp
  qed (use Suc in simp)
qed simp

lemma path_back_spec:
  assumes "holds p (pre @ name @ [SLASH])" and "SLASH \<notin> set name" and "name \<noteq> []"
  shows "cstring (path_back p) = (if pre = [] then take 1 name else if last pre = SLASH then pre
    else cstring (path_back p))"
proof -
  let ?L = "length pre + length name"
  obtain r where r: "p = pre @ name @ SLASH # 0 # r" and nz: "0 \<notin> set pre" "0 \<notin> set name"
    using assms(1) by (auto simp: holds_def)
  have len: "length (cstring p) = ?L + 1" using holds_cstring [OF assms(1)] by simp
  have L: "0 < ?L" "p ! ?L = SLASH" using assms(3) by (simp_all add: r nth_append)
  have nm: "p ! k \<noteq> SLASH" if "length pre \<le> k" "k \<le> ?L - 1" for k
  proof -
    have "k - length pre < length name" using that assms(3) by (cases name) auto
    then show ?thesis using that assms(2) by (auto simp: r nth_append in_set_conv_nth)
  qed
  have pb: "path_back p = p[back_to_slash p (?L - 1) + 1 := 0]"
    using len L by (simp add: path_back_def Let_def)
  show ?thesis
  proof (cases "pre = []")
    case True
    then have "back_to_slash p (?L - 1) = 0" using nm by (intro back_to_slash_spec) auto
    then show ?thesis using True assms(3) pb nz
      by (cases name; cases "tl name") (auto simp: r cstring_def)
  next
    case False
    show ?thesis
    proof (cases "last pre = SLASH")
      case True
      then have "p ! (length pre - 1) = SLASH"
        using False by (simp add: r nth_append last_conv_nth)
      then have "back_to_slash p (?L - 1) = length pre - 1"
        using nm False assms(3) by (intro back_to_slash_spec) (auto simp: Suc_le_eq)
      then have "path_back p = p[length pre := 0]" using pb False by simp
      then have "path_back p = pre @ 0 # tl (name @ SLASH # 0 # r)"
        using assms(3) by (cases name) (simp_all add: r list_update_append)
      then have "holds (path_back p) pre" using nz by (auto simp: holds_def)
      then show ?thesis using False True holds_cstring by simp
    qed (use False in simp)
  qed
qed

text \<open>
  entering a directory and leaving it again gives the path back, when the path ends in a
  slash and there is room; after \<^verbatim>\<open>fat_cd_root\<close>, which leaves an empty path, it does not: the
  path becomes the first letter of the directory's name.
\<close>

theorem path_enter_leave:
  assumes "holds (cwd_path s) pre" and "length (cwd_path s) = 256" and "holds b name"
    and "length pre + length name + 2 \<le> 256" and "name \<noteq> []" and "SLASH \<notin> set name"
    and "last pre = SLASH" and "pre \<noteq> []"
  shows "cstring (path_back (cwd_path (str_end b s))) = cstring (cwd_path s) \<and>
    cstring (path_back (cwd_path (str_end b (fat_cd_root s)))) = take 1 name"
proof -
  have "cstring (path_back (cwd_path (str_end b s))) = pre"
    using path_back_spec [OF str_end_holds [OF assms(1,3,2,4)] assms(6,5)] assms(7,8) by simp
  moreover have "holds (cwd_path (fat_cd_root s)) []"
    using assms(2) by (cases "cwd_path s") (auto simp: holds_def fat_cd_root_def Let_def)
  from path_back_spec [OF str_end_holds [OF this assms(3)] assms(6,5)] assms(2,4)
  have "cstring (path_back (cwd_path (str_end b (fat_cd_root s)))) = take 1 name"
    by (simp add: fat_cd_root_def Let_def)
  ultimately show ?thesis using holds_cstring [OF assms(1)] by simp
qed

lemma path_enter_leave_witness:
  "cstring (path_back (cwd_path (str_end [0x64, 0x6F, 0] small_fs))) = [SLASH] \<and>
   cstring (path_back (cwd_path (str_end [0x64, 0x6F, 0] (fat_cd_root small_fs)))) = [0x64]"
proof -
  have p: "cwd_path small_fs = [SLASH] @ 0 # replicate 254 0"
    by (simp add: small_fs_def numeral_eq_Suc)
  then have h: "holds (cwd_path small_fs) [SLASH]" "length (cwd_path small_fs) = 256"
    by (auto simp: holds_def)
  have b: "holds [0x64, 0x6F, 0] [0x64, 0x6F]" by (auto simp: holds_def)
  from path_enter_leave [OF h b] holds_cstring [OF h(1)] show ?thesis by simp
qed

section \<open>Directories and data\<close>

lemma fat_cd_back_init:
  assumes "length b = 512"
  shows "read_entry (write_entry 1 (dot_entry [0x2E, 0x2E] p (read_entry b 1)) b) 1
    = dot_entry [0x2E, 0x2E] p (read_entry b 1)"
proof (rule read_write_entry)
  show "entry_wf (dot_entry [0x2E, 0x2E] p (read_entry b 1))"
    using read_entry_wf [of 1 b] assms by (simp add: dot_entry_def entry_wf_def set_cluster_def)
qed (simp add: assms)

text \<open>
  in a directory whose cluster \<^verbatim>\<open>fat_init_dir_cluster\<close> has written, \<^verbatim>\<open>fat_cd_back\<close> goes to the
  parent given then, to the root when that is 0.
\<close>

theorem fat_cd_back_parent:
  assumes "cwd_cluster s = c" and "c \<noteq> root_cluster s"
  shows "cwd_cluster (fat_cd_back (fat_init_dir_cluster c p s)) = (if p = 0 then root_cluster s else p)"
proof -
  let ?b0 = "replicate 512 0 :: sector"
  let ?b1 = "write_entry 0 (dot_entry [0x2E] c (read_entry ?b0 0)) ?b0"
  have wf: "entry_wf (dot_entry [0x2E] c (read_entry ?b0 0))"
    using read_entry_wf [of 0 ?b0] by (simp add: dot_entry_def entry_wf_def set_cluster_def)
  have len: "length ?b1 = 512" using length_write_entry [OF wf, of 0 ?b0] by simp
  have cl: "entry_cluster (dot_entry d p e) = p" for d e
    by (simp add: dot_entry_def)
  have rd: "ata_read (cluster_sector c s) (fat_init_dir_cluster c p s)
      = write_entry 1 (dot_entry [0x2E, 0x2E] p (read_entry ?b1 1)) ?b1"
    by (simp add: fat_init_dir_cluster_def Let_def ata_read_def ata_write_def)
  have same: "cwd_cluster (fat_init_dir_cluster c p s) = c" "boot (fat_init_dir_cluster c p s) = boot s"
    "root_cluster (fat_init_dir_cluster c p s) = root_cluster s"
    "cluster_sector c (fat_init_dir_cluster c p s) = cluster_sector c s"
    using assms(1) by (simp_all add: fat_init_dir_cluster_def Let_def ata_write_def cluster_sector_def)
  show ?thesis
    using assms(2) fat_cd_back_init [OF len, of p]
    by (simp add: fat_cd_back_def same Let_def rd cl split del: if_split cong: if_cong)
qed

lemma fat_cd_back_parent_witness:
  "cwd_cluster (fat_cd_back (fat_init_dir_cluster 7 5 (small_fs\<lparr>cwd_cluster := 7\<rparr>))) = 5"
  using fat_cd_back_parent [of "small_fs\<lparr>cwd_cluster := 7\<rparr>" 7 5] by (simp add: small_fs_def)

text \<open>Between operations the cache is clean; then every sector read is the sector as seen.\<close>

definition clean :: "fatfs \<Rightarrow> bool" where
  "clean s \<longleftrightarrow> cache_ok s \<and> \<not> dirty s"

lemma clean_read: "clean s \<Longrightarrow> l < 0x10000000 \<Longrightarrow> ata_read l s = seen s l"
  by (auto simp: clean_def cache_ok_def ata_read_def seen_def lba28_id)

interpretation clean_table: linked_table fat_next_cluster clean flat fat_entry in_table
proof unfold_locales
  fix s s' :: fatfs and c n :: u32
  assume "clean s" "in_table (flat s) c" "fat_next_cluster c s = (s', n)"
  then show "clean s' \<and> flat s' = flat s \<and> n = fat_entry (flat s) c AND 0x0FFFFFFF"
    using next_cluster_seen [of s c s' n] by (auto simp: flat_eq_iff clean_def)
qed

lemma sector_of_at:
  assumes "geometry s" and "in_volume s c" and "k < spc s"
  shows "unat (sector_of c k s) = unat (cluster_sector c s) + k"
    and "sector_of c k s \<in> cluster_sectors s c" and "sector_of c k s < 0x10000000"
    and "data_start s \<le> sector_of c k s"
proof -
  have "spc s < 256" using unsigned_less [of "sectors_per_cluster (boot s)"] by (simp add: spc_def)
  then have k: "unat (of_nat k :: u32) = k" using assms(3) by (intro unat_of_nat_fits) simp
  then have "unat (of_nat k :: u32) < unat (sectors_per_cluster (boot s))"
    using assms(3) by (simp add: spc_def)
  note at = cluster_sector_add [OF assms(1,2) this, unfolded k]
  show "unat (sector_of c k s) = unat (cluster_sector c s) + k"
    "sector_of c k s \<in> cluster_sectors s c" using at by (simp_all add: sector_of_def)
  then show "sector_of c k s < 0x10000000" "data_start s \<le> sector_of c k s"
    using cluster_sectors_data [OF assms(1,2)] by blast+
qed

text \<open>The bytes of a chain of clusters.\<close>

definition cluster_bytes :: "fatfs \<Rightarrow> u32 \<Rightarrow> u8 list" where
  "cluster_bytes s c = concat (map (\<lambda>k. seen s (sector_of c k s)) [0..<spc s])"

lemma length_cluster_bytes: "cache_ok s \<Longrightarrow> length (cluster_bytes s c) = 512 * spc s"
  by (simp add: cluster_bytes_def length_concat o_def sum_list_triv)

lemma cluster_bytes_flat: "flat t = flat s \<Longrightarrow> cluster_bytes t c = cluster_bytes s c"
  by (simp add: flat_eq_iff cluster_bytes_def sector_of_def cluster_sector_def spc_def same_rest_def)

lemma read_cluster_seen:
  assumes "clean s" and "geometry s" and "in_volume s c"
  shows "read_cluster c acc s = (acc @ cluster_bytes s c, s)"
proof -
  have eq: "map (\<lambda>k. ata_read (sector_of c k s) s) [0..<spc s] = map (\<lambda>k. seen s (sector_of c k s)) [0..<spc s]"
    using clean_read [OF assms(1) sector_of_at(3) [OF assms(2,3)]] by simp
  show ?thesis unfolding read_cluster_def cluster_bytes_def eq by (rule refl)
qed

lemma fold_append: "fold (\<lambda>d acc. acc @ h d) cs a = a @ concat (map h cs)"
  by (induction cs arbitrary: a) auto

lemma read_file_chain:
  assumes "clean s" and "geometry s" and "find_in_cluster (named name) (cwd_cluster s) s = Some (l, i)"
    and "de_size (read_entry (ata_read l s) i) \<noteq> 0"
    and "cluster_chain (fat_entry s) (entry_cluster (read_entry (ata_read l s) i)) cs"
    and "\<forall>c\<in>set cs. in_volume s c"
  shows "\<exists>s'. fat_read_file name s = Some (s', de_size (read_entry (ata_read l s) i),
      concat (map (cluster_bytes s) cs)) \<and> flat s' = flat s \<and> clean s' \<and>
    length (concat (map (cluster_bytes s) cs)) = length cs * (512 * spc s)"
proof -
  let ?e = "read_entry (ata_read l s) i"
  have body: "\<exists>t'. read_cluster d a t = (a @ cluster_bytes (flat s) d, t') \<and> clean t' \<and> flat t' = flat s"
    if "clean t" "flat t = flat s" "d \<in> set cs" for d a t
  proof -
    have "geometry t" "in_volume t d"
      using that assms(2,6) flat_simps(4) [of t] flat_simps(4) [of s] flat_simps(3) [of t]
        flat_simps(3) [of s] by simp_all
    moreover have "cluster_bytes t d = cluster_bytes (flat s) d"
      using cluster_bytes_flat [of t "flat s" d] that(2) by simp
    ultimately show ?thesis using read_cluster_seen [OF that(1)] that(1,2) by auto
  qed
  have ch: "cluster_chain (fat_entry (flat s)) (entry_cluster ?e) cs" using assms(5) by simp
  have val: "\<forall>d\<in>set cs. in_table (flat s) d"
    using in_volume_table [OF assms(2)] assms(6) by simp
  from clean_table.over_chain_fold [where g = "\<lambda>v d a. a @ cluster_bytes v d" and a = "[]"
      and f = read_cluster, OF ch val assms(1) body]
  obtain s' where s': "over_chain fat_next_cluster read_cluster (entry_cluster ?e) [] s
      = Some (concat (map (cluster_bytes (flat s)) cs), s')" "clean s'" "flat s' = flat s"
    by (auto simp: fold_append)
  have eq: "cluster_bytes (flat s) = cluster_bytes s"
    using cluster_bytes_flat [of "flat s" s] by auto
  have "search_chain (named name) (cwd_cluster s) s = Some (s, Some (l, i))"
    by (subst search_chain.simps) (simp add: assms(3))
  moreover have "length (concat (map (cluster_bytes s) cs)) = length cs * (512 * spc s)"
    using assms(1) length_cluster_bytes [of s]
    by (simp add: clean_def length_concat o_def sum_list_triv)
  ultimately show ?thesis using s' assms(4) by (simp add: fat_read_file_def Let_def eq)
qed


text \<open>The small volume with one file, \<open>A\<close>, of five bytes in cluster 3.\<close>

definition a_entry :: FAT32DirEntry where
  "a_entry = \<lparr>de_name = 0x41 # replicate 7 SPACE, de_ext = replicate 3 SPACE, attributes = 0x20,
     de_reserved = replicate 8 0, cluster_high = 0, de_time = 0, de_date = 0, cluster_low = 3,
     de_size = 5\<rparr>"

definition file_fs :: fatfs where
  "file_fs = small_fs\<lparr>disk := (disk small_fs)(2048 := put32 12 0x0FFFFFFF (disk small_fs 2048),
     2049 := write_entry 0 a_entry zero_sector)\<rparr>"

lemma a_entry_wf: "entry_wf a_entry"
  by (simp add: entry_wf_def a_entry_def)

lemma a_entry_named: "named [0x41, 0] a_entry"
  using str_equal_spec [of "[0x41, 0]" "[0x41]" "de_name a_entry"]
  by (auto simp: holds_def named_def a_entry_def)

lemma file_fs_rest: "same_rest small_fs file_fs"
  by (simp add: same_rest_def file_fs_def)

lemma file_fs_geometry: "geometry file_fs"
  using geometry_same [OF file_fs_rest] small_fs_geometry by simp

lemma file_fs_clean: "clean file_fs"
  using small_fs_ok a_entry_wf
  by (auto simp: clean_def cache_ok_def file_fs_def zero_sector_def) (simp_all add: small_fs_def)

lemma file_fs_root: "cwd_cluster file_fs = 2" "sector_of 2 0 file_fs = 2049" "spc file_fs = 1"
  "ata_read 2049 file_fs = write_entry 0 a_entry zero_sector"
  by (simp_all add: file_fs_def small_fs_def sector_of_def cluster_sector_def spc_def ata_read_def
      lba28_id)

lemma file_fs_find: "find_in_cluster (named [0x41, 0]) 2 file_fs = Some (2049, 0)"
  "read_entry (ata_read 2049 file_fs) 0 = a_entry"
proof -
  have rd: "read_entry (write_entry 0 a_entry zero_sector) 0 = a_entry"
    by (rule read_write_entry [OF a_entry_wf]) (simp add: zero_sector_def)
  then show "read_entry (ata_read 2049 file_fs) 0 = a_entry" by (simp add: file_fs_root)
  have "[0..<16] = 0 # [1..<16]" by (simp add: upt_conv_Cons)
  then have "find_entry (named [0x41, 0]) (write_entry 0 a_entry zero_sector) = Some 0"
    using rd a_entry_named by (simp add: find_entry_def)
  then show "find_in_cluster (named [0x41, 0]) 2 file_fs = Some (2049, 0)"
    by (simp add: find_in_cluster_def file_fs_root)
qed


text \<open>
  writing to a file that is not in a one-cluster directory does not stop at the message: the
  data goes to "cluster 0", two clusters before the data area, where the allocation table lies.
\<close>

theorem fat_write_data_missing:
  assumes "find_in_cluster (named name) (cwd_cluster s) s = None"
    and "fat_next_cluster (cwd_cluster s) s = (s1, n)" and "END_OF_CHAIN \<le> n"
    and "0 < sz" and "sz \<le> 512" and "0 < spc s1"
  shows "\<exists>s'. fat_write_data name buf sz s = Some s' \<and>
    disk s' = (disk s1)(lba28 (data_start s1 - 2 * ucast (sectors_per_cluster (boot s1))) :=
      sector_data buf sz 0)"
proof -
  let ?m = "kprint (line ''Nicht genuegend Speicherplatz!'') s1"
  have sc: "search_chain (named name) (cwd_cluster s) s = Some (s1, None)"
    using assms(1-3) by (subst search_chain.simps) simp
  have rest: "fold (write_sector_at buf sz 0) ks (512, t) = (512, t)" for ks t
    using assms(5) by (induction ks) (simp_all add: write_sector_at_def)
  have spc: "spc ?m = spc s1" by (simp add: spc_def kprint_def)
  have up: "[0..<spc s1] = 0 # [1..<spc s1]" using assms(6) by (simp add: upt_conv_Cons)
  have sec: "sector_of 0 0 ?m = data_start s1 - 2 * ucast (sectors_per_cluster (boot s1))"
    by (simp add: sector_of_def cluster_sector_def kprint_def)
  let ?w = "ata_write (sector_of 0 0 ?m) (sector_data buf sz 0) ?m"
  have "fold (write_sector_at buf sz 0) [0..<spc ?m] (0, ?m) = (512, ?w)"
    using assms(4) unfolding spc up by (simp add: write_sector_at_def [of buf sz 0 0] rest not_le)
  moreover have "\<not> (512 :: u32) < sz" using assms(5) by (simp add: not_less)
  ultimately have "write_from buf sz 0 0 ?m = Some ?w"
    by (subst write_from.simps) (simp only: prod.case if_False Let_def, simp)
  then have "fat_write_data name buf sz s = Some ?w" by (simp add: fat_write_data_def sc)
  then show ?thesis unfolding sec by (auto simp: ata_write_def kprint_def)
qed

lemma small_fs_root: "spc small_fs = 1" "cwd_cluster small_fs = 2" "sector_of 2 0 small_fs = 2049"
  "ata_read 2049 small_fs = zero_sector"
  by (simp_all add: spc_def small_fs_def sector_of_def cluster_sector_def ata_read_def lba28_id)

lemma zero_sector_name:
  assumes "i < 16"
  shows "de_name (read_entry zero_sector i) = replicate 8 0"
proof -
  have "take 8 (drop (32 * i) (replicate 512 0)) = replicate 8 (0 :: u8)" using assms by (simp add: min_def)
  then show ?thesis by (simp add: read_entry_def zero_sector_def Let_def)
qed

lemma small_fs_none:
  assumes "name ! 0 \<noteq> 0"
  shows "find_in_cluster (named name) (cwd_cluster small_fs) small_fs = None"
proof -
  have "\<not> named name (read_entry zero_sector i)" if "i < 16" for i
    using zero_sector_name [OF that] assms by (simp add: named_def str_equal_fat_def str_equal_from.simps)
  then have "find_entry (named name) zero_sector = None" by (auto simp: find_entry_def find_None_iff)
  then show ?thesis by (simp add: find_in_cluster_def small_fs_root)
qed

lemma fat_write_data_missing_witness:
  "\<exists>s'. fat_write_data [0x41, 0] [1, 2, 3] 3 small_fs = Some s' \<and>
     disk s' 2047 = sector_data [1, 2, 3] 3 0"
proof -
  obtain s1 n where n: "fat_next_cluster (cwd_cluster small_fs) small_fs = (s1, n)" by fastforce
  have it: "in_table small_fs 2" by (simp add: in_table_def small_fs_def)
  have "fat_entry small_fs 2 = 0x0FFFFFFF" by code_simp
  then have n2: "n = 0x0FFFFFFF" "same_rest small_fs s1"
    using next_cluster_seen [OF small_fs_ok it n [unfolded small_fs_root(2)]] by simp_all
  have b: "boot s1 = boot small_fs" "data_start s1 = 2049" "sectors_per_cluster (boot small_fs) = 1"
    using n2(2) by (simp_all add: same_rest_def small_fs_def)
  have "spc s1 = 1" by (simp add: spc_def b)
  from fat_write_data_missing [OF small_fs_none n, of "[0x41, 0]" 3 "[1, 2, 3]"] n2(1) this
  show ?thesis by (auto simp: b lba28_id)
qed

text \<open>
  \<^verbatim>\<open>fat_delete_file\<close> frees a cluster on disk behind the cache's back.  The entry is 0 on disk,
  but the cached sector, clean and current, still holds the old value: the code goes on seeing
  the cluster as used, and the next write of that sector brings the deleted chain back.
\<close>

theorem free_chain_stale_cache:
  assumes "clean s" and "in_table s c" and "c < END_OF_CHAIN" and "fat_entry s c = 0x0FFFFFFF"
  shows "\<exists>s'. free_chain c s = Some s' \<and>
    get32 (disk s' (fat_sector c s)) (4 * unat (entry_index c)) = 0 \<and>
    fat_entry s' c = 0x0FFFFFFF \<and> cached_nr s' = fat_sector c s \<and> \<not> dirty s' \<and> \<not> cache_ok s'"
proof -
  have ok: "cache_ok s" "\<not> dirty s" using assms(1) by (simp_all add: clean_def)
  note ps = entry_pos [OF assms(2)] and ix = index_bound [OF assms(2)]
  let ?s1 = "cache_load (fat_sector c s) s" and ?l = "fat_sector c s" and ?i = "4 * unat (entry_index c)"
  note ld = load_seen [OF ok(1) ps(3)]
  have nx: "fat_next_cluster c s = (?s1, 0x0FFFFFFF)"
    using load_get [OF ok(1) assms(2)] assms(4) by (simp add: fat_next_cluster_def Let_def)
  have nd: "\<not> dirty ?s1" using ld(6) ok(2) by blast
  then have rd: "ata_read ?l ?s1 = seen s ?l"
    using clean_read [of ?s1 ?l] ld(1,2) ps(3) by (simp add: clean_def)
  let ?b = "put32 ?i 0 (seen s ?l)"
  let ?s2 = "ata_write ?l ?b ?s1"
  have "free_chain 0x0FFFFFFF ?s2 = Some ?s2" by (subst free_chain.simps) simp
  then have fc: "free_chain c s = Some ?s2"
    using assms(3) nx rd fat_sector_same [OF ld(3)] by (subst free_chain.simps) (simp add: Let_def)
  have len: "length (seen s ?l) = 512" using ok(1) by simp
  have d: "disk ?s2 ?l = ?b" by (simp add: ata_write_def lba28_id [OF ps(3)])
  then have z: "get32 (disk ?s2 ?l) ?i = 0" using get32_put32 [of ?i "seen s ?l" 0] ix len by simp
  have c2: "cached_nr ?s2 = ?l" "cached_buf ?s2 = seen s ?l" "\<not> dirty ?s2"
    using ld(4,5) nd by (simp_all add: ata_write_def)
  have "fat_sector c ?s2 = ?l" using fat_sector_same [OF ld(3)]
    by (simp add: ata_write_def fat_sector_def)
  then have e: "fat_entry ?s2 c = 0x0FFFFFFF"
    using c2 ps(3) assms(4) by (simp add: fat_entry_def seen_def [of ?s2])
  have "get32 (seen s ?l) ?i \<noteq> 0" using assms(4) by (simp add: fat_entry_def)
  then have "disk ?s2 ?l \<noteq> cached_buf ?s2" using z c2(2) by auto
  then have "\<not> cache_ok ?s2" using c2 ps(3) by (auto simp: cache_ok_def)
  then show ?thesis using fc z e c2 by blast
qed

lemma free_chain_stale_cache_witness:
  "\<exists>s'. free_chain 3 file_fs = Some s' \<and> fat_entry s' 3 = 0x0FFFFFFF \<and>
     get32 (disk s' 2048) 12 = 0"
proof -
  have e: "fat_entry file_fs 3 = 0x0FFFFFFF" by code_simp
  have it: "in_table file_fs 3" by (simp add: in_table_def file_fs_def small_fs_def)
  have p: "fat_sector 3 file_fs = 2048" "4 * unat (entry_index 3) = 12"
    by (simp_all add: fat_sector_def entry_index_def file_fs_def small_fs_def)
  from free_chain_stale_cache [OF file_fs_clean it _ e] p show ?thesis by auto
qed

end
