(* ===== verification/Text_Buffer.thy ===== *)
theory Text_Buffer
  imports Livly_Prelude
begin

text \<open>
  What a text buffer with a cursor promises: the text is what stands before the cursor followed by
  what stands behind it, inserting a character puts it at the end of the first part, and deleting
  backwards takes it away again.  The editor provides it, within the room its arrays have.
\<close>

text \<open>Every character of a text finds room when it is typed.\<close>

fun room :: "(u8 \<Rightarrow> 's \<Rightarrow> bool) \<Rightarrow> (u8 \<Rightarrow> 's \<Rightarrow> 's) \<Rightarrow> u8 list \<Rightarrow> 's \<Rightarrow> bool" where
  "room fits ins [] s \<longleftrightarrow> True"
| "room fits ins (c # cs) s \<longleftrightarrow> fits c s \<and> room fits ins cs (ins c s)"

locale text_buffer =
  fixes before after :: "'s \<Rightarrow> u8 list"
    and ok :: "'s \<Rightarrow> bool"
    and fits :: "u8 \<Rightarrow> 's \<Rightarrow> bool"
    and ins :: "u8 \<Rightarrow> 's \<Rightarrow> 's"
    and joins :: "'s \<Rightarrow> bool"
    and del :: "'s \<Rightarrow> 's"
  assumes ins_ok: "ok s \<Longrightarrow> ok (ins c s)"
    and ins_text: "ok s \<Longrightarrow> fits c s \<Longrightarrow> before (ins c s) = before s @ [c] \<and> after (ins c s) = after s"
    and del_ok: "ok s \<Longrightarrow> ok (del s)"
    and del_text: "ok s \<Longrightarrow> joins s \<Longrightarrow> before s \<noteq> [] \<Longrightarrow>
      before (del s) = butlast (before s) \<and> after (del s) = after s"
begin

lemma type_ok: "ok s \<Longrightarrow> ok (fold ins cs s)"
  by (induction cs arbitrary: s) (simp_all add: ins_ok)

lemma type_text:
  "ok s \<Longrightarrow> room fits ins cs s \<Longrightarrow> before (fold ins cs s) = before s @ cs \<and> after (fold ins cs s) = after s"
  by (induction cs arbitrary: s) (simp_all add: ins_ok ins_text)

lemma del_ins:
  assumes "ok s" and "fits c s" and "joins (ins c s)"
  shows "before (del (ins c s)) = before s \<and> after (del (ins c s)) = after s"
  using del_text [OF ins_ok [OF assms(1)] assms(3)] ins_text [OF assms(1,2)] by simp

end

end
