(* ===== verification/Editor.thy ===== *)
theory Editor
  imports Text_Buffer
begin

text \<open>
  The text editor's buffer, \<^verbatim>\<open>src/src/Apps/Editor/editor.c\<close>: lines of characters, the cursor, the
  ring of saved lines for undo and redo, the selection and the clipboard.  The arrays are maps from
  indices, the C \<^verbatim>\<open>int\<close>s are integers.
\<close>

section \<open>State\<close>

abbreviation EDITOR_MAX_LINES :: int where "EDITOR_MAX_LINES \<equiv> 200"
abbreviation EDITOR_LINE_LEN :: int where "EDITOR_LINE_LEN \<equiv> 78"
abbreviation UNDO_SIZE :: int where "UNDO_SIZE \<equiv> 50"

type_synonym cells = "int \<Rightarrow> u8"

record EditorState =
  lines :: "int \<Rightarrow> cells"
  line_len :: "int \<Rightarrow> int"
  line_count :: int
  cursor_x :: int
  cursor_y :: int
  view_top :: int
  dirty :: u8
  line_dirty :: "int \<Rightarrow> u8"
  status_dirty :: u8
  filename :: "u8 list"
  undo_lines :: "int \<Rightarrow> cells"
  undo_lens :: "int \<Rightarrow> int"
  undo_cx :: "int \<Rightarrow> int"
  undo_cy :: "int \<Rightarrow> int"
  undo_top :: int
  undo_count :: int
  redo_lines :: "int \<Rightarrow> cells"
  redo_lens :: "int \<Rightarrow> int"
  redo_cx :: "int \<Rightarrow> int"
  redo_cy :: "int \<Rightarrow> int"
  redo_top :: int
  redo_count :: int
  last_cursor_x :: int
  last_cursor_y :: int
  last_dirty :: u8
  sel_start_x :: int
  sel_start_y :: int
  sel_active :: bool
  clipboard :: "int \<Rightarrow> u8"
  clipboard_len :: int

section \<open>Loops over cells and lines\<close>

text \<open>\<^verbatim>\<open>for (i = 0; i <= n; i++) dst[i] = src[i];\<close>\<close>

definition copy_cells :: "cells \<Rightarrow> int \<Rightarrow> cells \<Rightarrow> cells" where
  "copy_cells src n dst = fold (\<lambda>i d. d(i := src i)) [0..n] dst"

definition put_cell :: "int \<Rightarrow> int \<Rightarrow> u8 \<Rightarrow> EditorState \<Rightarrow> EditorState" where
  "put_cell y x c s = s\<lparr>lines := (lines s)(y := (lines s y)(x := c))\<rparr>"

definition set_len :: "int \<Rightarrow> int \<Rightarrow> EditorState \<Rightarrow> EditorState" where
  "set_len y n s = s\<lparr>line_len := (line_len s)(y := n)\<rparr>"

text \<open>A line with its length and its terminator over another.\<close>

definition move_line :: "int \<Rightarrow> int \<Rightarrow> EditorState \<Rightarrow> EditorState" where
  "move_line i k s = set_len i (line_len s k)
     (s\<lparr>lines := (lines s)(i := copy_cells (lines s k) (line_len s k) (lines s i))\<rparr>)"

text \<open>\<^verbatim>\<open>for (int i = a; i <= b; i++) ed->line_dirty[i] = 1;\<close>\<close>

definition mark_lines :: "int \<Rightarrow> int \<Rightarrow> EditorState \<Rightarrow> EditorState" where
  "mark_lines a b s = s\<lparr>line_dirty := fold (\<lambda>i d. d(i := 1)) [a..b] (line_dirty s)\<rparr>"

section \<open>Undo and redo\<close>

definition ed_save_undo :: "EditorState \<Rightarrow> EditorState" where
  "ed_save_undo s =
     (let y = cursor_y s; slot = undo_top s;
          s = s\<lparr>undo_lines := (undo_lines s)(slot := copy_cells (lines s y) (line_len s y) (undo_lines s slot)),
                undo_lens := (undo_lens s)(slot := line_len s y),
                undo_cx := (undo_cx s)(slot := cursor_x s),
                undo_cy := (undo_cy s)(slot := cursor_y s),
                undo_top := (undo_top s + 1) mod UNDO_SIZE\<rparr>;
          s = (if undo_count s < UNDO_SIZE then s\<lparr>undo_count := undo_count s + 1\<rparr> else s)
      in s\<lparr>redo_top := 0, redo_count := 0\<rparr>)"

definition ed_do_undo :: "EditorState \<Rightarrow> EditorState" where
  "ed_do_undo s =
     (if undo_count s = 0 then s
      else
       let y = cursor_y s; rslot = redo_top s;
           s = s\<lparr>redo_lines := (redo_lines s)(rslot := copy_cells (lines s y) (line_len s y) (redo_lines s rslot)),
                 redo_lens := (redo_lens s)(rslot := line_len s y),
                 redo_cx := (redo_cx s)(rslot := cursor_x s),
                 redo_cy := (redo_cy s)(rslot := cursor_y s),
                 redo_top := (redo_top s + 1) mod UNDO_SIZE\<rparr>;
           s = (if redo_count s < UNDO_SIZE then s\<lparr>redo_count := redo_count s + 1\<rparr> else s);
           s = s\<lparr>undo_top := (undo_top s + UNDO_SIZE - 1) mod UNDO_SIZE, undo_count := undo_count s - 1\<rparr>;
           slot = undo_top s;
           uy = undo_cy s slot
       in s\<lparr>lines := (lines s)(uy := copy_cells (undo_lines s slot) (undo_lens s slot) (lines s uy)),
            line_len := (line_len s)(uy := undo_lens s slot),
            cursor_x := undo_cx s slot, cursor_y := uy,
            line_dirty := (line_dirty s)(uy := 1), status_dirty := 1\<rparr>)"

definition ed_do_redo :: "EditorState \<Rightarrow> EditorState" where
  "ed_do_redo s =
     (if redo_count s = 0 then s
      else
       let s = s\<lparr>redo_top := (redo_top s + UNDO_SIZE - 1) mod UNDO_SIZE, redo_count := redo_count s - 1\<rparr>;
           slot = redo_top s;
           ry = redo_cy s slot
       in s\<lparr>lines := (lines s)(ry := copy_cells (redo_lines s slot) (redo_lens s slot) (lines s ry)),
            line_len := (line_len s)(ry := redo_lens s slot),
            cursor_x := redo_cx s slot, cursor_y := ry,
            line_dirty := (line_dirty s)(ry := 1), status_dirty := 1\<rparr>)"

section \<open>Editing\<close>

definition ed_clear_selection :: "EditorState \<Rightarrow> EditorState" where
  "ed_clear_selection s =
     (if \<not> sel_active s then s
      else
       let min_y = (if sel_start_y s < cursor_y s then sel_start_y s else cursor_y s);
           max_y = (if sel_start_y s > cursor_y s then sel_start_y s else cursor_y s)
       in (mark_lines min_y max_y s)\<lparr>sel_active := False\<rparr>)"

definition ed_insert_char :: "u8 \<Rightarrow> EditorState \<Rightarrow> EditorState" where
  "ed_insert_char c s =
     (let s = ed_clear_selection s;
          y = cursor_y s; x = cursor_x s; len = line_len s y
      in if len \<ge> EDITOR_LINE_LEN - 1 then s
         else
          let s = ed_save_undo s;
              s = fold (\<lambda>i s. put_cell y i (lines s y (i - 1)) s) (rev [x + 1..len]) s;
              s = put_cell y x c s;
              s = put_cell y (len + 1) 0 s;
              s = set_len y (line_len s y + 1) s
          in s\<lparr>cursor_x := cursor_x s + 1, dirty := 1, line_dirty := (line_dirty s)(y := 1),
               status_dirty := 1\<rparr>)"

definition ed_insert_newline :: "EditorState \<Rightarrow> EditorState" where
  "ed_insert_newline s =
     (let y = cursor_y s; x = cursor_x s; len = line_len s y
      in if line_count s \<ge> EDITOR_MAX_LINES then s
         else
          let s = ed_save_undo s;
              s = fold (\<lambda>i. move_line i (i - 1)) (rev [y + 2..line_count s]) s;
              new_len = len - x;
              s = fold (\<lambda>i s. put_cell (y + 1) i (lines s y (x + i)) s) [0..new_len - 1] s;
              s = put_cell (y + 1) new_len 0 s;
              s = set_len (y + 1) new_len s;
              s = put_cell y x 0 s;
              s = set_len y x s;
              s = s\<lparr>line_count := line_count s + 1, cursor_y := cursor_y s + 1, cursor_x := 0,
                    dirty := 1\<rparr>;
              s = mark_lines y (line_count s - 1) s
          in s\<lparr>status_dirty := 1\<rparr>)"

definition ed_backspace :: "EditorState \<Rightarrow> EditorState" where
  "ed_backspace s =
     (let y = cursor_y s; x = cursor_x s;
          s = ed_save_undo s;
          s = (if x > 0 then
                 let s = fold (\<lambda>i s. put_cell y i (lines s y (i + 1)) s) [x - 1..line_len s y - 2] s;
                     s = set_len y (line_len s y - 1) s;
                     s = put_cell y (line_len s y) 0 s
                 in s\<lparr>cursor_x := cursor_x s - 1, line_dirty := (line_dirty s)(y := 1)\<rparr>
               else if y > 0 then
                 let prev_len = line_len s (y - 1); cur_len = line_len s y
                 in if prev_len + cur_len < EDITOR_LINE_LEN - 1 then
                      let s = fold (\<lambda>i s. put_cell (y - 1) (prev_len + i) (lines s y i) s) [0..cur_len - 1] s;
                          s = put_cell (y - 1) (prev_len + cur_len) 0 s;
                          s = set_len (y - 1) (prev_len + cur_len) s;
                          s = fold (\<lambda>i. move_line i (i + 1)) [y..line_count s - 2] s;
                          s = s\<lparr>line_count := line_count s - 1, cursor_y := cursor_y s - 1,
                                cursor_x := prev_len\<rparr>
                      in mark_lines (cursor_y s) (line_count s) s
                    else s
               else s)
      in s\<lparr>dirty := 1, status_dirty := 1\<rparr>)"

section \<open>Selection\<close>

text \<open>The two ends of the selection; they are exchanged in any case.\<close>

definition ed_delete_selection :: "EditorState \<Rightarrow> EditorState" where
  "ed_delete_selection s =
     (if \<not> sel_active s then s
      else
       let sx = sel_start_x s; sy = sel_start_y s; ex = cursor_x s; ey = cursor_y s;
           (sx, ex) = (ex, sx);
           (sy, ey) = (ey, sy);
           s = ed_save_undo s;
           s = s\<lparr>cursor_x := sx, cursor_y := sy\<rparr>;
           s = (if sy = ey then
                  let del = ex - sx;
                      s = fold (\<lambda>i s. put_cell sy i (lines s sy (i + del)) s) [sx..line_len s sy - del - 1] s;
                      s = set_len sy (line_len s sy - del) s;
                      s = put_cell sy (line_len s sy) 0 s
                  in s\<lparr>line_dirty := (line_dirty s)(sy := 1)\<rparr>
                else
                  let tail_len = line_len s ey - ex;
                      s = (if sx + tail_len < EDITOR_LINE_LEN - 1 then
                             let s = fold (\<lambda>i s. put_cell sy (sx + i) (lines s ey (ex + i)) s) [0..tail_len - 1] s;
                                 s = set_len sy (sx + tail_len) s
                             in put_cell sy (line_len s sy) 0 s
                           else put_cell sy sx 0 (set_len sy sx s));
                      remove = ey - sy;
                      s = fold (\<lambda>i. move_line i (i + remove)) [sy + 1..line_count s - remove - 1] s;
                      s = s\<lparr>line_count := line_count s - remove\<rparr>
                  in mark_lines sy (line_count s) s)
       in s\<lparr>sel_active := False, dirty := 1, status_dirty := 1\<rparr>)"

text \<open>The two ends in the order of the text.\<close>

definition selection_ends :: "EditorState \<Rightarrow> (int \<times> int) \<times> (int \<times> int)" where
  "selection_ends s =
     (let sx = sel_start_x s; sy = sel_start_y s; ex = cursor_x s; ey = cursor_y s
      in if sy > ey \<or> (sy = ey \<and> sx > ex) then ((ex, ey), (sx, sy)) else ((sx, sy), (ex, ey)))"

definition ed_is_selected :: "int \<Rightarrow> int \<Rightarrow> EditorState \<Rightarrow> bool" where
  "ed_is_selected x y s =
     (if \<not> sel_active s then False
      else
       let ((sx, sy), (ex, ey)) = selection_ends s
       in if y < sy \<or> y > ey then False
          else if y = sy \<and> y = ey then x \<ge> sx \<and> x < ex
          else if y = sy then x \<ge> sx
          else if y = ey then x < ex
          else True)"

text \<open>The loops stop when the clipboard is full.\<close>

definition clip :: "u8 \<Rightarrow> int \<times> (int \<Rightarrow> u8) \<Rightarrow> int \<times> (int \<Rightarrow> u8)" where
  "clip c = (\<lambda>(p, b). if p < EDITOR_MAX_LINES * EDITOR_LINE_LEN - 1 then (p + 1, b(p := c)) else (p, b))"

definition ed_copy_selection :: "EditorState \<Rightarrow> EditorState" where
  "ed_copy_selection s =
     (if \<not> sel_active s then s
      else
       let ((sx, sy), (ex, ey)) = selection_ends s;
           (p, b) = fold (\<lambda>y pb.
               let start = (if y = sy then sx else 0); end = (if y = ey then ex else line_len s y);
                   pb = fold (\<lambda>x. clip (lines s y x)) [start..end - 1] pb
               in if y < ey then clip 10 pb else pb) [sy..ey] (0, clipboard s)
       in s\<lparr>clipboard := b(p := 0), clipboard_len := p\<rparr>)"

definition ed_paste :: "EditorState \<Rightarrow> EditorState" where
  "ed_paste s =
     (if clipboard_len s = 0 then s
      else fold (\<lambda>i s. if clipboard s i = 10 then ed_insert_newline s else ed_insert_char (clipboard s i) s)
             [0..clipboard_len s - 1] s)"

section \<open>Loading and saving\<close>

text \<open>
  The loop of \<^verbatim>\<open>ed_buf_to_lines\<close> over the rest of the buffer, with the column \<open>x\<close>; it stops when
  all the lines are used.
\<close>

fun buf_loop :: "u8 list \<Rightarrow> int \<Rightarrow> EditorState \<Rightarrow> EditorState" where
  "buf_loop [] x s =
     (let y = line_count s; s = set_len y x (put_cell y x 0 s) in s\<lparr>line_count := y + 1\<rparr>)"
| "buf_loop (c # buf) x s =
     (if c = 10 then
        let y = line_count s; s = set_len y x (put_cell y x 0 s); s = s\<lparr>line_count := y + 1\<rparr>
        in if line_count s \<ge> EDITOR_MAX_LINES then s else buf_loop buf 0 s
      else if x < EDITOR_LINE_LEN - 1 then buf_loop buf (x + 1) (put_cell (line_count s) x c s)
      else buf_loop buf x s)"

definition ed_buf_to_lines :: "u8 list \<Rightarrow> EditorState \<Rightarrow> EditorState" where
  "ed_buf_to_lines buf s =
     (let s = buf_loop buf 0 (s\<lparr>line_count := 0\<rparr>)
      in if line_count s = 0 then set_len 0 0 (s\<lparr>line_count := 1\<rparr>) else s)"

text \<open>The bytes of the file, as long as they fit into \<open>mx\<close>.\<close>

definition emit :: "int \<Rightarrow> u8 \<Rightarrow> u8 list \<Rightarrow> u8 list" where
  "emit mx c buf = (if int (length buf) < mx then buf @ [c] else buf)"

definition ed_lines_to_buf :: "int \<Rightarrow> EditorState \<Rightarrow> u8 list" where
  "ed_lines_to_buf mx s =
     fold (\<lambda>y buf. emit mx 10 (fold (\<lambda>x. emit mx (lines s y x)) [0..line_len s y - 1] buf))
       [0..line_count s - 1] []"

section \<open>Moving the cursor\<close>

datatype arrow = Up | Down | Left | Right

definition clamp_x :: "EditorState \<Rightarrow> EditorState" where
  "clamp_x s = (if cursor_x s > line_len s (cursor_y s) then s\<lparr>cursor_x := line_len s (cursor_y s)\<rparr> else s)"

text \<open>The state after an arrow key, \<open>None\<close> when the cursor cannot move.\<close>

fun move_cursor :: "arrow \<Rightarrow> EditorState \<Rightarrow> EditorState option" where
  "move_cursor Up s =
     (if cursor_y s > 0 then Some (clamp_x (s\<lparr>cursor_y := cursor_y s - 1\<rparr>)) else None)"
| "move_cursor Down s =
     (if cursor_y s < line_count s - 1 then Some (clamp_x (s\<lparr>cursor_y := cursor_y s + 1\<rparr>)) else None)"
| "move_cursor Left s =
     (if cursor_x s > 0 then Some (s\<lparr>cursor_x := cursor_x s - 1\<rparr>)
      else if cursor_y s > 0 then
        let s = s\<lparr>cursor_y := cursor_y s - 1\<rparr> in Some (s\<lparr>cursor_x := line_len s (cursor_y s)\<rparr>)
      else None)"
| "move_cursor Right s =
     (if cursor_x s < line_len s (cursor_y s) then Some (s\<lparr>cursor_x := cursor_x s + 1\<rparr>)
      else if cursor_y s < line_count s - 1 then Some (s\<lparr>cursor_y := cursor_y s + 1, cursor_x := 0\<rparr>)
      else None)"

definition shift_arrow :: "arrow \<Rightarrow> EditorState \<Rightarrow> EditorState" where
  "shift_arrow k s =
     (let s = (if \<not> sel_active s
               then s\<lparr>sel_start_x := cursor_x s, sel_start_y := cursor_y s, sel_active := True\<rparr> else s);
          s = (case move_cursor k s of None \<Rightarrow> s | Some s \<Rightarrow> s);
          min_y = (if sel_start_y s < cursor_y s then sel_start_y s else cursor_y s);
          max_y = (if sel_start_y s > cursor_y s then sel_start_y s else cursor_y s);
          s = mark_lines min_y max_y s
      in s\<lparr>status_dirty := 1\<rparr>)"

definition plain_arrow :: "arrow \<Rightarrow> EditorState \<Rightarrow> EditorState" where
  "plain_arrow k s =
     (let s = ed_clear_selection s
      in case move_cursor k s of None \<Rightarrow> s | Some s \<Rightarrow> s\<lparr>status_dirty := 1\<rparr>)"

section \<open>The text\<close>

text \<open>A line, and the text before and behind the cursor.\<close>

definition row :: "EditorState \<Rightarrow> int \<Rightarrow> u8 list" where
  "row s y = map (\<lambda>i. lines s y (int i)) [0..<nat (line_len s y)]"

definition before :: "EditorState \<Rightarrow> u8 list" where
  "before s = concat (map (\<lambda>i. row s (int i) @ [10]) [0..<nat (cursor_y s)])
     @ take (nat (cursor_x s)) (row s (cursor_y s))"

definition after :: "EditorState \<Rightarrow> u8 list" where
  "after s = drop (nat (cursor_x s)) (row s (cursor_y s))
     @ concat (map (\<lambda>i. 10 # row s (int i)) [Suc (nat (cursor_y s))..<nat (line_count s)])"

text \<open>
  The cursor is on a character or at the end of its line, and the lines fit into the arrays.
\<close>

definition ed_ok :: "EditorState \<Rightarrow> bool" where
  "ed_ok s \<longleftrightarrow> 0 < line_count s \<and> line_count s \<le> EDITOR_MAX_LINES
     \<and> (\<forall>y\<in>{0..<line_count s}. 0 \<le> line_len s y \<and> line_len s y < EDITOR_LINE_LEN)
     \<and> 0 \<le> cursor_y s \<and> cursor_y s < line_count s
     \<and> 0 \<le> cursor_x s \<and> cursor_x s \<le> line_len s (cursor_y s)"

text \<open>The loops as a whole.\<close>

lemma copy_cells_eq: "copy_cells src n dst i = (if 0 \<le> i \<and> i \<le> n then src i else dst i)"
proof -
  have "fold (\<lambda>i d. d(i := src i)) xs dst i = (if i \<in> set xs then src i else dst i)" for xs
    by (induction xs arbitrary: dst) auto
  then show ?thesis by (simp add: copy_cells_def)
qed

lemma length_row [simp]: "length (row s y) = nat (line_len s y)"
  by (simp add: row_def)

lemma row_Nil_iff [simp]: "row s y = [] \<longleftrightarrow> line_len s y \<le> 0"
  by (simp add: row_def)

lemma nth_row: "i < nat (line_len s y) \<Longrightarrow> row s y ! i = lines s y (int i)"
  by (simp add: row_def)

lemma row_eqI:
  "nat (line_len s y) = length xs \<Longrightarrow> (\<And>i. i < length xs \<Longrightarrow> lines s y (int i) = xs ! i) \<Longrightarrow> row s y = xs"
  by (rule nth_equalityI) (simp_all add: nth_row)

lemma row_move_line: "row (move_line i k s) y = (if y = i then row s k else row s y)"
  by (auto simp: row_def move_line_def set_len_def copy_cells_eq)

lemma row_cong: "lines s = lines t \<Longrightarrow> line_len s = line_len t \<Longrightarrow> row s = row t"
  by (simp add: row_def fun_eq_iff)

lemma row_set_other [simp]:
  "y \<noteq> k \<Longrightarrow> row (put_cell y x c s) k = row s k" "y \<noteq> k \<Longrightarrow> row (set_len y n s) k = row s k"
  by (simp_all add: row_def put_cell_def set_len_def)

text \<open>The loops over cells change the cells only.\<close>

lemma cell_loop_lines:
  "\<exists>l. fold (\<lambda>i s. put_cell y (f i) (lines s z (g i)) s) xs s = s\<lparr>lines := l\<rparr>"
proof (induction xs arbitrary: s)
  case Nil
  show ?case by (intro exI [of _ "lines s"]) simp
next
  case (Cons x xs)
  show ?case using Cons [of "put_cell y (f x) (lines s z (g x)) s"] by (auto simp: put_cell_def)
qed

lemma shift_right:
  "lines (fold (\<lambda>i s. put_cell y i (lines s y (i - 1)) s) (rev [a..b]) s) k j
    = (if k = y \<and> a \<le> j \<and> j \<le> b then lines s y (j - 1) else lines s k j)"
proof (induction "nat (b + 1 - a)" arbitrary: b s)
  case 0
  then show ?case by auto
next
  case (Suc n)
  then have "rev [a..b] = b # rev [a..b - 1]" by (simp add: upto_rec2)
  moreover have "n = nat (b - 1 + 1 - a)" using Suc.hyps(2) by simp
  ultimately show ?case
    using Suc.hyps(1) [of "b - 1" "put_cell y b (lines s y (b - 1)) s"] Suc.hyps(2)
    by (auto simp: put_cell_def)
qed

lemma shift_left:
  assumes "0 \<le> d"
  shows "lines (fold (\<lambda>i s. put_cell y i (lines s y (i + d)) s) [a..b] s) k j
    = (if k = y \<and> a \<le> j \<and> j \<le> b then lines s y (j + d) else lines s k j)"
proof (induction "nat (b + 1 - a)" arbitrary: a s)
  case 0
  then show ?case by auto
next
  case (Suc n)
  then have "[a..b] = a # [a + 1..b]" by (simp add: upto_rec1)
  moreover have "n = nat (b + 1 - (a + 1))" using Suc.hyps(2) by simp
  ultimately show ?case
    using Suc.hyps(1) [of "a + 1" "put_cell y a (lines s y (a + d)) s"] Suc.hyps(2) assms
    by (auto simp: put_cell_def)
qed

lemma copy_across:
  assumes "y \<noteq> z"
  shows "lines (fold (\<lambda>i s. put_cell y (p + i) (lines s z (q + i)) s) [0..n - 1] s) k j
    = (if k = y \<and> p \<le> j \<and> j < p + n then lines s z (j - p + q) else lines s k j)"
proof -
  have "lines (fold (\<lambda>i s. put_cell y (p + i) (lines s z (q + i)) s) xs s) k j
      = (if k = y \<and> j - p \<in> set xs then lines s z (j - p + q) else lines s k j)" for xs
  proof (induction xs arbitrary: s)
    case (Cons x xs)
    show ?case using Cons [of "put_cell y (p + x) (lines s z (q + x)) s"] assms
      by (auto simp: put_cell_def algebra_simps)
  qed simp
  then show ?thesis by auto
qed

section \<open>Operations as operations on lines\<close>

text \<open>Saving a line for undo and dropping the selection leave the text alone.\<close>

lemma save_undo_fields [simp]:
  "lines (ed_save_undo s) = lines s" "line_len (ed_save_undo s) = line_len s"
  "line_count (ed_save_undo s) = line_count s" "cursor_x (ed_save_undo s) = cursor_x s"
  "cursor_y (ed_save_undo s) = cursor_y s" "sel_active (ed_save_undo s) = sel_active s"
  "sel_start_x (ed_save_undo s) = sel_start_x s" "sel_start_y (ed_save_undo s) = sel_start_y s"
  "line_dirty (ed_save_undo s) = line_dirty s"
  "clipboard (ed_save_undo s) = clipboard s" "clipboard_len (ed_save_undo s) = clipboard_len s"
  by (simp_all add: ed_save_undo_def Let_def)

lemma clear_selection_fields [simp]:
  "lines (ed_clear_selection s) = lines s" "line_len (ed_clear_selection s) = line_len s"
  "line_count (ed_clear_selection s) = line_count s" "cursor_x (ed_clear_selection s) = cursor_x s"
  "cursor_y (ed_clear_selection s) = cursor_y s" "sel_active (ed_clear_selection s) = False"
  "clipboard (ed_clear_selection s) = clipboard s" "clipboard_len (ed_clear_selection s) = clipboard_len s"
  by (simp_all add: ed_clear_selection_def Let_def mark_lines_def)

lemma mark_lines_fields [simp]:
  "lines (mark_lines a b s) = lines s" "line_len (mark_lines a b s) = line_len s"
  "line_count (mark_lines a b s) = line_count s" "cursor_x (mark_lines a b s) = cursor_x s"
  "cursor_y (mark_lines a b s) = cursor_y s" "sel_active (mark_lines a b s) = sel_active s"
  by (simp_all add: mark_lines_def)

lemma put_cell_fields [simp]:
  "line_len (put_cell y x c s) = line_len s" "line_count (put_cell y x c s) = line_count s"
  "cursor_x (put_cell y x c s) = cursor_x s" "cursor_y (put_cell y x c s) = cursor_y s"
  "line_dirty (put_cell y x c s) = line_dirty s"
  "lines (put_cell y x c s) = (lines s)(y := (lines s y)(x := c))"
  by (simp_all add: put_cell_def)

lemma set_len_fields [simp]:
  "lines (set_len y n s) = lines s" "line_count (set_len y n s) = line_count s"
  "cursor_x (set_len y n s) = cursor_x s" "cursor_y (set_len y n s) = cursor_y s"
  "line_dirty (set_len y n s) = line_dirty s" "line_len (set_len y n s) = (line_len s)(y := n)"
  by (simp_all add: set_len_def)

lemma insert_char_rows:
  assumes ok: "ed_ok s" and fits: "line_len s (cursor_y s) < EDITOR_LINE_LEN - 1"
  shows "row (ed_insert_char c s) y =
      (if y = cursor_y s
       then take (nat (cursor_x s)) (row s y) @ c # drop (nat (cursor_x s)) (row s y) else row s y)"
    and "line_len (ed_insert_char c s) = (line_len s)(cursor_y s := line_len s (cursor_y s) + 1)"
    and "line_count (ed_insert_char c s) = line_count s"
    and "cursor_x (ed_insert_char c s) = cursor_x s + 1"
    and "cursor_y (ed_insert_char c s) = cursor_y s"
proof -
  let ?y = "cursor_y s" and ?x = "cursor_x s" and ?len = "line_len s (cursor_y s)"
  let ?s = "ed_save_undo (ed_clear_selection s)"
  let ?t = "fold (\<lambda>i s. put_cell ?y i (lines s ?y (i - 1)) s) (rev [?x + 1..?len]) ?s"
  obtain l where t: "?t = ?s\<lparr>lines := l\<rparr>"
    using cell_loop_lines [of ?y "\<lambda>i. i" ?y "\<lambda>i. i - 1"] by blast
  have l: "l k j = (if k = ?y \<and> ?x + 1 \<le> j \<and> j \<le> ?len then lines s ?y (j - 1) else lines s k j)" for k j
    using shift_right [of ?y "?x + 1" ?len ?s k j] unfolding t by simp
  have x: "0 \<le> ?x" "?x \<le> ?len" using ok by (simp_all add: ed_ok_def)
  have e: "ed_insert_char c s = (let s = set_len ?y (?len + 1) (put_cell ?y (?len + 1) 0 (put_cell ?y ?x c ?t))
      in s\<lparr>cursor_x := cursor_x s + 1, dirty := 1, line_dirty := (line_dirty s)(?y := 1), status_dirty := 1\<rparr>)"
    using fits unfolding t by (simp add: ed_insert_char_def Let_def t)
  show "line_len (ed_insert_char c s) = (line_len s)(cursor_y s := line_len s (cursor_y s) + 1)"
    "line_count (ed_insert_char c s) = line_count s" "cursor_x (ed_insert_char c s) = cursor_x s + 1"
    "cursor_y (ed_insert_char c s) = cursor_y s"
    unfolding e t by (simp_all add: put_cell_def set_len_def Let_def)
  have r: "lines (ed_insert_char c s) k j = (if k = ?y \<and> j = ?len + 1 then 0 else if k = ?y \<and> j = ?x then c else l k j)" for k j
    unfolding e t by (simp add: put_cell_def set_len_def Let_def)
  show "row (ed_insert_char c s) y = (if y = cursor_y s
       then take (nat (cursor_x s)) (row s y) @ c # drop (nat (cursor_x s)) (row s y) else row s y)"
  proof (cases "y = ?y")
    case True
    have "row (ed_insert_char c s) ?y = take (nat ?x) (row s ?y) @ c # drop (nat ?x) (row s ?y)"
    proof (rule row_eqI)
      show "nat (line_len (ed_insert_char c s) ?y) = length (take (nat ?x) (row s ?y) @ c # drop (nat ?x) (row s ?y))"
        using x unfolding e t by (simp add: put_cell_def set_len_def Let_def nat_add_distrib)
      show "lines (ed_insert_char c s) ?y (int i) = (take (nat ?x) (row s ?y) @ c # drop (nat ?x) (row s ?y)) ! i"
        if "i < length (take (nat ?x) (row s ?y) @ c # drop (nat ?x) (row s ?y))" for i
        using that x unfolding r l by (auto simp: nth_append nth_Cons' nth_row nat_diff_distrib)
    qed
    then show ?thesis using True by simp
  next
    case False
    then show ?thesis unfolding e t by (simp add: row_def put_cell_def set_len_def Let_def l)
  qed
qed

lemma move_line_fields [simp]:
  "line_count (move_line i k s) = line_count s" "cursor_x (move_line i k s) = cursor_x s"
  "cursor_y (move_line i k s) = cursor_y s" "line_len (move_line i k s) = (line_len s)(i := line_len s k)"
  by (simp_all add: move_line_def)

lemma move_loop_fields:
  "line_count (fold (\<lambda>i. move_line i (f i)) xs s) = line_count s"
  "cursor_x (fold (\<lambda>i. move_line i (f i)) xs s) = cursor_x s"
  "cursor_y (fold (\<lambda>i. move_line i (f i)) xs s) = cursor_y s"
  by (induction xs arbitrary: s) simp_all

lemma lines_down:
  "row (fold (\<lambda>i. move_line i (i - 1)) (rev [a..b]) s) k = (if a \<le> k \<and> k \<le> b then row s (k - 1) else row s k)
    \<and> line_len (fold (\<lambda>i. move_line i (i - 1)) (rev [a..b]) s) k
      = (if a \<le> k \<and> k \<le> b then line_len s (k - 1) else line_len s k)"
proof (induction "nat (b + 1 - a)" arbitrary: b s)
  case 0
  then show ?case by auto
next
  case (Suc n)
  then have "rev [a..b] = b # rev [a..b - 1]" by (simp add: upto_rec2)
  moreover have "n = nat (b - 1 + 1 - a)" using Suc.hyps(2) by simp
  ultimately show ?case
    using Suc.hyps(1) [of "b - 1" "move_line b (b - 1) s"] Suc.hyps(2) by (auto simp: row_move_line)
qed

lemma lines_up:
  assumes "0 \<le> d"
  shows "row (fold (\<lambda>i. move_line i (i + d)) [a..b] s) k = (if a \<le> k \<and> k \<le> b then row s (k + d) else row s k)
    \<and> line_len (fold (\<lambda>i. move_line i (i + d)) [a..b] s) k
      = (if a \<le> k \<and> k \<le> b then line_len s (k + d) else line_len s k)"
proof (induction "nat (b + 1 - a)" arbitrary: a s)
  case 0
  then show ?case by auto
next
  case (Suc n)
  then have "[a..b] = a # [a + 1..b]" by (simp add: upto_rec1)
  moreover have "n = nat (b + 1 - (a + 1))" using Suc.hyps(2) by simp
  ultimately show ?case
    using Suc.hyps(1) [of "a + 1" "move_line a (a + d) s"] Suc.hyps(2) assms by (auto simp: row_move_line)
qed

lemma insert_newline_rows:
  assumes ok: "ed_ok s" and room: "line_count s < EDITOR_MAX_LINES"
  shows "row (ed_insert_newline s) k =
      (if k = cursor_y s then take (nat (cursor_x s)) (row s k)
       else if k = cursor_y s + 1 then drop (nat (cursor_x s)) (row s (k - 1))
       else if cursor_y s + 1 < k \<and> k \<le> line_count s then row s (k - 1) else row s k)"
    and "line_len (ed_insert_newline s) k =
      (if k = cursor_y s then cursor_x s
       else if k = cursor_y s + 1 then line_len s (k - 1) - cursor_x s
       else if cursor_y s + 1 < k \<and> k \<le> line_count s then line_len s (k - 1) else line_len s k)"
    and "line_count (ed_insert_newline s) = line_count s + 1"
    and "cursor_x (ed_insert_newline s) = 0"
    and "cursor_y (ed_insert_newline s) = cursor_y s + 1"
proof -
  let ?y = "cursor_y s" and ?x = "cursor_x s" and ?len = "line_len s (cursor_y s)"
  let ?n = "?len - ?x"
  define t where "t = fold (\<lambda>i. move_line i (i - 1)) (rev [?y + 2..line_count s]) (ed_save_undo s)"
  have tf: "line_count t = line_count s" "cursor_x t = ?x" "cursor_y t = ?y"
    by (simp_all add: t_def move_loop_fields)
  have u: "row (ed_save_undo s) = row s" by (rule row_cong) simp_all
  have tr: "row t k = (if ?y + 2 \<le> k \<and> k \<le> line_count s then row s (k - 1) else row s k)"
    "line_len t k = (if ?y + 2 \<le> k \<and> k \<le> line_count s then line_len s (k - 1) else line_len s k)" for k
    using lines_down [of "?y + 2" "line_count s" "ed_save_undo s" k] by (simp_all add: t_def u)
  define v where "v = fold (\<lambda>i s. put_cell (?y + 1) i (lines s ?y (?x + i)) s) [0..?n - 1] t"
  obtain l where v: "v = t\<lparr>lines := l\<rparr>"
    unfolding v_def using cell_loop_lines [of "?y + 1" "\<lambda>i. i" ?y "\<lambda>i. ?x + i"] by blast
  have l: "l k j = (if k = ?y + 1 \<and> 0 \<le> j \<and> j < ?n then lines t ?y (j + ?x) else lines t k j)" for k j
    using copy_across [of "?y + 1" ?y 0 ?x ?n t k j] by (simp add: v [unfolded v_def])
  have x: "0 \<le> ?x" "?x \<le> ?len" using ok by (simp_all add: ed_ok_def)
  define w where "w = set_len ?y ?x (put_cell ?y ?x 0 (set_len (?y + 1) ?n (put_cell (?y + 1) ?n 0 v)))"
  have e: "ed_insert_newline s = (mark_lines ?y (line_count s + 1 - 1)
      (w\<lparr>line_count := line_count w + 1, cursor_y := cursor_y w + 1, cursor_x := 0, dirty := 1\<rparr>))
        \<lparr>status_dirty := 1\<rparr>"
    using room unfolding w_def v_def t_def
    by (simp add: ed_insert_newline_def Let_def t_def [symmetric] v_def [symmetric] tf v)
  have f: "lines (ed_insert_newline s) = lines w" "line_len (ed_insert_newline s) = line_len w"
    unfolding e by simp_all
  show "line_count (ed_insert_newline s) = line_count s + 1" "cursor_x (ed_insert_newline s) = 0"
    "cursor_y (ed_insert_newline s) = cursor_y s + 1"
    unfolding e by (simp_all add: w_def v tf)
  have wl: "line_len w k = (if k = ?y then ?x else if k = ?y + 1 then ?n else line_len t k)" for k
    by (simp add: w_def v)
  have wc: "lines w k j = (if k = ?y \<and> j = ?x then 0 else if k = ?y + 1 \<and> j = ?n then 0 else l k j)" for k j
    by (simp add: w_def v)
  have ty: "lines t ?y (int i) = row s ?y ! i" if "i < nat ?len" for i
    using that tr [of ?y] nth_row [of i t ?y] by simp
  have "row w k = (if k = ?y then take (nat ?x) (row s ?y) else if k = ?y + 1 then drop (nat ?x) (row s ?y)
      else row t k)"
  proof -
    consider "k = ?y" | "k = ?y + 1" | "k \<noteq> ?y" "k \<noteq> ?y + 1" by blast
    then show ?thesis
    proof cases
      case 1
      have "row w ?y = take (nat ?x) (row s ?y)"
        by (rule row_eqI) (use x ty in \<open>auto simp: wl wc l\<close>)
      then show ?thesis using 1 by simp
    next
      case 2
      have "row w (?y + 1) = drop (nat ?x) (row s ?y)"
      proof (rule row_eqI)
        show "lines w (?y + 1) (int i) = drop (nat ?x) (row s ?y) ! i"
          if "i < length (drop (nat ?x) (row s ?y))" for i
          using that x ty [of "nat ?x + i"] by (auto simp: wc l add.commute)
      qed (use x in \<open>auto simp: wl nat_diff_distrib\<close>)
      then show ?thesis using 2 by simp
    next
      case 3
      then show ?thesis by (simp add: row_def wl wc l)
    qed
  qed
  then show "row (ed_insert_newline s) k =
      (if k = cursor_y s then take (nat (cursor_x s)) (row s k)
       else if k = cursor_y s + 1 then drop (nat (cursor_x s)) (row s (k - 1))
       else if cursor_y s + 1 < k \<and> k \<le> line_count s then row s (k - 1) else row s k)"
    using row_cong [OF f] by (auto simp: tr)
  show "line_len (ed_insert_newline s) k =
      (if k = cursor_y s then cursor_x s
       else if k = cursor_y s + 1 then line_len s (k - 1) - cursor_x s
       else if cursor_y s + 1 < k \<and> k \<le> line_count s then line_len s (k - 1) else line_len s k)"
    unfolding f wl by (auto simp: tr)
qed

lemma backspace_char_rows:
  assumes ok: "ed_ok s" and x0: "0 < cursor_x s"
  shows "row (ed_backspace s) k =
      (if k = cursor_y s then take (nat (cursor_x s - 1)) (row s k) @ drop (nat (cursor_x s)) (row s k)
       else row s k)"
    and "line_len (ed_backspace s) = (line_len s)(cursor_y s := line_len s (cursor_y s) - 1)"
    and "line_count (ed_backspace s) = line_count s"
    and "cursor_x (ed_backspace s) = cursor_x s - 1"
    and "cursor_y (ed_backspace s) = cursor_y s"
proof -
  let ?y = "cursor_y s" and ?x = "cursor_x s" and ?len = "line_len s (cursor_y s)"
  let ?t = "fold (\<lambda>i s. put_cell ?y i (lines s ?y (i + 1)) s) [?x - 1..?len - 2] (ed_save_undo s)"
  obtain l where t: "?t = (ed_save_undo s)\<lparr>lines := l\<rparr>"
    using cell_loop_lines [of ?y "\<lambda>i. i" ?y "\<lambda>i. i + 1"] by blast
  have l: "l k j = (if k = ?y \<and> ?x - 1 \<le> j \<and> j \<le> ?len - 2 then lines s ?y (j + 1) else lines s k j)" for k j
    using shift_left [of 1 ?y "?x - 1" "?len - 2" "ed_save_undo s" k j] unfolding t by simp
  have x: "?x \<le> ?len" using ok by (simp add: ed_ok_def)
  have e: "ed_backspace s = (let s = put_cell ?y (?len - 1) 0 (set_len ?y (?len - 1) ?t)
      in s\<lparr>cursor_x := cursor_x s - 1, line_dirty := (line_dirty s)(?y := 1), dirty := 1, status_dirty := 1\<rparr>)"
    using x0 by (simp add: ed_backspace_def Let_def t)
  show "line_len (ed_backspace s) = (line_len s)(cursor_y s := line_len s (cursor_y s) - 1)"
    "line_count (ed_backspace s) = line_count s" "cursor_x (ed_backspace s) = cursor_x s - 1"
    "cursor_y (ed_backspace s) = cursor_y s"
    unfolding e t by (simp_all add: Let_def)
  have r: "lines (ed_backspace s) k j = (if k = ?y \<and> j = ?len - 1 then 0 else l k j)" for k j
    unfolding e t by (simp add: Let_def)
  show "row (ed_backspace s) k =
      (if k = cursor_y s then take (nat (cursor_x s - 1)) (row s k) @ drop (nat (cursor_x s)) (row s k)
       else row s k)"
  proof (cases "k = ?y")
    case True
    have "row (ed_backspace s) ?y = take (nat (?x - 1)) (row s ?y) @ drop (nat ?x) (row s ?y)"
    proof (rule row_eqI)
      show "nat (line_len (ed_backspace s) ?y) = length (take (nat (?x - 1)) (row s ?y) @ drop (nat ?x) (row s ?y))"
        using x x0 unfolding e t by (simp add: Let_def)
      show "lines (ed_backspace s) ?y (int i) = (take (nat (?x - 1)) (row s ?y) @ drop (nat ?x) (row s ?y)) ! i"
        if "i < length (take (nat (?x - 1)) (row s ?y) @ drop (nat ?x) (row s ?y))" for i
        using that x x0 unfolding r l by (auto simp: nth_append nth_row nat_diff_distrib add.commute)
    qed
    then show ?thesis using True by simp
  next
    case False
    then show ?thesis unfolding e t by (simp add: row_def Let_def l)
  qed
qed

lemma backspace_join_rows:
  assumes ok: "ed_ok s" and x0: "cursor_x s = 0" and y0: "0 < cursor_y s"
    and fits: "line_len s (cursor_y s - 1) + line_len s (cursor_y s) < EDITOR_LINE_LEN - 1"
  shows "row (ed_backspace s) k =
      (if k = cursor_y s - 1 then row s k @ row s (k + 1)
       else if cursor_y s \<le> k \<and> k \<le> line_count s - 2 then row s (k + 1) else row s k)"
    and "line_len (ed_backspace s) k =
      (if k = cursor_y s - 1 then line_len s k + line_len s (k + 1)
       else if cursor_y s \<le> k \<and> k \<le> line_count s - 2 then line_len s (k + 1) else line_len s k)"
    and "line_count (ed_backspace s) = line_count s - 1"
    and "cursor_x (ed_backspace s) = line_len s (cursor_y s - 1)"
    and "cursor_y (ed_backspace s) = cursor_y s - 1"
proof -
  let ?y = "cursor_y s" and ?p = "line_len s (cursor_y s - 1)" and ?c = "line_len s (cursor_y s)"
  have len: "0 \<le> ?p" "0 \<le> ?c" using ok y0 by (auto simp: ed_ok_def)
  define t where "t = fold (\<lambda>i s. put_cell (?y - 1) (?p + i) (lines s ?y i) s) [0..?c - 1] (ed_save_undo s)"
  obtain l where t: "t = (ed_save_undo s)\<lparr>lines := l\<rparr>"
    unfolding t_def using cell_loop_lines [of "?y - 1" "\<lambda>i. ?p + i" ?y "\<lambda>i. i"] by blast
  have l: "l k j = (if k = ?y - 1 \<and> ?p \<le> j \<and> j < ?p + ?c then lines s ?y (j - ?p) else lines s k j)" for k j
    using copy_across [of "?y - 1" ?y ?p 0 ?c "ed_save_undo s" k j] by (simp add: t [unfolded t_def])
  define u where "u = set_len (?y - 1) (?p + ?c) (put_cell (?y - 1) (?p + ?c) 0 t)"
  have ur: "row u k = (if k = ?y - 1 then row s k @ row s (k + 1) else row s k)" for k
  proof (cases "k = ?y - 1")
    case True
    have "row u (?y - 1) = row s (?y - 1) @ row s ?y"
      by (rule row_eqI) (use len in \<open>auto simp: u_def t l nth_append nth_row nat_add_distrib of_nat_diff\<close>)
    then show ?thesis using True by simp
  next
    case False
    then show ?thesis by (simp add: row_def u_def t l)
  qed
  have ul: "line_len u k = (if k = ?y - 1 then ?p + ?c else line_len s k)" for k
    by (simp add: u_def t)
  define v where "v = fold (\<lambda>i. move_line i (i + 1)) [?y..line_count s - 2] u"
  have v': "fold (\<lambda>i. move_line i (i + 1)) [?y..line_count s - 2]
      (set_len (?y - 1) (?p + ?c) (put_cell (?y - 1) (?p + ?c) 0 (ed_save_undo s\<lparr>lines := l\<rparr>))) = v"
    by (simp add: v_def u_def t)
  have vf: "line_count v = line_count s" "cursor_y v = ?y"
    by (simp_all add: v_def move_loop_fields u_def t)
  have vr: "row v k = (if ?y \<le> k \<and> k \<le> line_count s - 2 then row u (k + 1) else row u k)"
    "line_len v k = (if ?y \<le> k \<and> k \<le> line_count s - 2 then line_len u (k + 1) else line_len u k)" for k
    using lines_up [of 1 ?y "line_count s - 2" u k] by (simp_all add: v_def)
  have e: "ed_backspace s = (mark_lines (?y - 1) (line_count s - 1)
      (v\<lparr>line_count := line_count s - 1, cursor_y := ?y - 1, cursor_x := ?p\<rparr>))\<lparr>dirty := 1, status_dirty := 1\<rparr>"
    using x0 y0 fits
    by (simp add: ed_backspace_def Let_def t_def [symmetric] t v' vf)
  have f: "lines (ed_backspace s) = lines v" "line_len (ed_backspace s) = line_len v"
    unfolding e by simp_all
  show "line_count (ed_backspace s) = line_count s - 1"
    "cursor_x (ed_backspace s) = line_len s (cursor_y s - 1)"
    "cursor_y (ed_backspace s) = cursor_y s - 1"
    unfolding e by simp_all
  show "row (ed_backspace s) k =
      (if k = cursor_y s - 1 then row s k @ row s (k + 1)
       else if cursor_y s \<le> k \<and> k \<le> line_count s - 2 then row s (k + 1) else row s k)"
    using row_cong [OF f] by (auto simp: vr ur)
  show "line_len (ed_backspace s) k =
      (if k = cursor_y s - 1 then line_len s k + line_len s (k + 1)
       else if cursor_y s \<le> k \<and> k \<le> line_count s - 2 then line_len s (k + 1) else line_len s k)"
    unfolding f by (auto simp: vr ul)
qed

section \<open>The editor as a text buffer\<close>

definition type_char :: "u8 \<Rightarrow> EditorState \<Rightarrow> EditorState" where
  "type_char c s = (if c = 10 then ed_insert_newline s else ed_insert_char c s)"

definition has_room :: "u8 \<Rightarrow> EditorState \<Rightarrow> bool" where
  "has_room c s \<longleftrightarrow> (if c = 10 then line_count s < EDITOR_MAX_LINES
     else line_len s (cursor_y s) < EDITOR_LINE_LEN - 1)"

definition can_join :: "EditorState \<Rightarrow> bool" where
  "can_join s \<longleftrightarrow> 0 < cursor_x s
     \<or> line_len s (cursor_y s - 1) + line_len s (cursor_y s) < EDITOR_LINE_LEN - 1"

lemma ed_okD:
  assumes "ed_ok s"
  shows "0 \<le> cursor_y s" "cursor_y s < line_count s" "0 \<le> cursor_x s"
    "cursor_x s \<le> line_len s (cursor_y s)" "line_count s \<le> 200"
    "0 \<le> y \<Longrightarrow> y < line_count s \<Longrightarrow> 0 \<le> line_len s y \<and> line_len s y < 78"
  using assms by (auto simp: ed_ok_def)

lemma ed_okI:
  assumes "line_count s \<le> 200" "0 \<le> cursor_y s" "cursor_y s < line_count s"
    "0 \<le> cursor_x s" "cursor_x s \<le> line_len s (cursor_y s)"
    "\<And>y. 0 \<le> y \<Longrightarrow> y < line_count s \<Longrightarrow> 0 \<le> line_len s y \<and> line_len s y < 78"
  shows "ed_ok s"
  using assms by (auto simp: ed_ok_def)

lemma ed_ok_cong:
  "line_len s = line_len t \<Longrightarrow> line_count s = line_count t \<Longrightarrow> cursor_x s = cursor_x t \<Longrightarrow>
     cursor_y s = cursor_y t \<Longrightarrow> ed_ok s = ed_ok t"
  by (simp add: ed_ok_def)

text \<open>Without room the text stays as it is.\<close>

lemma insert_newline_full: "\<not> line_count s < EDITOR_MAX_LINES \<Longrightarrow> ed_insert_newline s = s"
  by (simp add: ed_insert_newline_def Let_def del: fold_simps)

lemma insert_char_full:
  "\<not> line_len s (cursor_y s) < EDITOR_LINE_LEN - 1 \<Longrightarrow> ed_insert_char c s = ed_clear_selection s"
  by (simp add: ed_insert_char_def Let_def)

lemma backspace_stuck:
  assumes "cursor_x s = 0" and "cursor_y s = 0 \<or> \<not> can_join s"
  shows "ed_backspace s = (ed_save_undo s)\<lparr>dirty := 1, status_dirty := 1\<rparr>"
proof (cases "cursor_y s = 0")
  case True
  then show ?thesis using assms(1) by (simp add: ed_backspace_def Let_def)
next
  case False
  then have "\<not> line_len s (cursor_y s - 1) + line_len s (cursor_y s) < 77"
    using assms by (simp add: can_join_def)
  then show ?thesis using assms(1) by (simp add: ed_backspace_def Let_def)
qed

lemma type_char_ok:
  assumes ok: "ed_ok s"
  shows "ed_ok (type_char c s)"
proof (cases "has_room c s")
  case True
  note b = ed_okD [OF ok]
  show ?thesis
  proof (cases "c = 10")
    case c: True
    then have r: "line_count s < 200" using True by (simp add: has_room_def)
    note n = insert_newline_rows [OF ok r]
    have "ed_ok (ed_insert_newline s)"
    proof (rule ed_okI)
      show "0 \<le> line_len (ed_insert_newline s) y \<and> line_len (ed_insert_newline s) y < 78"
        if "0 \<le> y" "y < line_count (ed_insert_newline s)" for y
      proof -
        have y: "y \<le> line_count s" using that n(3) by simp
        have c: "0 \<le> line_len s (cursor_y s)" "line_len s (cursor_y s) < 78"
          using b(6) [OF b(1,2)] by simp_all
        consider "y = cursor_y s" | "y = cursor_y s + 1" | "cursor_y s + 1 < y" | "y < cursor_y s" by linarith
        then show ?thesis
        proof cases
          case 3
          then have "0 \<le> line_len s (y - 1) \<and> line_len s (y - 1) < 78" using y b(1) by (intro b(6)) simp_all
          then show ?thesis using 3 y by (simp add: n(2))
        next
          case 4
          then have "0 \<le> line_len s y \<and> line_len s y < 78" using that(1) b(2) by (intro b(6)) simp_all
          then show ?thesis using 4 by (simp add: n(2))
        qed (use b(3,4) c in \<open>simp_all add: n(2)\<close>)
      qed
    qed (use b(1-4) r in \<open>simp_all add: n\<close>)
    then show ?thesis using c by (simp add: type_char_def)
  next
    case c: False
    then have r: "line_len s (cursor_y s) < 78 - 1" using True by (simp add: has_room_def)
    note n = insert_char_rows [OF ok r]
    have "ed_ok (ed_insert_char c s)"
      by (rule ed_okI) (use b(1-5) r b(6) [of "cursor_y s"] in \<open>auto simp: n dest: b(6)\<close>)
    then show ?thesis using c by (simp add: type_char_def)
  qed
next
  case False
  then have "type_char c s = s \<or> type_char c s = ed_clear_selection s"
    by (cases "c = 10") (simp_all add: has_room_def type_char_def insert_newline_full insert_char_full)
  then show ?thesis using ok ed_ok_cong [of "ed_clear_selection s" s] by auto
qed

lemma type_char_text:
  assumes ok: "ed_ok s" and r: "has_room c s"
  shows "before (type_char c s) = before s @ [c] \<and> after (type_char c s) = after s"
proof (cases "c = 10")
  case True
  then have room: "line_count s < 200" using r by (simp add: has_room_def)
  obtain Y N where Y: "cursor_y s = int Y" and N: "line_count s = int N" and YN: "Y < N"
    using ed_okD(1,2) [OF ok] by (metis nonneg_int_cases order_le_less_trans of_nat_less_iff order_less_imp_le)
  let ?t = "ed_insert_newline s"
  note n = insert_newline_rows [OF ok room]
  have "before ?t = before s @ [10]"
    by (auto simp: before_def n Y nat_add_distrib intro!: arg_cong [where f = concat] map_cong)
  moreover have "map (\<lambda>i. 10 # row ?t (int i)) [Suc (Suc Y)..<Suc N] = map (\<lambda>i. 10 # row s (int i)) [Suc Y..<N]"
    by (simp only: map_Suc_upt [symmetric] map_map) (auto simp: n Y N intro!: map_cong)
  then have "after ?t = after s" by (simp add: after_def n Y N nat_add_distrib)
  ultimately show ?thesis using True by (simp add: type_char_def)
next
  case False
  then have room: "line_len s (cursor_y s) < 78 - 1" using r by (simp add: has_room_def)
  note n = insert_char_rows [OF ok room]
  have x: "nat (cursor_x s + 1) = Suc (nat (cursor_x s))" "nat (cursor_x s) \<le> nat (line_len s (cursor_y s))"
    using ed_okD(3,4) [OF ok] by simp_all
  have "before (ed_insert_char c s) = before s @ [c]" "after (ed_insert_char c s) = after s"
    using x ed_okD(1) [OF ok] by (auto simp: before_def after_def n intro!: arg_cong [where f = concat] map_cong)
  then show ?thesis using False by (simp add: type_char_def)
qed

lemma backspace_ok:
  assumes ok: "ed_ok s"
  shows "ed_ok (ed_backspace s)"
proof -
  note b = ed_okD [OF ok]
  consider "0 < cursor_x s" | "cursor_x s = 0" "0 < cursor_y s" "can_join s"
    | "cursor_x s = 0" "cursor_y s = 0 \<or> \<not> can_join s"
    using b(1,3) by linarith
  then show ?thesis
  proof cases
    case 1
    note n = backspace_char_rows [OF ok 1]
    show ?thesis by (rule ed_okI) (use b(1-5) 1 b(6) [of "cursor_y s"] in \<open>auto simp: n dest: b(6)\<close>)
  next
    case 2
    then have f: "line_len s (cursor_y s - 1) + line_len s (cursor_y s) < 78 - 1" by (simp add: can_join_def)
    note n = backspace_join_rows [OF ok 2(1,2) f]
    show ?thesis
    proof (rule ed_okI)
      show "0 \<le> line_len (ed_backspace s) y \<and> line_len (ed_backspace s) y < 78"
        if "0 \<le> y" "y < line_count (ed_backspace s)" for y
        using that b(1-5) f b(6) [of y] b(6) [of "y + 1"] by (auto simp: n)
    qed (use b(1-5) 2 b(6) [of "cursor_y s"] b(6) [of "cursor_y s - 1"] in \<open>auto simp: n\<close>)
  next
    case 3
    then show ?thesis using ok unfolding backspace_stuck [OF 3] by (simp add: ed_ok_def)
  qed
qed

lemma before_Nil_iff:
  assumes "ed_ok s"
  shows "before s = [] \<longleftrightarrow> cursor_x s = 0 \<and> cursor_y s = 0"
proof (cases "cursor_y s = 0")
  case True
  then show ?thesis using ed_okD(3,4) [OF assms] by (auto simp: before_def)
next
  case False
  then obtain k where "nat (cursor_y s) = Suc k"
    using ed_okD(1) [OF assms] by (cases "nat (cursor_y s)") auto
  then show ?thesis using False by (simp add: before_def)
qed

lemma backspace_text:
  assumes ok: "ed_ok s" and j: "can_join s" and ne: "before s \<noteq> []"
  shows "before (ed_backspace s) = butlast (before s) \<and> after (ed_backspace s) = after s"
proof (cases "0 < cursor_x s")
  case True
  note n = backspace_char_rows [OF ok True]
  have b: "0 \<le> cursor_y s" "nat (cursor_x s) \<le> nat (line_len s (cursor_y s))"
    using ed_okD(1,4) [OF ok] by simp_all
  define k where "k = nat (cursor_x s - 1)"
  have k: "nat (cursor_x s) = Suc k" "k < nat (line_len s (cursor_y s))" using True b(2) by (auto simp: k_def)
  have "butlast (take (Suc k) (row s (cursor_y s))) = take k (row s (cursor_y s))"
    using k by (simp add: butlast_take)
  moreover have "take (Suc k) (row s (cursor_y s)) \<noteq> []" using k(2) by auto
  ultimately show ?thesis using b k
    by (auto simp: before_def after_def n k_def [symmetric] butlast_append
        intro!: arg_cong [where f = concat] map_cong)
next
  case False
  then have x0: "cursor_x s = 0" and y0: "0 < cursor_y s"
    using ed_okD(1,3) [OF ok] ne before_Nil_iff [OF ok] by linarith+
  then have f: "line_len s (cursor_y s - 1) + line_len s (cursor_y s) < 78 - 1"
    using j by (simp add: can_join_def)
  note n = backspace_join_rows [OF ok x0 y0 f]
  obtain Y where Y: "cursor_y s = int (Suc Y)"
    using y0 by (metis Suc_pred' nonneg_int_cases of_nat_0_less_iff order_less_imp_le)
  obtain N where N: "line_count s = int (Suc N)" and YN: "Y < N"
    using ed_okD(2) [OF ok] Y by (metis Suc_lessE nonneg_int_cases of_nat_0_le_iff of_nat_less_iff order_le_less_trans order_less_imp_le)
  let ?t = "ed_backspace s"
  have Y1: "cursor_y s - 1 = int Y" using Y by simp
  have l: "length (row s (int Y)) = nat (line_len s (int Y))" by simp
  have "before ?t = concat (map (\<lambda>i. row s (int i) @ [10]) [0..<Y]) @ row s (int Y)"
    unfolding before_def n Y1
    by (auto simp: n Y1 Y N intro!: arg_cong [where f = concat] map_cong)
  moreover have "before s = concat (map (\<lambda>i. row s (int i) @ [10]) [0..<Y]) @ row s (int Y) @ [10]"
    using x0 Y by (simp add: before_def nat_add_distrib)
  moreover have "map (\<lambda>i. 10 # row s (int i)) [Suc (Suc Y)..<Suc N] = map (\<lambda>i. 10 # row ?t (int i)) [Suc Y..<N]"
    by (simp only: map_Suc_upt [symmetric] map_map) (auto simp: n Y N add.commute intro!: map_cong)
  then have "after ?t = after s"
    using x0 by (simp add: after_def n Y1 Y N nat_add_distrib add.commute)
  ultimately show ?thesis by (simp add: butlast_append)
qed

interpretation ed: text_buffer before after ed_ok has_room type_char can_join ed_backspace
  by unfold_locales (simp_all only: type_char_ok type_char_text backspace_ok backspace_text simp_thms)

text \<open>
  Typing a character, a line break included, inserts it at the cursor: the text before the cursor
  grows by it and the text behind it stays the same, as long as the line, or the editor, has room.
\<close>

theorem typing_inserts:
  assumes "ed_ok s" and "has_room c s"
  shows "before (type_char c s) = before s @ [c] \<and> after (type_char c s) = after s
    \<and> ed_ok (type_char c s)"
  using ed.ins_text [OF assms] ed.ins_ok [OF assms(1)] by simp


definition empty_editor :: EditorState where
  "empty_editor = \<lparr>lines = (\<lambda>_ _. 0), line_len = (\<lambda>_. 0), line_count = 1, cursor_x = 0, cursor_y = 0,
     view_top = 0, dirty = 0, line_dirty = (\<lambda>_. 0), status_dirty = 0, filename = [],
     undo_lines = (\<lambda>_ _. 0), undo_lens = (\<lambda>_. 0), undo_cx = (\<lambda>_. 0), undo_cy = (\<lambda>_. 0), undo_top = 0,
     undo_count = 0, redo_lines = (\<lambda>_ _. 0), redo_lens = (\<lambda>_. 0), redo_cx = (\<lambda>_. 0), redo_cy = (\<lambda>_. 0),
     redo_top = 0, redo_count = 0, last_cursor_x = 0, last_cursor_y = 0, last_dirty = 0,
     sel_start_x = 0, sel_start_y = 0, sel_active = False, clipboard = (\<lambda>_. 0), clipboard_len = 0\<rparr>"

lemma empty_editor_ok: "ed_ok empty_editor"
  by (simp add: ed_ok_def empty_editor_def)

lemma empty_editor_text: "before empty_editor = []" "after empty_editor = []" "row empty_editor y = []"
  by (simp_all add: before_def after_def row_def empty_editor_def)

lemma typing_inserts_witness: "before (type_char 10 empty_editor) = [10]"
  using typing_inserts [OF empty_editor_ok, of 10] empty_editor_text
  by (simp add: has_room_def empty_editor_def)


text \<open>Pasting types the clipboard.\<close>

definition clip_text :: "EditorState \<Rightarrow> u8 list" where
  "clip_text s = map (clipboard s) [0..clipboard_len s - 1]"

lemma type_char_clipboard [simp]: "clipboard (type_char c s) = clipboard s"
proof -
  have m: "clipboard (move_line i k t) = clipboard t" "clipboard (put_cell y x v t) = clipboard t"
    "clipboard (set_len y n t) = clipboard t" "clipboard (mark_lines a b t) = clipboard t"
    for i k t y x v n a b
    by (simp_all add: move_line_def put_cell_def set_len_def mark_lines_def)
  have f: "clipboard (fold (\<lambda>i. move_line i (f i)) xs t) = clipboard t" for f xs t
    by (induction xs arbitrary: t) (simp_all add: m)
  have g: "clipboard (fold (\<lambda>i s. put_cell y (f i) (lines s z (g i)) s) xs t) = clipboard t" for y f z g xs t
    using cell_loop_lines [of y f z g xs t] by auto
  show ?thesis
    by (simp add: type_char_def ed_insert_char_def ed_insert_newline_def Let_def m f g)
qed

lemma paste_types: "ed_paste s = fold type_char (clip_text s) s"
proof -
  have "fold (\<lambda>i s. if clipboard s i = 10 then ed_insert_newline s else ed_insert_char (clipboard s i) s) xs t
      = fold type_char (map b xs) t" if "clipboard t = b" for xs t b
    using that
  proof (induction xs arbitrary: t)
    case (Cons x xs)
    have "clipboard (type_char (b x) t) = b" using Cons.prems by simp
    from Cons.IH [OF this] Cons.prems show ?case by (cases "b x = 10") (simp_all add: type_char_def)
  qed simp
  then show ?thesis by (auto simp: ed_paste_def clip_text_def)
qed

text \<open>
  Pasting inserts the whole clipboard at the cursor when every one of its characters finds room.
\<close>

theorem paste_inserts_clipboard:
  assumes "ed_ok s" and "room has_room type_char (clip_text s) s"
  shows "before (ed_paste s) = before s @ clip_text s \<and> after (ed_paste s) = after s \<and> ed_ok (ed_paste s)"
  unfolding paste_types using ed.type_text [OF assms] ed.type_ok [OF assms(1)] by simp

definition clipboard_AB :: EditorState where
  "clipboard_AB = empty_editor\<lparr>clipboard := (\<lambda>i. if i = 0 then 0x41 else 0x42), clipboard_len := 2\<rparr>"

lemma paste_inserts_clipboard_witness: "before (ed_paste clipboard_AB) = [0x41, 0x42]"
proof -
  have ok: "ed_ok clipboard_AB" by (simp add: ed_ok_def clipboard_AB_def empty_editor_def)
  have c: "clip_text clipboard_AB = [0x41, 0x42]"
    by (simp add: clip_text_def clipboard_AB_def upto_rec1)
  have l: "line_len clipboard_AB (cursor_y clipboard_AB) < EDITOR_LINE_LEN - 1"
    by (simp add: clipboard_AB_def empty_editor_def)
  note n = insert_char_rows [OF ok l]
  have "room has_room type_char (clip_text clipboard_AB) clipboard_AB"
    by (simp add: c has_room_def type_char_def n) (simp add: clipboard_AB_def empty_editor_def)
  from paste_inserts_clipboard [OF ok this] show ?thesis
    by (simp add: c) (simp add: before_def row_def clipboard_AB_def empty_editor_def)
qed

section \<open>The cursor keys\<close>

lemma move_cursor_ok:
  assumes ok: "ed_ok s" and m: "move_cursor k s = Some t"
  shows "ed_ok t \<and> row t = row s \<and> line_count t = line_count s"
proof -
  note b = ed_okD [OF ok]
  have r: "row t = row s" "line_count t = line_count s"
    using m by (cases k; auto simp: clamp_x_def Let_def row_def fun_eq_iff split: if_splits)+
  have "ed_ok t"
  proof (cases k)
    case Up
    then show ?thesis
      using m b(1-5) b(6) b(6) [of "cursor_y s - 1"]
      by (auto simp: clamp_x_def Let_def ed_ok_def split: if_splits)
  next
    case Down
    then show ?thesis
      using m b(1-5) b(6) b(6) [of "cursor_y s + 1"]
      by (auto simp: clamp_x_def Let_def ed_ok_def split: if_splits)
  next
    case Left
    then show ?thesis
      using m b(1-5) b(6) b(6) [of "cursor_y s - 1"]
      by (auto simp: Let_def ed_ok_def split: if_splits)
  next
    case Right
    then show ?thesis
      using m b(1-5) b(6) b(6) [of "cursor_y s + 1"]
      by (auto simp: Let_def ed_ok_def split: if_splits)
  qed
  then show ?thesis using r by simp
qed

text \<open>
  The left arrow moves the last character before the cursor behind it: the cursor goes over line
  breaks as over any other character.
\<close>

lemma move_left_text:
  assumes ok: "ed_ok s" and m: "move_cursor Left s = Some t"
  shows "before s = before t @ [last (before s)] \<and> after t = last (before s) # after s"
proof (cases "0 < cursor_x s")
  case True
  then have t: "t = s\<lparr>cursor_x := cursor_x s - 1\<rparr>" using m by simp
  obtain k where k: "nat (cursor_x s) = Suc k" "nat (cursor_x s - 1) = k" "k < length (row s (cursor_y s))"
    using True ed_okD(4) [OF ok] by (cases "nat (cursor_x s)") (auto simp: nat_diff_distrib)
  have "row t = row s" by (simp add: t row_def fun_eq_iff)
  then show ?thesis using k
    by (simp add: before_def after_def t take_Suc_conv_app_nth Cons_nth_drop_Suc)
next
  case False
  then have y: "0 < cursor_y s" "cursor_x s = 0" "t = s\<lparr>cursor_y := cursor_y s - 1, cursor_x := line_len s (cursor_y s - 1)\<rparr>"
    using m ed_okD(3) [OF ok] by (auto simp: Let_def split: if_splits)
  obtain Y where Y: "cursor_y s = int (Suc Y)"
    using y(1) by (metis Suc_pred' nonneg_int_cases of_nat_0_less_iff order_less_imp_le)
  have "Suc Y < nat (line_count s)" using ed_okD(2) [OF ok] Y by simp
  then have u: "[Suc Y..<nat (line_count s)] = Suc Y # [Suc (Suc Y)..<nat (line_count s)]"
    by (simp add: upt_conv_Cons)
  have "row t = row s" by (simp add: y row_def fun_eq_iff)
  then show ?thesis using Y y(2) u
    by (simp add: before_def after_def y(3) nat_add_distrib add.commute)
qed

lemma move_right_text:
  assumes ok: "ed_ok s" and m: "move_cursor Right s = Some t"
  shows "before t = before s @ [hd (after s)] \<and> after s = hd (after s) # after t"
proof (cases "cursor_x s < line_len s (cursor_y s)")
  case True
  then have t: "t = s\<lparr>cursor_x := cursor_x s + 1\<rparr>" using m by simp
  define k where "k = nat (cursor_x s)"
  have k: "nat (cursor_x s) = k" "nat (cursor_x s + 1) = Suc k" "k < length (row s (cursor_y s))"
    using True ed_okD(3) [OF ok] by (simp_all add: k_def nat_less_iff nat_add_distrib)
  have "row t = row s" by (simp add: t row_def fun_eq_iff)
  moreover have "drop k (row s (cursor_y s)) = row s (cursor_y s) ! k # drop (Suc k) (row s (cursor_y s))"
    using k(3) by (simp only: Cons_nth_drop_Suc)
  ultimately show ?thesis using k
    by (simp add: before_def after_def t take_Suc_conv_app_nth)
next
  case False
  then have y: "cursor_y s < line_count s - 1" "cursor_x s = line_len s (cursor_y s)"
    "t = s\<lparr>cursor_y := cursor_y s + 1, cursor_x := 0\<rparr>"
    using m ed_okD(4) [OF ok] by (auto split: if_splits)
  obtain Y where Y: "cursor_y s = int Y" using ed_okD(1) [OF ok] nonneg_int_cases by blast
  have "Suc Y < nat (line_count s)" using y(1) Y by simp
  then have u: "[Suc Y..<nat (line_count s)] = Suc Y # [Suc (Suc Y)..<nat (line_count s)]"
    by (simp add: upt_conv_Cons)
  have "row t = row s" by (simp add: y row_def fun_eq_iff)
  then show ?thesis using Y y(2) u
    by (simp add: before_def after_def y(3) nat_add_distrib add.commute)
qed

text \<open>
  The left and the right arrow move the cursor by exactly one character of the text, over line breaks
  as well, and stop only at the ends of the text.
\<close>

theorem arrows_move_by_one:
  assumes "ed_ok s"
  shows "(case move_cursor Left s of None \<Rightarrow> before s = []
      | Some t \<Rightarrow> before s = before t @ [last (before s)] \<and> after t = last (before s) # after s \<and> ed_ok t)
    \<and> (case move_cursor Right s of None \<Rightarrow> after s = []
      | Some t \<Rightarrow> before t = before s @ [hd (after s)] \<and> after s = hd (after s) # after t \<and> ed_ok t)"
proof (rule conjI)
  note b = ed_okD [OF assms]
  show "case move_cursor Left s of None \<Rightarrow> before s = []
      | Some t \<Rightarrow> before s = before t @ [last (before s)] \<and> after t = last (before s) # after s \<and> ed_ok t"
  proof (cases "move_cursor Left s")
    case None
    then show ?thesis using b(1,3) before_Nil_iff [OF assms] by (auto simp: Let_def split: if_splits)
  next
    case (Some t)
    then show ?thesis using move_left_text [OF assms Some] move_cursor_ok [OF assms Some] by simp
  qed
  show "case move_cursor Right s of None \<Rightarrow> after s = []
      | Some t \<Rightarrow> before t = before s @ [hd (after s)] \<and> after s = hd (after s) # after t \<and> ed_ok t"
  proof (cases "move_cursor Right s")
    case None
    then have "cursor_x s = line_len s (cursor_y s)" "line_count s \<le> cursor_y s + 1"
      using b(4) by (auto split: if_splits)
    then show ?thesis using None b(1) by (simp add: after_def)
  next
    case (Some t)
    then show ?thesis using move_right_text [OF assms Some] move_cursor_ok [OF assms Some] by simp
  qed
qed

lemma arrows_move_by_one_witness:
  "move_cursor Left empty_editor = None \<and> after empty_editor = []"
  using arrows_move_by_one [OF empty_editor_ok] by (simp add: empty_editor_def after_def row_def)

section \<open>What undo restores\<close>

text \<open>The ring of saved lines is in range.\<close>

definition undo_ok :: "EditorState \<Rightarrow> bool" where
  "undo_ok s \<longleftrightarrow> 0 \<le> undo_top s \<and> undo_top s < UNDO_SIZE \<and> 0 \<le> undo_count s \<and> undo_count s \<le> UNDO_SIZE"

text \<open>The state carries what \<^verbatim>\<open>ed_save_undo\<close> saved of the state before.\<close>

definition saved :: "EditorState \<Rightarrow> EditorState \<Rightarrow> bool" where
  "saved s t \<longleftrightarrow> (let u = ed_save_undo s in undo_lines t = undo_lines u \<and> undo_lens t = undo_lens u
     \<and> undo_cx t = undo_cx u \<and> undo_cy t = undo_cy u \<and> undo_top t = undo_top u \<and> undo_count t = undo_count u)"

lemma undo_restores:
  assumes ok: "undo_ok s" and t: "saved s t"
  shows "row (ed_do_undo t) k = (if k = cursor_y s then row s k else row t k)"
    and "line_len (ed_do_undo t) = (line_len t)(cursor_y s := line_len s (cursor_y s))"
    and "line_count (ed_do_undo t) = line_count t"
    and "cursor_x (ed_do_undo t) = cursor_x s" and "cursor_y (ed_do_undo t) = cursor_y s"
proof -
  have "(49 + (undo_top s + 1) mod 50) mod 50 = (49 + (undo_top s + 1)) mod 50" by (rule mod_add_right_eq)
  then have top: "(49 + (undo_top s + 1) mod 50) mod 50 = undo_top s" using ok by (simp add: undo_ok_def)
  have c: "undo_count t \<noteq> 0" and tt: "undo_top t = (undo_top s + 1) mod 50"
    "undo_lens t (undo_top s) = line_len s (cursor_y s)" "undo_cx t (undo_top s) = cursor_x s"
    "undo_cy t (undo_top s) = cursor_y s"
    "undo_lines t (undo_top s) = copy_cells (lines s (cursor_y s)) (line_len s (cursor_y s)) (undo_lines s (undo_top s))"
    using t ok by (auto simp: saved_def ed_save_undo_def Let_def undo_ok_def)
  have slot: "(undo_top t + 50 - 1) mod 50 = undo_top s" by (simp add: tt(1) top)
  show ll: "line_len (ed_do_undo t) = (line_len t)(cursor_y s := line_len s (cursor_y s))"
    and "line_count (ed_do_undo t) = line_count t"
    and "cursor_x (ed_do_undo t) = cursor_x s" and "cursor_y (ed_do_undo t) = cursor_y s"
    using c by (simp_all add: ed_do_undo_def Let_def slot [simplified] tt(2-5))
  have L: "lines (ed_do_undo t) = (lines t)(cursor_y s := copy_cells (copy_cells (lines s (cursor_y s))
      (line_len s (cursor_y s)) (undo_lines s (undo_top s))) (line_len s (cursor_y s)) (lines t (cursor_y s)))"
    using c by (simp add: ed_do_undo_def Let_def slot [simplified] tt(2-5))
  show "row (ed_do_undo t) k = (if k = cursor_y s then row s k else row t k)"
    unfolding row_def L ll by (auto simp: copy_cells_eq nat_less_iff)
qed

text \<open>The operations keep what was saved.\<close>

lemma saved_frame:
  "saved s (ed_save_undo s)"
  "saved s t \<Longrightarrow> saved s (put_cell y x c t)" "saved s t \<Longrightarrow> saved s (set_len y n t)"
  "saved s t \<Longrightarrow> saved s (move_line i k t)" "saved s t \<Longrightarrow> saved s (mark_lines a b t)"
  "saved s t \<Longrightarrow> saved s (t\<lparr>cursor_x := x, dirty := d, line_dirty := l, status_dirty := sd\<rparr>)"
  "saved s t \<Longrightarrow> saved s (t\<lparr>line_count := n, cursor_y := y, cursor_x := x, dirty := d\<rparr>)"
  "saved s t \<Longrightarrow> saved s (t\<lparr>status_dirty := sd\<rparr>)"
  by (simp_all add: saved_def put_cell_def set_len_def move_line_def mark_lines_def Let_def)

lemma saved_fold: "saved s t \<Longrightarrow> (\<And>x t. saved s t \<Longrightarrow> saved s (f x t)) \<Longrightarrow> saved s (fold f xs t)"
  by (induction xs arbitrary: t) simp_all

lemma saved_insert_newline:
  "line_count s < EDITOR_MAX_LINES \<Longrightarrow> saved s (ed_insert_newline s)"
  by (simp add: ed_insert_newline_def Let_def saved_frame saved_fold)

lemma saved_clear: "saved (ed_clear_selection s) t = saved s t"
  by (simp add: saved_def ed_save_undo_def ed_clear_selection_def mark_lines_def Let_def)

lemma saved_insert_char:
  "line_len s (cursor_y s) < EDITOR_LINE_LEN - 1 \<Longrightarrow> saved s (ed_insert_char c s)"
  by (subst saved_clear [symmetric]) (simp add: ed_insert_char_def Let_def saved_frame saved_fold)

text \<open>
  C33: Undo after typing a character gives back the text and the cursor.
\<close>

theorem undo_restores_text:
  assumes "ed_ok s" and "undo_ok s" and "c \<noteq> 10" and "has_room c s"
  shows "row (ed_do_undo (type_char c s)) = row s
    \<and> before (ed_do_undo (type_char c s)) = before s \<and> after (ed_do_undo (type_char c s)) = after s"
proof -
  have r: "line_len s (cursor_y s) < EDITOR_LINE_LEN - 1" using assms(3,4) by (simp add: has_room_def)
  note n = insert_char_rows [OF assms(1) r] and u = undo_restores [OF assms(2) saved_insert_char [OF r]]
  have "row (ed_do_undo (ed_insert_char c s)) = row s" by (simp add: fun_eq_iff u n)
  then show ?thesis using assms(3) by (simp add: type_char_def before_def after_def u n)
qed

lemma undo_restores_text_witness: "row (ed_do_undo (type_char 0x41 empty_editor)) = row empty_editor"
  using undo_restores_text [OF empty_editor_ok, of "0x41"]
  by (simp add: undo_ok_def has_room_def empty_editor_def)

text \<open>
  Undo after a line break does not: only the line that was split is restored, so what stood behind
  the cursor in it now stands there twice, once more as a line of its own.
\<close>

theorem undo_of_newline_duplicates:
  assumes "ed_ok s" and "undo_ok s" and "line_count s < EDITOR_MAX_LINES"
  shows "before (ed_do_undo (ed_insert_newline s)) = before s
    \<and> after (ed_do_undo (ed_insert_newline s))
      = drop (nat (cursor_x s)) (row s (cursor_y s)) @ 10 # after s"
proof -
  let ?t = "ed_do_undo (ed_insert_newline s)"
  note n = insert_newline_rows [OF assms(1,3)]
    and u = undo_restores [OF assms(2) saved_insert_newline [OF assms(3)]]
  obtain Y N where Y: "cursor_y s = int Y" and N: "line_count s = int N" and YN: "Y < N"
    using ed_okD(1,2) [OF assms(1)] by (metis nonneg_int_cases order_le_less_trans of_nat_less_iff order_less_imp_le)
  have r: "row ?t k = (if k = cursor_y s + 1 then drop (nat (cursor_x s)) (row s (k - 1))
      else if cursor_y s + 1 < k \<and> k \<le> line_count s then row s (k - 1) else row s k)" for k
    by (simp add: u n)
  have "map (\<lambda>i. 10 # row ?t (int i)) [Suc (Suc Y)..<Suc N] = map (\<lambda>i. 10 # row s (int i)) [Suc Y..<N]"
    by (simp only: map_Suc_upt [symmetric] map_map) (auto simp: r Y N intro!: map_cong)
  moreover have "[Suc Y..<Suc N] = Suc Y # [Suc (Suc Y)..<Suc N]" using YN by (simp add: upt_conv_Cons)
  moreover have "row ?t (int (Suc Y)) = drop (nat (cursor_x s)) (row s (int Y))" by (simp add: r Y)
  moreover have "nat (line_count ?t) = Suc N" "cursor_y ?t = int Y" "cursor_x ?t = cursor_x s"
    by (simp_all add: u n N Y nat_add_distrib)
  moreover have "row ?t (int Y) = row s (int Y)" by (simp add: r Y)
  ultimately have "after ?t = drop (nat (cursor_x s)) (row s (cursor_y s)) @ 10 # after s"
    unfolding after_def by (simp del: upt_Suc add: Y N)
  moreover have "before ?t = before s"
    by (auto simp: before_def r u Y intro!: arg_cong [where f = concat] map_cong)
  ultimately show ?thesis by simp
qed

end
