(* ===== verification/Editor_File.thy ===== *)
theory Editor_File
  imports Editor
begin

text \<open>
  Loading a file into the editor's lines and writing the lines back, and deleting a selection.
\<close>

section \<open>Lines of a text\<close>

fun split_lines :: "u8 list \<Rightarrow> u8 list list" where
  "split_lines [] = [[]]"
| "split_lines (c # cs) =
     (if c = 10 then [] # split_lines cs
      else case split_lines cs of l # ls \<Rightarrow> (c # l) # ls | [] \<Rightarrow> [])"

definition join_lines :: "u8 list list \<Rightarrow> u8 list" where
  "join_lines ls = concat (map (\<lambda>l. l @ [10]) ls)"

definition rows :: "EditorState \<Rightarrow> u8 list list" where
  "rows s = map (\<lambda>i. row s (int i)) [0..<nat (line_count s)]"

lemma split_lines_Cons: "\<exists>l ls. split_lines cs = l # ls"
  by (induction cs) (auto split: list.splits)

text \<open>The lines of a text, each with its line break, are the text with one more line break.\<close>

lemma join_split: "join_lines (split_lines cs) = cs @ [10]"
proof (induction cs)
  case (Cons c cs)
  obtain l ls where "split_lines cs = l # ls" using split_lines_Cons by blast
  then show ?case using Cons by (simp add: join_lines_def)
qed (simp add: join_lines_def)

lemma split_line: "10 \<notin> set l \<Longrightarrow> split_lines (l @ 10 # cs) = l # split_lines cs"
  by (induction l) auto

lemma split_join: "list_all (\<lambda>l. 10 \<notin> set l) ls \<Longrightarrow> split_lines (join_lines ls) = ls @ [[]]"
  by (induction ls) (simp_all add: join_lines_def split_line)

section \<open>Loading\<close>

lemma take_snoc_less:
  "length p < n \<Longrightarrow> take n (p @ c # l) = p @ c # take (n - Suc (length p)) l"
  by (simp add: take_Cons' split: nat.splits)

text \<open>
  The loop keeps the lines that are complete, with \<open>p\<close> the characters of the current one.
\<close>

lemma buf_loop_rows:
  assumes "line_count s = int n" and "n < 200" and "length p \<le> 77"
    and "\<And>j. j < length p \<Longrightarrow> lines s (int n) (int j) = p ! j"
  shows "\<exists>m. line_count (buf_loop buf (int (length p)) s) = int m \<and>
    map (\<lambda>i. row (buf_loop buf (int (length p)) s) (int i)) [0..<m]
      = map (\<lambda>i. row s (int i)) [0..<n]
        @ map (take 77) (take (200 - n) (case split_lines buf of l # ls \<Rightarrow> (p @ l) # ls | [] \<Rightarrow> []))"
  using assms
proof (induction buf arbitrary: s n p)
  case Nil
  let ?t = "set_len (int n) (int (length p)) (put_cell (int n) (int (length p)) 0 s)"
  have "row ?t (int n) = p" by (rule row_eqI) (use Nil.prems(4) in auto)
  then show ?case using Nil.prems(1-3)
    by (intro exI [of _ "Suc n"]) (simp add: Let_def row_def take_Cons')
next
  case (Cons c buf)
  obtain l ls where sl: "split_lines buf = l # ls" using split_lines_Cons by blast
  show ?case
  proof (cases "c = 10")
    case True
    let ?t = "(set_len (int n) (int (length p)) (put_cell (int n) (int (length p)) 0 s))\<lparr>line_count := int n + 1\<rparr>"
    have rt: "row ?t (int n) = p" by (rule row_eqI) (use Cons.prems(4) in auto)
    have ro: "map (\<lambda>i. row ?t (int i)) [0..<n] = map (\<lambda>i. row s (int i)) [0..<n]"
      by (simp add: row_def)
    have sz: "buf_loop (c # buf) (int (length p)) s = (if n = 199 then ?t else buf_loop buf 0 ?t)"
      using True Cons.prems(1,2) by (simp add: Let_def)
    have u: "[0..<200] = [0..<199] @ [199 :: nat]" using upt_Suc_append [of 0 199] by simp
    show ?thesis
    proof (cases "n = 199")
      case True
      then show ?thesis unfolding sz using \<open>c = 10\<close> rt ro Cons.prems(3)
        by (intro exI [of _ 200]) (simp add: sl u)
    next
      case False
      have "\<exists>m. line_count (buf_loop buf (int (length [])) ?t) = int m \<and>
          map (\<lambda>i. row (buf_loop buf (int (length [])) ?t) (int i)) [0..<m]
          = map (\<lambda>i. row ?t (int i)) [0..<Suc n]
            @ map (take 77) (take (200 - Suc n) (case split_lines buf of l # ls \<Rightarrow> ([] @ l) # ls | [] \<Rightarrow> []))"
        using Cons.IH [of ?t "Suc n" "[]"] False Cons.prems(2) by simp
      then show ?thesis unfolding sz using False True Cons.prems(2,3) rt ro
        by (simp add: sl take_Cons' Suc_diff_Suc)
    qed
  next
    case False
    show ?thesis
    proof (cases "length p < 77")
      case True
      let ?t = "put_cell (int n) (int (length p)) c s"
      have sz: "buf_loop (c # buf) (int (length p)) s = buf_loop buf (int (length (p @ [c]))) ?t"
        using False True Cons.prems(1) by (simp add: add.commute)
      have "\<exists>m. line_count (buf_loop buf (int (length (p @ [c]))) ?t) = int m \<and>
          map (\<lambda>i. row (buf_loop buf (int (length (p @ [c]))) ?t) (int i)) [0..<m]
          = map (\<lambda>i. row ?t (int i)) [0..<n]
            @ map (take 77) (take (200 - n) (case split_lines buf of l # ls \<Rightarrow> ((p @ [c]) @ l) # ls | [] \<Rightarrow> []))"
        by (rule Cons.IH) (use Cons.prems True in \<open>auto simp: nth_append less_Suc_eq\<close>)
      moreover have "map (\<lambda>i. row ?t (int i)) [0..<n] = map (\<lambda>i. row s (int i)) [0..<n]"
        by (simp add: row_def)
      ultimately show ?thesis unfolding sz using False by (simp add: sl)
    next
      case full: False
      then have sz: "buf_loop (c # buf) (int (length p)) s = buf_loop buf (int (length p)) s"
        using False by simp
      show ?thesis unfolding sz using Cons.IH [OF Cons.prems] full Cons.prems(2,3) False
        by (simp add: sl take_Cons')
    qed
  qed
qed

lemma buf_loop_len:
  "0 \<le> x \<Longrightarrow> 0 \<le> line_count s \<Longrightarrow> (\<And>i. 0 \<le> i \<Longrightarrow> i < line_count s \<Longrightarrow> 0 \<le> line_len s i) \<Longrightarrow>
     0 \<le> line_count (buf_loop buf x s)
     \<and> (\<forall>i. 0 \<le> i \<longrightarrow> i < line_count (buf_loop buf x s) \<longrightarrow> 0 \<le> line_len (buf_loop buf x s) i)"
proof (induction buf x s rule: buf_loop.induct)
  case (1 x s)
  then show ?case by (auto simp: Let_def)
next
  case (2 c buf x s)
  let ?t = "(set_len (line_count s) x (put_cell (line_count s) x 0 s))\<lparr>line_count := line_count s + 1\<rparr>"
  consider "c = 10" "line_count ?t \<ge> 200" | "c = 10" "\<not> line_count ?t \<ge> 200" | "c \<noteq> 10" "x < 77"
    | "c \<noteq> 10" "\<not> x < 77" by blast
  then show ?case
  proof cases
    case 2
    then have "buf_loop (c # buf) x s = buf_loop buf 0 ?t" by (simp add: Let_def)
    then show ?thesis using "2.IH"(1) [OF 2(1) refl refl refl 2(2)] "2.prems" by (auto simp: Let_def)
  qed (use "2.prems" "2.IH" in \<open>auto simp: Let_def\<close>)
qed

lemma load_rows: "rows (ed_buf_to_lines buf s) = map (take 77) (take 200 (split_lines buf))"
proof -
  let ?s = "s\<lparr>line_count := 0\<rparr>"
  obtain l ls where sl: "split_lines buf = l # ls" using split_lines_Cons by blast
  from buf_loop_rows [of ?s 0 "[]" buf]
  obtain m where m: "line_count (buf_loop buf 0 ?s) = int m"
    "map (\<lambda>i. row (buf_loop buf 0 ?s) (int i)) [0..<m] = map (take 77) (take 200 (split_lines buf))"
    by (auto simp: sl)
  then have "m \<noteq> 0" by (cases m) (simp_all add: sl)
  then show ?thesis using m by (simp add: ed_buf_to_lines_def rows_def Let_def)
qed

section \<open>Saving\<close>

lemma emit_all:
  "fold (\<lambda>x. emit mx (f x)) xs buf = buf @ take (nat (mx - int (length buf))) (map f xs)"
proof (induction xs arbitrary: buf)
  case (Cons x xs)
  show ?case
  proof (cases "int (length buf) < mx")
    case True
    then have "nat (mx - int (length buf)) = Suc (nat (mx - int (length (buf @ [f x]))))" by simp
    then show ?thesis using Cons [of "buf @ [f x]"] True by (simp add: emit_def)
  next
    case False
    then show ?thesis using Cons [of buf] by (simp add: emit_def)
  qed
qed simp

lemma join_lines_simps:
  "join_lines [] = []" "join_lines (l # ls) = l @ 10 # join_lines ls"
  "join_lines (ls @ ls') = join_lines ls @ join_lines ls'"
  by (simp_all add: join_lines_def)

lemma take_take_append: "take n xs @ take (n - min (length xs) n) ys = take n (xs @ ys)"
  by (cases "length xs \<le> n") simp_all

lemma upto_nat: "[0..int n - 1] = map int [0..<n]"
  by (induction n) (simp_all add: upto_rec2)

lemma save_lines:
  assumes "\<And>i. i < nat (line_count s) \<Longrightarrow> 0 \<le> line_len s (int i)" and "0 \<le> line_count s" and "0 \<le> mx"
  shows "ed_lines_to_buf mx s = take (nat mx) (join_lines (rows s))"
proof -
  let ?f = "\<lambda>y buf. emit mx 10 (fold (\<lambda>x. emit mx (lines s y x)) [0..line_len s y - 1] buf)"
  have r: "row s y = map (lines s y) [0..line_len s y - 1]" if "0 \<le> line_len s y" for y
    using that upto_nat [of "nat (line_len s y)"] by (simp add: row_def)
  have line: "?f y buf = buf @ take (nat mx - length buf) (row s y @ [10])"
    if "0 \<le> line_len s y" for y buf
  proof -
    have "?f y buf = fold (emit mx) (row s y @ [10]) buf" by (simp add: r [OF that] fold_map comp_def)
    also have "\<dots> = buf @ take (nat (mx - int (length buf))) (row s y @ [10])"
      using emit_all [of mx "\<lambda>c. c" "row s y @ [10]" buf] by (simp only: list.map_ident)
    finally show ?thesis using assms(3) by (simp add: nat_diff_distrib')
  qed
  have "fold ?f (map int [0..<n]) [] = take (nat mx) (join_lines (map (\<lambda>i. row s (int i)) [0..<n]))"
    if "n \<le> nat (line_count s)" for n
    using that
  proof (induction n)
    case (Suc n)
    then have "0 \<le> line_len s (int n)" by (intro assms(1)) simp
    then show ?case using Suc
      by (simp add: line join_lines_simps take_take_append del: take_append)
  qed (simp add: join_lines_simps)
  from this [of "nat (line_count s)"] show ?thesis
    using assms(2) upto_nat [of "nat (line_count s)"] by (simp add: ed_lines_to_buf_def rows_def)
qed

lemma ed_ok_save:
  assumes "ed_ok s"
  shows "ed_lines_to_buf (line_count s * EDITOR_LINE_LEN + 16) s = join_lines (rows s)"
proof -
  have l: "0 \<le> line_len s (int i)" "line_len s (int i) < 78" if "i < nat (line_count s)" for i
    using ed_okD(6) [OF assms, of "int i"] that by auto
  have "length (join_lines (map (\<lambda>i. row s (int i)) [0..<n])) \<le> n * 78" if "n \<le> nat (line_count s)" for n
    using that
  proof (induction n)
    case (Suc n)
    then show ?case using l(2) [of n] by (simp add: join_lines_simps)
  qed (simp add: join_lines_simps)
  from this [of "nat (line_count s)"]
  have "length (join_lines (rows s)) \<le> nat (line_count s * EDITOR_LINE_LEN + 16)"
    using ed_okD(1,2) [OF assms] by (simp add: rows_def nat_add_distrib nat_mult_distrib)
  moreover have "0 \<le> line_count s" using ed_okD(1,2) [OF assms] by simp
  ultimately show ?thesis using l(1) by (simp add: save_lines)
qed

text \<open>
  A loaded file is in the editor line by line; lines longer than 77 characters are cut, and at most
  200 lines are read.
\<close>

lemma buf_loop_cursor:
  "cursor_x (buf_loop buf x s) = cursor_x s" "cursor_y (buf_loop buf x s) = cursor_y s"
  by (induction buf x s rule: buf_loop.induct) (simp_all add: Let_def)

lemma load_ok:
  assumes "cursor_x s = 0" and "cursor_y s = 0"
  shows "ed_ok (ed_buf_to_lines buf s)"
proof -
  let ?t = "ed_buf_to_lines buf s"
  obtain l ls where sl: "split_lines buf = l # ls" using split_lines_Cons by blast
  have r: "rows ?t = map (take 77) (take 200 (split_lines buf))" by (rule load_rows)
  have "nat (line_count ?t) = length (rows ?t)" by (simp add: rows_def)
  then have n: "0 < nat (line_count ?t)" "nat (line_count ?t) \<le> 200" by (simp_all add: r sl)
  have len: "0 \<le> line_count ?t" "\<And>i. 0 \<le> i \<Longrightarrow> i < line_count ?t \<Longrightarrow> 0 \<le> line_len ?t i"
    using buf_loop_len [of 0 "s\<lparr>line_count := 0\<rparr>" buf]
    by (cases "line_count (buf_loop buf 0 (s\<lparr>line_count := 0\<rparr>)) = 0"; auto simp: ed_buf_to_lines_def Let_def)+
  have short: "line_len ?t i < 78" if "0 \<le> i" "i < line_count ?t" for i
  proof -
    have i: "nat i < length (rows ?t)" using that by (simp add: rows_def nat_less_eq_zless)
    then have "row ?t i = rows ?t ! nat i" using that by (simp add: rows_def)
    then have "row ?t i \<in> set (rows ?t)" using nth_mem [OF i] by simp
    then have "row ?t i \<in> take 77 ` set (take 200 (split_lines buf))" unfolding r by simp
    then have "length (row ?t i) \<le> 77" by (auto simp del: length_row)
    then show ?thesis by simp
  qed
  have c: "cursor_x ?t = 0" "cursor_y ?t = 0"
    using buf_loop_cursor [of buf 0 "s\<lparr>line_count := 0\<rparr>"] assms by (simp_all add: ed_buf_to_lines_def Let_def)
  show ?thesis by (rule ed_okI) (use n len short in \<open>simp_all add: c\<close>)
qed

text \<open>
  C31: Opening a file and saving it unchanged writes its text and one more line break: the break behind
  the last line is read as the start of another, empty line.
\<close>

theorem open_and_save:
  assumes "cursor_x s = 0" and "cursor_y s = 0"
    and "length (split_lines buf) \<le> 200" and "list_all (\<lambda>l. length l \<le> 77) (split_lines buf)"
  shows "let t = ed_buf_to_lines buf s
    in rows t = split_lines buf \<and> ed_lines_to_buf (line_count t * EDITOR_LINE_LEN + 16) t = buf @ [10]"
proof -
  have "map (take 77) (split_lines buf) = split_lines buf"
    by (rule map_idI) (use assms(4) in \<open>simp add: list_all_iff\<close>)
  then have "rows (ed_buf_to_lines buf s) = split_lines buf" using assms(3) by (simp add: load_rows)
  then show ?thesis using ed_ok_save [OF load_ok [OF assms(1,2), of buf]] by (simp add: join_split)
qed

lemma open_and_save_witness:
  "let t = ed_buf_to_lines [0x61, 10] empty_editor
   in rows t = [[0x61], []] \<and> ed_lines_to_buf (line_count t * EDITOR_LINE_LEN + 16) t = [0x61, 10, 10]"
  using open_and_save [of empty_editor "[0x61, 10]"] by (simp add: empty_editor_def Let_def)

text \<open>
  Saving and opening again gives back the lines, with one more empty line at the end.
\<close>

theorem save_and_open:
  assumes "ed_ok s" and "line_count s < EDITOR_MAX_LINES" and "list_all (\<lambda>l. 10 \<notin> set l) (rows s)"
  shows "rows (ed_buf_to_lines (ed_lines_to_buf (line_count s * EDITOR_LINE_LEN + 16) s) t) = rows s @ [[]]"
proof -
  have "line_len s (int i) \<le> 77" if "i < nat (line_count s)" for i
    using ed_okD(6) [OF assms(1), of "int i"] that by linarith
  then have len: "list_all (\<lambda>l. length l \<le> 77) (rows s)" by (simp add: list_all_iff rows_def nat_le_iff)
  then have "map (take 77) (rows s) = rows s" by (intro map_idI) (simp add: list_all_iff)
  moreover have "length (rows s) < 200" using assms(2) by (simp add: rows_def nat_less_iff)
  ultimately show ?thesis
    by (simp add: load_rows ed_ok_save [OF assms(1)] split_join [OF assms(3)] Let_def)
qed

lemma save_and_open_witness:
  "rows (ed_buf_to_lines (ed_lines_to_buf (line_count empty_editor * EDITOR_LINE_LEN + 16) empty_editor)
     empty_editor) = [[], []]"
proof -
  have "rows empty_editor = [[]]"
    by (simp add: rows_def row_def empty_editor_def)
  with save_and_open [OF empty_editor_ok, of empty_editor] show ?thesis by (simp add: empty_editor_def)
qed

section \<open>Deleting a selection\<close>

text \<open>The loop over the cells of the line, with the lines that stay as they are.\<close>

lemma delete_in_line:
  assumes "sel_active s" and "sel_start_y s = cursor_y s"
  shows "lines (ed_delete_selection s) = lines
      (put_cell (cursor_y s) (line_len s (cursor_y s) - (sel_start_x s - cursor_x s)) 0
        (fold (\<lambda>i t. put_cell (cursor_y s) i (lines t (cursor_y s) (i + (sel_start_x s - cursor_x s))) t)
          [cursor_x s..line_len s (cursor_y s) - (sel_start_x s - cursor_x s) - 1] s))"
    and "line_len (ed_delete_selection s)
      = (line_len s)(cursor_y s := line_len s (cursor_y s) - (sel_start_x s - cursor_x s))"
    and "line_count (ed_delete_selection s) = line_count s"
    and "cursor_x (ed_delete_selection s) = cursor_x s" and "cursor_y (ed_delete_selection s) = cursor_y s"
    and "\<not> sel_active (ed_delete_selection s)"
proof -
  let ?f = "\<lambda>i t. put_cell (cursor_y s) i (lines t (cursor_y s) (i + (sel_start_x s - cursor_x s))) t"
  let ?s = "(ed_save_undo s)\<lparr>cursor_x := cursor_x s, cursor_y := cursor_y s\<rparr>"
  have l: "lines (fold ?f xs t) = lines (fold ?f xs u)" if "lines t = lines u" for xs t u
    using that by (induction xs arbitrary: t u) (simp_all add: put_cell_def)
  obtain m where m: "fold ?f [cursor_x s..line_len s (cursor_y s) - (sel_start_x s - cursor_x s) - 1] ?s
      = ?s\<lparr>lines := m\<rparr>"
    using cell_loop_lines [of "cursor_y s" "\<lambda>i. i" "cursor_y s" "\<lambda>i. i + (sel_start_x s - cursor_x s)"] by blast
  have e: "ed_delete_selection s = (put_cell (cursor_y s) (line_len s (cursor_y s) - (sel_start_x s - cursor_x s)) 0
      (set_len (cursor_y s) (line_len s (cursor_y s) - (sel_start_x s - cursor_x s)) (?s\<lparr>lines := m\<rparr>)))
      \<lparr>line_dirty := (line_dirty s)(cursor_y s := 1), sel_active := False, dirty := 1, status_dirty := 1\<rparr>"
    using assms by (simp add: ed_delete_selection_def Let_def m)
  have "m = lines (fold ?f [cursor_x s..line_len s (cursor_y s) - (sel_start_x s - cursor_x s) - 1] s)"
    using arg_cong [OF m, of lines] l [of ?s s] by simp
  then show "lines (ed_delete_selection s) = lines
      (put_cell (cursor_y s) (line_len s (cursor_y s) - (sel_start_x s - cursor_x s)) 0
        (fold ?f [cursor_x s..line_len s (cursor_y s) - (sel_start_x s - cursor_x s) - 1] s))"
    unfolding e by simp
  show "line_len (ed_delete_selection s)
      = (line_len s)(cursor_y s := line_len s (cursor_y s) - (sel_start_x s - cursor_x s))"
    "line_count (ed_delete_selection s) = line_count s"
    "cursor_x (ed_delete_selection s) = cursor_x s" "cursor_y (ed_delete_selection s) = cursor_y s"
    "\<not> sel_active (ed_delete_selection s)"
    unfolding e by simp_all
qed

text \<open>
  A selection within a line that was made backwards, so that the cursor is at its left end, is
  deleted: the text before the cursor stays and the rest begins where the selection ended.
\<close>

theorem delete_backward_selection:
  assumes ok: "ed_ok s" and sel: "sel_active s" "sel_start_y s = cursor_y s"
    and r: "cursor_x s \<le> sel_start_x s" "sel_start_x s \<le> line_len s (cursor_y s)"
  shows "row (ed_delete_selection s) = (row s)(cursor_y s :=
      take (nat (cursor_x s)) (row s (cursor_y s)) @ drop (nat (sel_start_x s)) (row s (cursor_y s)))
    \<and> before (ed_delete_selection s) = before s"
proof -
  let ?y = "cursor_y s" and ?d = "sel_start_x s - cursor_x s" and ?t = "ed_delete_selection s"
  note d = delete_in_line [OF sel]
  have x: "0 \<le> cursor_x s" "0 \<le> cursor_y s" using ed_okD [OF ok] by simp_all
  have c: "lines ?t k j = (if k = ?y \<and> j = line_len s ?y - ?d then 0
      else if k = ?y \<and> cursor_x s \<le> j \<and> j \<le> line_len s ?y - ?d - 1 then lines s ?y (j + ?d) else lines s k j)" for k j
  proof -
    have "0 \<le> ?d" using r by simp
    then show ?thesis by (simp add: d shift_left)
  qed
  define l a b where "l = row s ?y" and "a = nat (cursor_x s)" and "b = nat (sel_start_x s)"
  have n: "cursor_x s = int a" "sel_start_x s = int b" "a \<le> b" using x r by (simp_all add: a_def b_def)
  have len: "line_len s ?y = int (length l)" "b \<le> length l" using x r by (simp_all add: l_def b_def)
  have l: "lines s ?y (int i) = l ! i" if "i < length l" for i
    using that nth_row [of i s ?y] by (simp add: l_def)
  have "row ?t ?y = take a l @ drop b l"
  proof (rule row_eqI)
    show "nat (line_len ?t ?y) = length (take a l @ drop b l)" using n len by (simp add: d)
    show "lines ?t ?y (int i) = (take a l @ drop b l) ! i" if "i < length (take a l @ drop b l)" for i
    proof (cases "i < a")
      case True
      then show ?thesis using n len l [of i] by (simp add: c nth_append)
    next
      case False
      then obtain j where j: "i = a + j" by (metis le_add_diff_inverse not_less)
      then have "b + j < length l" using that n(3) len(2) by simp
      then show ?thesis using n len l [of "b + j"] j by (simp add: c nth_append add.commute)
    qed
  qed
  moreover have "row ?t k = row s k" if "k \<noteq> ?y" for k
    using that by (simp add: row_def c d(2))
  ultimately have row: "row ?t = (row s)(?y :=
      take (nat (cursor_x s)) (row s ?y) @ drop (nat (sel_start_x s)) (row s ?y))" by (auto simp: l_def a_def b_def)
  have "length (take (nat (cursor_x s)) (row s ?y)) = nat (cursor_x s)"
    using x r by simp
  then have "before ?t = before s"
    using x by (auto simp: before_def row d intro!: arg_cong [where f = concat] map_cong)
  then show ?thesis using row by simp
qed

lemma shift_periodic:
  assumes "0 < k" and "a = p + k"
  shows "lines (fold (\<lambda>i t. put_cell y i (lines t y (i - k)) t) [a..b] s) z j
    = (if z = y \<and> a \<le> j \<and> j \<le> b then lines s y (p + (j - p) mod k) else lines s z j)"
proof (induction "nat (b + 1 - a)" arbitrary: b j z)
  case 0
  then show ?case by auto
next
  case (Suc n)
  let ?F = "\<lambda>b. fold (\<lambda>i t. put_cell y i (lines t y (i - k)) t) [a..b] s"
  have b: "[a..b] = [a..b - 1] @ [b]" using Suc.hyps(2) by (simp add: upto_rec2)
  have IH: "lines (?F (b - 1)) z j
      = (if z = y \<and> a \<le> j \<and> j \<le> b - 1 then lines s y (p + (j - p) mod k) else lines s z j)" for z j
    by (rule Suc.hyps(1)) (use Suc.hyps(2) in simp)
  have "lines (?F (b - 1)) y (b - k) = lines s y (p + (b - p) mod k)"
  proof (cases "a \<le> b - k")
    case True
    have "b - k - p = b - p - k" by simp
    then have "(b - k - p) mod k = (b - p) mod k" by (simp only: minus_mod_self2)
    then show ?thesis using True assms(1) by (simp add: IH)
  next
    case False
    then have "0 \<le> b - p - k" "b - p - k < k" using Suc.hyps(2) assms by simp_all
    then have "(b - p - k) mod k = b - p - k" by (rule mod_pos_pos_trivial)
    then have "(b - p) mod k = b - p - k" by (simp only: minus_mod_self2)
    then have e: "p + (b - p) mod k = b - k" by simp
    have "lines (?F (b - 1)) y (b - k) = lines s y (b - k)" using False by (simp add: IH)
    then show ?thesis by (simp only: e)
  qed
  then show ?case unfolding b using IH Suc.hyps(2) by auto
qed


definition editor_ABCD :: "int \<Rightarrow> int \<Rightarrow> EditorState" where
  "editor_ABCD x a = empty_editor\<lparr>lines := (\<lambda>_ i. 0x41 + word_of_int i), line_len := (\<lambda>_. 4),
     cursor_x := x, sel_start_x := a, sel_active := True\<rparr>"

lemma editor_ABCD_ok: "0 \<le> x \<Longrightarrow> x \<le> 4 \<Longrightarrow> ed_ok (editor_ABCD x a)"
  by (simp add: ed_ok_def editor_ABCD_def empty_editor_def)

lemma editor_ABCD_fields:
  "row (editor_ABCD x a) y = [0x41, 0x42, 0x43, 0x44]" "cursor_y (editor_ABCD x a) = 0"
  "cursor_x (editor_ABCD x a) = x" "sel_start_x (editor_ABCD x a) = a" "sel_start_y (editor_ABCD x a) = 0"
  "sel_active (editor_ABCD x a)" "line_len (editor_ABCD x a) y = 4"
  by (simp_all add: row_def editor_ABCD_def empty_editor_def upt_rec)

text \<open>\<open>ABCD\<close> with \<open>BC\<close> selected, from the right and from the left.\<close>

lemma delete_backward_selection_witness:
  "row (ed_delete_selection (editor_ABCD 1 3)) 0 = [0x41, 0x44]"
  using delete_backward_selection [OF editor_ABCD_ok [of 1 3]] by (simp add: editor_ABCD_fields)


end
