(* ===== verification/System.thy ===== *)
theory System
  imports Console Fat_Files Scheduler Keyboard Editor_File
begin

text \<open>
  The state the editor and the shell work on: the console, the file system, the kernel's processes
  with its two allocators, the editor's memory, and a clock for \<^verbatim>\<open>get_ms\<close>.  Keys come as the list
  of the bytes that \<^verbatim>\<open>keyboard_read\<close> returns.
\<close>

record system =
  con :: console
  fs :: fatfs
  krn :: kern
  ed_ptr :: u64
  ed :: EditorState
  clock :: "nat \<Rightarrow> u64"
  clock_reads :: nat
  port_log :: "(u16 \<times> u8) list"

section \<open>Access to the parts\<close>

definition on_con :: "(console \<Rightarrow> console) \<Rightarrow> system \<Rightarrow> system" where
  "on_con f s = s\<lparr>con := f (con s)\<rparr>"

definition on_ed :: "(EditorState \<Rightarrow> EditorState) \<Rightarrow> system \<Rightarrow> system" where
  "on_ed f s = s\<lparr>ed := f (ed s)\<rparr>"

definition bytes_of :: "string \<Rightarrow> u8 list" where
  "bytes_of = map of_char"

text \<open>
  Strings are the lists of their characters.  The file system's functions get the array a string is
  in: behind its terminator other bytes, unknown or, in an array that was cleared, zeros.
\<close>

definition c_string :: "u8 list \<Rightarrow> u8 list" where
  "c_string t = t @ [0]"

definition c_array :: "nat \<Rightarrow> u8 list \<Rightarrow> u8 list" where
  "c_array n t = t @ replicate (n - length t) 0"

definition print_str :: "string \<Rightarrow> system \<Rightarrow> system" where
  "print_str t = on_con (console_print (bytes_of t))"

text \<open>The current value of \<^verbatim>\<open>system_ticks\<close>; the timer interrupt may advance it between two reads.\<close>

definition get_ms :: "system \<Rightarrow> u64 \<times> system" where
  "get_ms s = (clock s (clock_reads s), s\<lparr>clock_reads := clock_reads s + 1\<rparr>)"

text \<open>The messages of a file system operation appear on the console.\<close>

definition show_msg :: "msg \<Rightarrow> console \<Rightarrow> console" where
  "show_msg m = (case m of Str t \<Rightarrow> console_print (bytes_of t) | Char c \<Rightarrow> console_putchar c
     | Num n \<Rightarrow> print_zahl n)"

definition put_fs :: "fatfs \<Rightarrow> system \<Rightarrow> system" where
  "put_fs f s = s\<lparr>fs := f\<lparr>out := []\<rparr>, con := fold show_msg (out f) (con s)\<rparr>"

definition on_fs :: "(fatfs \<Rightarrow> fatfs option) \<Rightarrow> system \<Rightarrow> system option" where
  "on_fs f s = map_option (\<lambda>f. put_fs f s) (f (fs s))"

definition on_krn :: "(kern \<Rightarrow> kern option) \<Rightarrow> system \<Rightarrow> system option" where
  "on_krn f s = map_option (\<lambda>k. s\<lparr>krn := k\<rparr>) (f (krn s))"

text \<open>Allocation on the kernel's heap.\<close>

definition sys_kmalloc :: "u64 \<Rightarrow> system \<Rightarrow> (system \<times> u64) option" where
  "sys_kmalloc n s = (case kmalloc n (kheap (krn s)) of None \<Rightarrow> None
     | Some (h, p) \<Rightarrow> Some (s\<lparr>krn := (krn s)\<lparr>kheap := h\<rparr>\<rparr>, p))"

definition sys_kfree :: "u64 \<Rightarrow> system \<Rightarrow> system option" where
  "sys_kfree p s = (case kfree p (kheap (krn s)) of None \<Rightarrow> None
     | Some h \<Rightarrow> Some (s\<lparr>krn := (krn s)\<lparr>kheap := h\<rparr>\<rparr>))"

end
