(* ===== verification/Editor_App.thy ===== *)
theory Editor_App
  imports System
begin

text \<open>
  The editor as a program, \<^verbatim>\<open>src/src/Apps/Editor/editor.c\<close>: drawing the lines and the status line,
  scrolling, and \<^verbatim>\<open>fat_edit_file\<close> with its loop over the keys.
\<close>

abbreviation COLOR_NORMAL :: u8 where "COLOR_NORMAL \<equiv> 0x07"
abbreviation COLOR_SELECTED :: u8 where "COLOR_SELECTED \<equiv> 0x17"

section \<open>Drawing\<close>

definition editor_status_row :: "system \<Rightarrow> int" where
  "editor_status_row s = console_get_height (con s) - 2"

definition editor_view_height :: "system \<Rightarrow> int" where
  "editor_view_height s = console_get_height (con s) - 2"

text \<open>\<^verbatim>\<open>'0' + (n / d) % 10\<close>, for the numbers that are not negative.\<close>

definition digit :: "int \<Rightarrow> int \<Rightarrow> u8" where
  "digit n d = 0x30 + word_of_int (n div d mod 10)"

definition write3 :: "int \<Rightarrow> int \<Rightarrow> int \<Rightarrow> system \<Rightarrow> system" where
  "write3 x y n s =
     on_con (console_write_at (x + 2) y (digit n 1))
       (on_con (console_write_at (x + 1) y (digit n 10)) (on_con (console_write_at x y (digit n 100)) s))"

definition ed_draw_status :: "system \<Rightarrow> system" where
  "ed_draw_status s =
     (let e = ed s;
          changed = (cursor_x e \<noteq> last_cursor_x e \<or> cursor_y e \<noteq> last_cursor_y e
            \<or> EditorState.dirty e \<noteq> last_dirty e)
      in if \<not> changed then s
         else
          let s = on_ed (\<lambda>e. e\<lparr>last_cursor_x := cursor_x e, last_cursor_y := cursor_y e,
                           last_dirty := EditorState.dirty e\<rparr>) s;
              row = editor_status_row s;
              s = on_con (console_write_at 20 row (if EditorState.dirty (ed s) \<noteq> 0 then 0x2A else 0x20)) s;
              s = write3 24 row (cursor_y (ed s) + 1) s
          in write3 29 row (cursor_x (ed s) + 1) s)"

text \<open>One line of the view: its characters, then blanks up to the width of the console.\<close>

definition draw_line :: "int \<Rightarrow> int \<Rightarrow> system \<Rightarrow> system" where
  "draw_line sy ty s =
     (let e = ed s;
          len = (if ty < line_count e then line_len e ty else 0);
          s = fold (\<lambda>x. on_con (console_write_at_color x sy (lines e ty x)
                (if ed_is_selected x ty e then COLOR_SELECTED else COLOR_NORMAL))) [0..len - 1] s;
          s = fold (\<lambda>x. on_con (console_write_at_color x sy 0x20 COLOR_NORMAL))
                [len..console_get_width (con s) - 1] s
      in on_ed (\<lambda>e. e\<lparr>line_dirty := (line_dirty e)(ty := 0)\<rparr>) s)"

definition render_row :: "int \<Rightarrow> system \<Rightarrow> system" where
  "render_row sy s =
     (let e = ed s; ty = view_top e + sy
      in if ty \<ge> EDITOR_MAX_LINES then s
         else
          let min_sel = (if sel_start_y e < cursor_y e then sel_start_y e else cursor_y e);
              max_sel = (if sel_start_y e > cursor_y e then sel_start_y e else cursor_y e)
          in if line_dirty e ty \<noteq> 0 \<or> (sel_active e \<and> ty \<ge> min_sel \<and> ty \<le> max_sel)
             then draw_line sy ty s else s)"

definition ed_render :: "system \<Rightarrow> system" where
  "ed_render s =
     (let s = fold render_row [0..editor_view_height s - 1] s;
          s = (if status_dirty (ed s) \<noteq> 0
               then on_ed (\<lambda>e. e\<lparr>status_dirty := 0\<rparr>) (ed_draw_status s) else s)
      in on_con (console_set_pos (cursor_x (ed s)) (cursor_y (ed s) - view_top (ed s))) s)"

text \<open>The name, cut to 20 characters and filled up to column 21, and the fixed rest.\<close>

definition status_text :: "u8 list \<Rightarrow> u8 list" where
  "status_text name =
     (let p = take 20 name; p = p @ replicate (21 - length p) 0x20
      in take 79 (p @ bytes_of '' | L:    C:    | Ctrl+S Z=Undo Y=Redo''))"

definition ed_draw_status_full :: "system \<Rightarrow> system" where
  "ed_draw_status_full s =
     (let row = editor_status_row s;
          s = on_con (console_clear_line row) s;
          s = on_con (console_write_str_at 0 row (status_text (filename (ed s)))) s;
          s = on_ed (\<lambda>e. e\<lparr>last_cursor_x := -1, last_cursor_y := -1, last_dirty := 2\<rparr>) s
      in ed_draw_status s)"

definition ed_render_full :: "system \<Rightarrow> system" where
  "ed_render_full s =
     (let s = on_ed (\<lambda>e. (mark_lines 0 (EDITOR_MAX_LINES - 1) e)\<lparr>status_dirty := 1\<rparr>) s;
          s = fold (\<lambda>x s. on_con (console_write_at x (editor_view_height s) 0x2D) s)
                [0..console_get_width (con s) - 1] s
      in ed_render (ed_draw_status_full s))"

definition ed_scroll_to_cursor :: "system \<Rightarrow> system" where
  "ed_scroll_to_cursor s =
     (let old_top = view_top (ed s);
          s = (if cursor_y (ed s) < view_top (ed s)
               then on_ed (\<lambda>e. e\<lparr>view_top := cursor_y e\<rparr>) s else s);
          s = (if cursor_y (ed s) \<ge> view_top (ed s) + editor_view_height s
               then on_ed (\<lambda>e. e\<lparr>view_top := cursor_y e - editor_view_height s + 1\<rparr>) s else s)
      in if view_top (ed s) \<noteq> old_top then ed_render_full s else s)"

section \<open>The keys\<close>

text \<open>Saving; \<open>None\<close> when an operation of the file system or the heap does not return.\<close>

definition ed_save :: "system \<Rightarrow> system option" where
  "ed_save s =
     (let sz = line_count (ed s) * EDITOR_LINE_LEN + 16
      in case sys_kmalloc (word_of_int sz) s of None \<Rightarrow> None
         | Some (s, sb) \<Rightarrow>
             if sb = 0 then Some s
             else
              let (t1, s) = get_ms s;
                  buf = ed_lines_to_buf sz (ed s);
                  (t2, s) = get_ms s
              in case on_fs (fat_write_data (c_string (filename (ed s))) buf (of_nat (length buf))) s of None \<Rightarrow> None
                 | Some s \<Rightarrow>
                    let (t3, s) = get_ms s
                    in case sys_kfree sb s of None \<Rightarrow> None
                       | Some s \<Rightarrow>
                          let s = on_ed (\<lambda>e. e\<lparr>dirty := 0, status_dirty := 1\<rparr>) s;
                              ms1 = ucast (t2 - t1) :: u32;
                              ms2 = ucast (t3 - t2) :: u32;
                              s = write3 60 1 (uint ms1) s;
                              s = on_con (console_write_at 63 1 0x62) s;
                              s = write3 65 1 (uint ms2) s
                          in Some (on_con (console_write_at 68 1 0x77) s))"

definition shift_key :: "u8 \<Rightarrow> arrow option" where
  "shift_key c = (if c = KEY_SHIFT_UP then Some Up else if c = KEY_SHIFT_DOWN then Some Down
     else if c = KEY_SHIFT_LEFT then Some Left else if c = KEY_SHIFT_RIGHT then Some Right else None)"

definition arrow_key :: "u8 \<Rightarrow> arrow option" where
  "arrow_key c = (if c = KEY_UP then Some Up else if c = KEY_DOWN then Some Down
     else if c = KEY_LEFT then Some Left else if c = KEY_RIGHT then Some Right else None)"

text \<open>What a key does, before the view follows the cursor.\<close>

definition edit_key :: "u8 \<Rightarrow> system \<Rightarrow> system option" where
  "edit_key c s =
     (case shift_key c of Some k \<Rightarrow> Some (on_ed (shift_arrow k) s)
      | None \<Rightarrow>
     (case arrow_key c of Some k \<Rightarrow> Some (on_ed (plain_arrow k) s)
      | None \<Rightarrow>
        if c = KEY_CTRL_S then ed_save s
        else if c = KEY_CTRL_C then Some (on_ed ed_copy_selection s)
        else if c = KEY_CTRL_V then Some (on_ed ed_paste s)
        else if c = KEY_CTRL_Z then Some (on_ed ed_do_undo s)
        else if c = KEY_CTRL_Y then Some (on_ed ed_do_redo s)
        else if c = 10 then Some (on_ed (ed_insert_newline \<circ> ed_delete_selection) s)
        else if c = 8 then
          Some (on_ed (\<lambda>e. if sel_active e then ed_delete_selection e else ed_backspace e) s)
        else if c \<ge> 0x20 \<and> c < 0x80 then Some (on_ed (ed_insert_char c \<circ> ed_delete_selection) s)
        else Some s))"

text \<open>
  The loop over the keys; it ends at the escape key and hands back the keys that are left.  When the
  keys run out the program waits in the state reached.
\<close>

fun edit_loop :: "u8 list \<Rightarrow> system \<Rightarrow> (system \<times> u8 list) option" where
  "edit_loop [] s = Some (s, [])"
| "edit_loop (c # keys) s =
     (if c = 0x1B then Some (on_con console_clear s, keys)
      else case edit_key c s of None \<Rightarrow> None
        | Some s \<Rightarrow> edit_loop keys (ed_render (ed_scroll_to_cursor s)))"

text \<open>
  \<^verbatim>\<open>sizeof(EditorState)\<close> with the compiler's padding.  The structure is not cleared after its
  allocation: what is not reset here is what the memory held.
\<close>

abbreviation SIZEOF_EDITOR :: u64 where "SIZEOF_EDITOR \<equiv> 41328"

definition reset_editor :: "u8 list \<Rightarrow> EditorState \<Rightarrow> EditorState" where
  "reset_editor name e =
     e\<lparr>cursor_x := 0, cursor_y := 0, view_top := 0, dirty := 0, undo_top := 0, undo_count := 0,
       redo_top := 0, redo_count := 0, line_count := 0,
       line_dirty := fold (\<lambda>i d. d(i := 0)) [0..EDITOR_MAX_LINES - 1] (line_dirty e),
       status_dirty := 0, sel_active := False, sel_start_x := 0, sel_start_y := 0,
       filename := take 63 name\<rparr>"

text \<open>
  The buffer has room for 200 lines of 78 bytes; \<^verbatim>\<open>fat_read_file\<close> does not know its size.  A file
  that fills more is written over the heap behind it: \<open>None\<close>.  So is a size that is larger than
  the file's clusters: the lines would come from what the heap held before.  The flag tells whether there was
  memory for the buffer.
\<close>

definition load_file :: "system \<Rightarrow> (system \<times> bool) option" where
  "load_file s =
     (case sys_kmalloc 15600 s of None \<Rightarrow> None
      | Some (s, buf) \<Rightarrow>
          if buf = 0 then Some (print_str ''kmalloc fehler'' s, False)
          else case fat_read_file (c_string (filename (ed s))) (fs s) of None \<Rightarrow> None
            | Some (f, sz, data) \<Rightarrow>
                if length data > 15600 \<or> unat sz > length data then None
                else map_option (\<lambda>s. (s, True))
                  (sys_kfree buf (on_ed (ed_buf_to_lines (take (unat sz) data)) (put_fs f s))))"

definition fat_edit_file :: "u8 list \<Rightarrow> u8 list \<Rightarrow> system \<Rightarrow> (system \<times> u8 list) option" where
  "fat_edit_file name keys s =
     (case (if ed_ptr s = 0 then sys_kmalloc SIZEOF_EDITOR s else Some (s, ed_ptr s)) of None \<Rightarrow> None
      | Some (s, p) \<Rightarrow>
          let s = s\<lparr>ed_ptr := p\<rparr>
          in if p = 0 then Some (on_con (console_putchar 10) (print_str ''Editor: kein Speicher'' s), keys)
             else case load_file (on_ed (reset_editor name) s) of None \<Rightarrow> None
               | Some (s, ok) \<Rightarrow>
                   if \<not> ok then Some (on_con (console_putchar 10) s, keys)
                   else edit_loop keys (ed_render_full (on_con console_clear s)))"

section \<open>A session\<close>

text \<open>Drawing does not touch the text, the cursor or the selection.\<close>

definition text_of :: "EditorState \<Rightarrow> (int \<Rightarrow> cells) \<times> (int \<Rightarrow> int) \<times> int \<times> int \<times> int \<times> bool" where
  "text_of e = (lines e, line_len e, line_count e, cursor_x e, cursor_y e, sel_active e)"

lemma ed_on_con [simp]: "ed (on_con f s) = ed s"
  by (simp add: on_con_def)

lemma ed_on_ed [simp]: "ed (on_ed f s) = f (ed s)"
  by (simp add: on_ed_def)

lemma ed_write3 [simp]: "ed (write3 x y n s) = ed s"
  by (simp add: write3_def)

lemma ed_fold: "(\<And>x s. ed (f x s) = ed s) \<Longrightarrow> ed (fold f xs s) = ed s"
  by (induction xs arbitrary: s) simp_all

lemma text_fold: "(\<And>x s. text_of (ed (f x s)) = text_of (ed s)) \<Longrightarrow> text_of (ed (fold f xs s)) = text_of (ed s)"
  by (induction xs arbitrary: s) simp_all

lemma text_draw_status: "text_of (ed (ed_draw_status s)) = text_of (ed s)"
  by (simp add: ed_draw_status_def Let_def text_of_def)

lemma text_render_row: "text_of (ed (render_row sy s)) = text_of (ed s)"
  by (simp add: render_row_def draw_line_def Let_def ed_fold text_of_def)

lemma text_render: "text_of (ed (ed_render s)) = text_of (ed s)"
proof -
  have "text_of (ed (fold render_row xs s)) = text_of (ed s)" for xs
    by (rule text_fold) (rule text_render_row)
  moreover have "text_of (e\<lparr>status_dirty := d\<rparr>) = text_of e" for e d by (simp add: text_of_def)
  ultimately show ?thesis by (simp add: ed_render_def Let_def text_draw_status)
qed

lemma text_render_full: "text_of (ed (ed_render_full s)) = text_of (ed s)"
proof -
  have "text_of ((mark_lines a b e)\<lparr>status_dirty := d\<rparr>) = text_of e" for a b e d
    by (simp add: text_of_def)
  moreover have "text_of (e\<lparr>last_cursor_x := a, last_cursor_y := b, last_dirty := d\<rparr>) = text_of e" for a b e d
    by (simp add: text_of_def)
  ultimately show ?thesis
    by (simp add: ed_render_full_def ed_draw_status_full_def Let_def text_render text_draw_status ed_fold)
qed

lemma text_scroll: "text_of (ed (ed_scroll_to_cursor s)) = text_of (ed s)"
  by (simp add: ed_scroll_to_cursor_def Let_def text_render_full) (simp add: text_of_def)

lemma text_of_before:
  assumes "text_of e = text_of e'"
  shows "before e = before e'" "after e = after e'" "ed_ok e = ed_ok e'" "has_room c e = has_room c e'"
    "sel_active e = sel_active e'"
  using assms by (simp_all add: text_of_def before_def after_def row_def ed_ok_def has_room_def)

text \<open>Whether a text finds room depends on the lengths of the lines and the cursor only.\<close>

definition same_size :: "EditorState \<Rightarrow> EditorState \<Rightarrow> bool" where
  "same_size e e' \<longleftrightarrow> line_len e = line_len e' \<and> line_count e = line_count e' \<and> cursor_x e = cursor_x e'
     \<and> cursor_y e = cursor_y e'"

lemma same_size_type:
  assumes "same_size e e'" and "ed_ok e" and "ed_ok e'" and "has_room c e"
  shows "same_size (type_char c e) (type_char c e')"
proof (cases "c = 10")
  case True
  then have "line_count e < 200" "line_count e' < 200" using assms by (simp_all add: has_room_def same_size_def)
  from insert_newline_rows [OF assms(2) this(1)] insert_newline_rows [OF assms(3) this(2)]
  show ?thesis using True assms(1) by (simp add: type_char_def same_size_def fun_eq_iff)
next
  case False
  then have "line_len e (cursor_y e) < 78 - 1" "line_len e' (cursor_y e') < 78 - 1"
    using assms by (simp_all add: has_room_def same_size_def)
  from insert_char_rows [OF assms(2) this(1)] insert_char_rows [OF assms(3) this(2)]
  show ?thesis using False assms(1) by (simp add: type_char_def same_size_def)
qed

lemma same_size_room:
  "same_size e e' \<Longrightarrow> ed_ok e \<Longrightarrow> ed_ok e' \<Longrightarrow> room has_room type_char str e \<Longrightarrow> room has_room type_char str e'"
proof (induction str arbitrary: e e')
  case (Cons c str)
  then have "has_room c e" by simp
  then have "has_room c e'" using Cons.prems(1) by (auto simp: has_room_def same_size_def)
  note r = \<open>has_room c e\<close> this
  then show ?case
    using Cons.IH [OF same_size_type [OF Cons.prems(1-3)] type_char_ok type_char_ok] Cons.prems r by simp
qed simp

lemma type_char_sel: "\<not> sel_active e \<Longrightarrow> \<not> sel_active (type_char c e)"
proof -
  assume a: "\<not> sel_active e"
  have m: "sel_active (move_line i k t) = sel_active t" "sel_active (put_cell y x v t) = sel_active t"
    "sel_active (set_len y n t) = sel_active t"
    for i k t y x v n
    by (simp_all add: move_line_def put_cell_def set_len_def)
  have f: "sel_active (fold (\<lambda>i. move_line i (f i)) xs t) = sel_active t" for f xs t
    by (induction xs arbitrary: t) (simp_all add: m)
  have g: "sel_active (fold (\<lambda>i s. put_cell y (f i) (lines s z (g i)) s) xs t) = sel_active t" for y f z g xs t
    using cell_loop_lines [of y f z g xs t] by auto
  show ?thesis using a
    by (simp add: type_char_def ed_insert_char_def ed_insert_newline_def Let_def m f g)
qed

definition text_key :: "u8 \<Rightarrow> bool" where
  "text_key c \<longleftrightarrow> c = 10 \<or> 0x20 \<le> c \<and> c < 0x80"

lemma edit_text_key:
  assumes "text_key c" and "\<not> sel_active (ed s)"
  shows "edit_key c s = Some (on_ed (type_char c) s) \<and> c \<noteq> 0x1B"
proof -
  have d: "ed_delete_selection (ed s) = ed s" using assms(2) by (simp add: ed_delete_selection_def)
  have n: "c \<noteq> 0x1B" "c \<noteq> 8" and k: "c \<notin> {0x80..0x8C}" using assms(1) by (auto simp: text_key_def)
  have "shift_key c = None" "arrow_key c = None" "c \<notin> {KEY_CTRL_S, KEY_CTRL_C, KEY_CTRL_V, KEY_CTRL_Z, KEY_CTRL_Y}"
    using k by (auto simp: shift_key_def arrow_key_def)
  then show ?thesis using assms(1) n
    by (auto simp: edit_key_def on_ed_def type_char_def d text_key_def)
qed

text \<open>
  C24: Typing a text in the editor, key by key with the screen redrawn after each, inserts it at the
  cursor, provided the lines have room for it.
\<close>

theorem editor_session_types_text:
  "ed_ok (ed s) \<Longrightarrow> \<not> sel_active (ed s) \<Longrightarrow> list_all text_key keys \<Longrightarrow> room has_room type_char keys (ed s) \<Longrightarrow>
     \<exists>t. edit_loop keys s = Some (t, []) \<and> before (ed t) = before (ed s) @ keys \<and> after (ed t) = after (ed s)
       \<and> ed_ok (ed t)"
proof (induction keys arbitrary: s)
  case (Cons c keys)
  let ?e = "type_char c (ed s)"
  let ?t = "ed_render (ed_scroll_to_cursor (on_ed (type_char c) s))"
  have k: "edit_key c s = Some (on_ed (type_char c) s)" "c \<noteq> 0x1B"
    using edit_text_key [of c s] Cons.prems by auto
  have e: "text_of (ed ?t) = text_of ?e" by (simp add: text_render text_scroll)
  have ok: "ed_ok ?e" using type_char_ok [OF Cons.prems(1)] .
  have r: "before ?e = before (ed s) @ [c]" "after ?e = after (ed s)"
    using type_char_text [OF Cons.prems(1)] Cons.prems(4) by auto
  have ok': "ed_ok (ed ?t)" using ok text_of_before(3) [OF e] by blast
  moreover have "\<not> sel_active (ed ?t)" using type_char_sel [OF Cons.prems(2)] text_of_before(5) [OF e] by blast
  moreover have "same_size ?e (ed ?t)" using e by (simp add: same_size_def text_of_def)
  then have "room has_room type_char keys (ed ?t)"
    by (rule same_size_room [OF _ ok ok']) (use Cons.prems(4) in simp)
  moreover have "list_all text_key keys" using Cons.prems(3) by simp
  ultimately obtain u where "edit_loop keys ?t = Some (u, [])" "before (ed u) = before (ed ?t) @ keys"
    "after (ed u) = after (ed ?t)" "ed_ok (ed u)"
    using Cons.IH [of ?t] by blast
  then show ?case using k r text_of_before(1,2) [OF e] by simp
qed simp

definition idle_system :: system where
  "idle_system = \<lparr>con = fb_screen, fs = small_fs, krn = fresh_kern, ed_ptr = 0, ed = empty_editor,
     clock = (\<lambda>_. 0), clock_reads = 0, port_log = []\<rparr>"

lemma editor_session_types_text_witness:
  "\<exists>t. edit_loop [0x41, 10] idle_system = Some (t, []) \<and> before (ed t) = [0x41, 10] \<and> after (ed t) = []"
proof -
  have e: "ed idle_system = empty_editor" by (simp add: idle_system_def)
  have l: "line_len empty_editor (cursor_y empty_editor) < 78 - 1" by (simp add: empty_editor_def)
  note n = insert_char_rows [OF empty_editor_ok l]
  have "room has_room type_char [0x41, 10] (ed idle_system)"
    unfolding e by (simp add: has_room_def type_char_def n) (simp add: empty_editor_def)
  moreover have "\<not> sel_active (ed idle_system)" unfolding e by (simp add: empty_editor_def)
  moreover have "list_all text_key [0x41, 10]" by (simp add: text_key_def)
  ultimately show ?thesis
    using editor_session_types_text [of idle_system "[0x41, 10]"] empty_editor_ok empty_editor_text e by auto
qed

end
