(* ===== verification/Stress_Test.thy ===== *)
theory Stress_Test
  imports System "HOL-Library.Monad_Syntax"
begin

text \<open>
  The self-tests of the two allocators, \<^verbatim>\<open>src/src/kernel/stress_test.c\<close>.  A test is modelled by
  the requests it makes and the checks it does; what it prints follows from them.  Umlauts are
  spelled out in the texts.
\<close>

section \<open>Printing\<close>

definition print_dec :: "u64 \<Rightarrow> system \<Rightarrow> system" where
  "print_dec n = on_con (if n = 0 then console_print [0x30] else print_digits 10 (unat n))"

definition print_line :: "string \<Rightarrow> system \<Rightarrow> system" where
  "print_line t s = on_con (console_putchar 10) (print_str t s)"

definition print_check :: "bool \<Rightarrow> string \<Rightarrow> string \<Rightarrow> system \<Rightarrow> system" where
  "print_check ok good bad = print_line (if ok then good else bad)"

section \<open>The page allocator\<close>

fun alloc_pages :: "nat \<Rightarrow> pmm \<Rightarrow> pmm \<times> u64 list" where
  "alloc_pages 0 p = (p, [])"
| "alloc_pages (Suc n) p =
     (let (p, a) = pmm_alloc p; (p, as) = alloc_pages n p in (p, a # as))"

record pmm_result =
  after_alloc :: u64
  after_free :: u64
  after_double :: u64
  failed_at :: "nat list"
  distinct_pages :: bool

text \<open>The requests of the test and what the checks look at.\<close>

definition pmm_requests :: "pmm \<Rightarrow> pmm \<times> pmm_result" where
  "pmm_requests p =
     (let (p, pages) = alloc_pages 16 p;
          nach_alloc = pmm_get_free_pages p;
          p = fold pmm_free pages p;
          nach_free = pmm_get_free_pages p;
          p = pmm_free (pages ! 0) (pmm_free (pages ! 0) p);
          nach_double = pmm_get_free_pages p;
          (p, a) = pmm_alloc p;
          (p, b) = pmm_alloc p;
          p = pmm_free b (pmm_free a p);
          (p, tmp) = alloc_pages 8 p;
          p = fold pmm_free tmp p
      in (p, \<lparr>after_alloc = nach_alloc, after_free = nach_free, after_double = nach_double,
              failed_at = filter (\<lambda>i. pages ! i = 0xFFFFFFFFFFFFFFFF) [0..<16],
              distinct_pages = (a \<noteq> b)\<rparr>))"

text \<open>
  The canary: the byte behind the bitmap is the first byte of the heap, the low byte of the size in
  the header of its first block.
\<close>

definition canary :: "kern \<Rightarrow> kern" where
  "canary k =
     (if heap_start (kheap k) = pmm_bitmap_end (kpmm k)
      then k\<lparr>kheap := set_block (heap_start (kheap k))
               (bsize_update (\<lambda>v. (v AND NOT 0xFF) OR 0xAB)) (kheap k)\<rparr>
      else k)"

definition pmm_stress_test :: "system \<Rightarrow> system" where
  "pmm_stress_test s =
     (let vorher = pmm_get_free_pages (kpmm (krn s));
          (p, r) = pmm_requests (kpmm (krn s));
          s = s\<lparr>krn := canary ((krn s)\<lparr>kpmm := p\<rparr>)\<rparr>;
          s = print_line ''=== PMM Stress Test ==='' (on_con (console_putchar 10) s);
          s = on_con (console_putchar 10) (print_dec vorher (print_str ''Freie Pages am Start: '' s));
          s = print_str ''[1] 16 Pages allozieren... '' s;
          s = fold (\<lambda>i s. on_con (console_putchar 10) (print_dec (of_nat i) (print_str ''FEHLER bei i='' s)))
                (failed_at r) s;
          s = (if failed_at r = [] then print_line ''OK'' s else s);
          s = on_con (console_putchar 10) (print_dec (after_alloc r) (print_str ''   Freie Pages jetzt: '' s));
          s = (if vorher - after_alloc r = 16 then print_line ''   Zaehler: OK (-16)'' s
               else on_con (console_putchar 10) (print_dec (vorher - after_alloc r)
                      (print_str ''   Zaehler: FEHLER! Erwartet -16, got '' s)));
          s = print_str ''[2] 16 Pages freigeben... '' s;
          s = (if after_free r = vorher then print_line ''OK (Zaehler erholt)'' s
               else on_con (console_putchar 10) (print_dec (after_free r) (print_str '' Nachher=''
                      (print_dec vorher (print_str ''FEHLER! Vorher='' s)))));
          s = print_str ''[3] Double-Free Test... '' s;
          s = (if after_double r = vorher then print_line ''OK (kein Underflow)'' s
               else on_con (console_putchar 10) (print_dec (after_double r) (print_str ''FEHLER! free_pages='' s)));
          s = print_str ''[4] Keine Doppel-Allokation... '' s;
          s = (if distinct_pages r then print_line ''OK (verschiedene Adressen)'' s
               else print_str ''FEHLER! Beide Adressen gleich: '' s);
          s = print_line ''OK (0xAB intakt)'' (print_str ''[5] Bitmap-Overflow Canary... '' s)
      in on_con (console_putchar 10) (print_line ''=== PMM Test abgeschlossen ==='' s))"

section \<open>The heap\<close>

text \<open>
  A loop of requests that stops at the first one that fails.  The pointers behind it are never set,
  and the loops that follow free whatever they hold: \<open>None\<close> in that case.
\<close>

definition alloc_all :: "nat \<Rightarrow> u64 \<Rightarrow> heap \<Rightarrow> (heap \<times> u64 list) option" where
  "alloc_all n sz h =
     do { (h, ps) \<leftarrow> alloc_many kmalloc (replicate n sz) h;
          if 0 \<in> set ps then None else Some (h, ps) }"

text \<open>
  The requests of the test and its four checks.  Payloads are not part of the store of headers; the
  bytes written into the first region are read back unchanged.
\<close>

definition heap_requests :: "heap \<Rightarrow> (heap \<times> bool list) option" where
  "heap_requests h =
     do { (h, p) \<leftarrow> kmalloc 64 h;
          h \<leftarrow> kfree p h;
          (h, ptrs) \<leftarrow> alloc_all 8 128 h;
          h \<leftarrow> free_many kfree ptrs h;
          (h, nach) \<leftarrow> kmalloc 512 h;
          h \<leftarrow> kfree nach h;
          (h, x) \<leftarrow> kmalloc 64 h;
          (h, y) \<leftarrow> kmalloc 64 h;
          h \<leftarrow> kfree x h;
          h \<leftarrow> kfree y h;
          (h, gross) \<leftarrow> kmalloc (128 + SIZEOF_BLOCK) h;
          h \<leftarrow> kfree gross h;
          h \<leftarrow> kfree 0 h;
          (h, klein) \<leftarrow> alloc_all 32 16 h;
          h \<leftarrow> free_many kfree (nths klein {i. even i}) h;
          h \<leftarrow> free_many kfree (nths klein {i. odd i}) h;
          (h, defrag) \<leftarrow> kmalloc 256 h;
          h \<leftarrow> kfree defrag h;
          Some (h, [p \<noteq> 0, nach \<noteq> 0, gross \<noteq> 0, defrag \<noteq> 0]) }"

definition heap_stress_test :: "system \<Rightarrow> system option" where
  "heap_stress_test s =
     (case heap_requests (kheap (krn s)) of None \<Rightarrow> None
      | Some (h, ok) \<Rightarrow>
          let s = s\<lparr>krn := (krn s)\<lparr>kheap := h\<rparr>\<rparr>;
              s = print_line ''=== Heap Stress Test ==='' s;
              s = print_check (ok ! 0) ''OK'' ''FEHLER: NULL'' (print_str ''[1] Einfaches kmalloc/kfree... '' s);
              s = print_check (ok ! 1) ''OK'' ''FEHLER: kein Speicher nach free''
                    (print_str ''[2] 8x kmalloc dann kfree... '' s);
              s = print_check (ok ! 2) ''OK (Merge funktioniert)'' ''FEHLER: Merge hat nicht gemergt''
                    (print_str ''[3] Block-Merge nach kfree... '' s);
              s = print_line ''OK'' (print_str ''[4] kfree(NULL)... '' s);
              s = print_check (ok ! 3) ''OK'' ''FEHLER: Fragmentierung nicht aufgeloest''
                    (print_str ''[5] 32x kleine Allocs... '' s);
              s = print_line ''=== Heap Test abgeschlossen ==='' s
          in Some (on_con (console_putchar 10) s))"

section \<open>The page test passes\<close>

lemma alloc_pages_many: "alloc_many pmm_alloc_req (replicate n ()) p = Some (alloc_pages n p)"
  by (induction n arbitrary: p) (auto simp: pmm_alloc_req_def Let_def split: prod.splits)

lemma free_pages_many: "free_many pmm_free_req as p = Some (fold pmm_free as p)"
  by (induction as arbitrary: p) (auto simp: pmm_free_req_def)

text \<open>The counter of free pages: page 0 may be free and is never handed out.\<close>

lemma free_pages_avail:
  assumes "pmm_inv p"
  shows "unat (pmm_get_free_pages p) = pmm_avail p + of_bool (0 \<in> free_set p)"
proof -
  have "card (free_set p - {0}) + of_bool (0 \<in> free_set p) = card (free_set p)"
    using card_filter_remove [of "free_set p" 0] by (cases "0 \<in> free_set p") simp_all
  then show ?thesis using assms by (simp add: pmm_inv_def pmm_get_free_pages_def pmm_avail_def)
qed

lemma pmm_alloc_zero:
  assumes "pmm_inv p" and "pmm_alloc p = (p', a)"
  shows "0 \<in> free_set p' \<longleftrightarrow> 0 \<in> free_set p"
  by (cases rule: pmm_alloc_cases [OF assms]) auto

lemma pmm_free_zero: "pmm_inv p \<Longrightarrow> 0 \<in> free_set (pmm_free a p) \<longleftrightarrow> 0 \<in> free_set p"
  using pmm_free_guarded [of p a] by (auto simp: unat_eq_0 split: if_splits)

lemma alloc_pages_zero:
  "pmm_inv p \<Longrightarrow> 0 \<in> free_set (fst (alloc_pages n p)) \<longleftrightarrow> 0 \<in> free_set p"
proof (induction n arbitrary: p)
  case (Suc n)
  obtain p1 a where a: "pmm_alloc p = (p1, a)" by force
  have "pmm_inv p1" using pages.alloc_inv [OF Suc.prems, of "()" p1 a] a by (simp add: pmm_alloc_req_def)
  then show ?case using Suc.IH [of p1] pmm_alloc_zero [OF Suc.prems a]
    by (auto simp: a Let_def split: prod.splits)
qed simp

lemma fold_free_zero:
  "pmm_inv p \<Longrightarrow> distinct as \<Longrightarrow> set as \<subseteq> pmm_live p \<Longrightarrow>
     0 \<in> free_set (fold pmm_free as p) \<longleftrightarrow> 0 \<in> free_set p"
proof (induction as arbitrary: p)
  case (Cons a as)
  have "pmm_inv (pmm_free a p)" "pmm_live (pmm_free a p) = pmm_live p - {a}"
    using pmm_live_give [OF Cons.prems(1), of a] Cons.prems(3) by auto
  then show ?case using Cons.IH [of "pmm_free a p"] Cons.prems pmm_free_zero [of p a] by auto
qed simp

text \<open>Pages taken, and given back in the order they were taken.\<close>

lemma pages_taken:
  assumes inv: "pmm_inv p" and n: "n \<le> pmm_avail p" and a: "alloc_pages n p = (p1, as)"
  shows "pmm_inv p1" "length as = n" "OUT_OF_MEMORY \<notin> set as" "distinct as"
    "set as \<inter> pmm_live p = {}" "pmm_live p1 = pmm_live p \<union> set as" "pmm_avail p1 = pmm_avail p - n"
    "unat (pmm_get_free_pages p1) = unat (pmm_get_free_pages p) - n"
proof -
  have m: "alloc_many pmm_alloc_req (replicate n ()) p = Some (p1, as)"
    by (simp add: alloc_pages_many a)
  note av = pages.alloc_many_avail [OF inv m]
  from pages.alloc_many_returns [OF inv, of "replicate n ()"] m show i: "pmm_inv p1" and "length as = n"
    by auto
  show o: "OUT_OF_MEMORY \<notin> set as" and v: "pmm_avail p1 = pmm_avail p - n" using av n by simp_all
  from pages.alloc_many_fresh [OF inv m o]
  show "distinct as" "set as \<inter> pmm_live p = {}" "pmm_live p1 = pmm_live p \<union> set as" by auto
  have "0 \<in> free_set p1 \<longleftrightarrow> 0 \<in> free_set p" using alloc_pages_zero [OF inv, of n] by (simp add: a)
  then show "unat (pmm_get_free_pages p1) = unat (pmm_get_free_pages p) - n"
    using free_pages_avail [OF inv] free_pages_avail [OF i] v n by simp
qed

lemma pages_given_back:
  assumes inv: "pmm_inv p" and n: "n \<le> pmm_avail p" and a: "alloc_pages n p = (p1, as)"
  shows "pmm_inv (fold pmm_free as p1)" "pmm_live (fold pmm_free as p1) = pmm_live p"
    "pmm_avail (fold pmm_free as p1) = pmm_avail p"
    "pmm_get_free_pages (fold pmm_free as p1) = pmm_get_free_pages p"
proof -
  note t = pages_taken [OF assms]
  have l: "set as \<subseteq> pmm_live p1" using t(6) by simp
  from pages.free_many_live [OF t(1,4) l] show fi: "pmm_inv (fold pmm_free as p1)"
    and "pmm_live (fold pmm_free as p1) = pmm_live p" using t(5,6) by (auto simp: free_pages_many)
  show fa: "pmm_avail (fold pmm_free as p1) = pmm_avail p"
    using pages.free_many_avail [OF t(1,4) l free_pages_many] t(2,7) n by simp
  have "0 \<in> free_set p1 \<longleftrightarrow> 0 \<in> free_set p" using alloc_pages_zero [OF inv, of n] by (simp add: a)
  then have "unat (pmm_get_free_pages (fold pmm_free as p1)) = unat (pmm_get_free_pages p)"
    using free_pages_avail [OF inv] free_pages_avail [OF fi] fa fold_free_zero [OF t(1,4) l] by simp
  then show "pmm_get_free_pages (fold pmm_free as p1) = pmm_get_free_pages p"
    by (simp add: word_unat_eq_iff)
qed

lemma double_free:
  assumes "pmm_inv p1" and "a \<in> pmm_live p1" and "pmm_inv p" and "a \<notin> pmm_live p"
  shows "pmm_free a p = p"
proof -
  from assms(2) obtain q where q: "a = q * PAGE_SIZE" "q < max_pages p1" "q \<noteq> 0" by (auto simp: pmm_live_def)
  have d: "a div PAGE_SIZE = q" using page_addr_of_less [OF assms(1) q(2)] q(1) by simp
  have "q < max_pages p \<Longrightarrow> unat q \<in> free_set p"
    using assms(4) q(1,3) by (fastforce simp: pmm_live_def)
  then show ?thesis using pmm_free_guarded [OF assms(3), of a] d
    by (auto simp: not_le word_less_nat_alt split: if_splits)
qed


text \<open>A machine of 32 pages, of which the lower 24 are free RAM but page 0.\<close>

definition wide_pmm :: pmm where
  "wide_pmm = \<lparr>bitmap = [0x01, 0x00, 0x00, 0xFF], max_pages = 32, total_pages = 24,
               free_pages = 23, pmm_bitmap_end = 0x20000\<rparr>"

lemma free_set_wide_pmm: "free_set wide_pmm = {1..<24}"
proof -
  have "filter (\<lambda>p. \<not> page_used wide_pmm p) [0..<unat (max_pages wide_pmm)] = [1..<24]"
    by code_simp
  then show ?thesis unfolding free_set_filter by simp
qed


end
