(* ===== verification/Shell.thy ===== *)
theory Shell
  imports Editor_App Stress_Test
begin

text \<open>
  The shell, \<^verbatim>\<open>src/src/kernel/shell/shell.c\<close>: its commands, the line being typed, the history of
  the last lines, and the loop over the keys.  The keys come as the list of the bytes that
  \<^verbatim>\<open>keyboard_read\<close> returns; \<^verbatim>\<open>/edit\<close> hands the keys that follow to the editor.  \<open>None\<close> stands
  for an operation that does not return or that C leaves undefined.
\<close>

abbreviation NL :: string where "NL \<equiv> [CHR 0x0A]"

definition sys_printf :: "string \<Rightarrow> kp_arg list \<Rightarrow> system \<Rightarrow> system option" where
  "sys_printf fmt args s = map_option (\<lambda>c. s\<lparr>con := c\<rparr>) (kprintf (bytes_of fmt) args (con s))"

section \<open>Strings\<close>

text \<open>
  Strings are the lists of their characters up to the terminator; the arrays of \<^verbatim>\<open>shell_execute\<close>
  have 64 bytes, cleared before.
\<close>

fun str_equal :: "u8 list \<Rightarrow> u8 list \<Rightarrow> bool" where
  "str_equal (x # a) (y # b) = (if x \<noteq> y then False else str_equal a b)"
| "str_equal [] [] = True"
| "str_equal _ _ = False"

text \<open>
  The loop of \<^verbatim>\<open>str_split\<close>: \<open>w\<close> is the number of the word the loop is in, \<open>buf\<close> holds the
  \<^verbatim>\<open>j\<close> characters stored so far.
\<close>

fun split_from :: "nat \<Rightarrow> nat \<Rightarrow> u8 list \<Rightarrow> u8 list \<Rightarrow> u8 list" where
  "split_from w i [] buf = buf"
| "split_from w i (c # xs) buf =
     (if c = 0x20 then (if w = i then buf else split_from (w + 1) i xs [])
      else split_from w i xs (if w = i \<and> length buf < 63 then buf @ [c] else buf))"

definition str_split :: "u8 list \<Rightarrow> nat \<Rightarrow> u8 list" where
  "str_split inp i = split_from 0 i inp []"

text \<open>\<^verbatim>\<open>ans\<close> is a byte.\<close>

definition str_to_int :: "u8 list \<Rightarrow> u8" where
  "str_to_int str = fold (\<lambda>c ans. ans * 10 + (c - 0x30)) str 0"

section \<open>The commands\<close>

definition command_names :: "string list" where
  "command_names = [''help'', ''clear'', ''mem'', ''ps'', ''reboot'', ''taskkill'', ''ls'', ''create'',
     ''test'', ''mkdir'', ''cd'', ''editor_help'', ''rm'', ''mv'', ''stress_test'', ''cat'']"

fun print_names :: "string list \<Rightarrow> system \<Rightarrow> system option" where
  "print_names [] s = Some s"
| "print_names (n # ns) s = sys_printf (''Command %s'' @ NL) [KStr (bytes_of n)] s \<bind> print_names ns"

definition cmd_help :: "system \<Rightarrow> system option" where
  "cmd_help s = sys_printf (''Commands:'' @ NL) [] s \<bind> print_names command_names"

definition cmd_clear :: "system \<Rightarrow> system option" where
  "cmd_clear s = Some (on_con console_clear s)"

definition cmd_mem :: "system \<Rightarrow> system option" where
  "cmd_mem s =
     (let free_mb = pmm_get_free_pages (kpmm (krn s)) div 256;
          total_mb = pmm_get_total_pages (kpmm (krn s)) div 256
      in sys_printf (''Free: %u'' @ NL) [KNum free_mb] s \<bind> sys_printf (''Total: %u'' @ NL) [KNum total_mb])"

definition state_name :: "ProcessState \<Rightarrow> string" where
  "state_name st = (case st of NEW \<Rightarrow> ''NEW'' | READY \<Rightarrow> ''READY'' | RUNNING \<Rightarrow> ''RUNNING''
     | BLOCKED \<Rightarrow> ''BLOCKED'' | ZOMBIE \<Rightarrow> ''ZOMBIE'')"

text \<open>One row of \<^verbatim>\<open>ps\<close>, and its loop around the ring.\<close>

definition ps_row :: "PCB \<Rightarrow> system \<Rightarrow> system option" where
  "ps_row p = sys_printf (''%d  %s          %s'' @ NL)
     [KNum (ucast (pid p)), KStr (cstring (p_name p)), KStr (bytes_of (state_name (p_state p)))]"

partial_function (option) ps_from :: "u64 \<Rightarrow> u64 \<Rightarrow> system \<Rightarrow> system option" where
  "ps_from first cur s =
     (case ps_row (pcbs (krn s) cur) s of None \<Rightarrow> None
      | Some t \<Rightarrow>
          let cur = p_next (pcbs (krn s) cur)
          in if cur \<noteq> first then ps_from first cur t else Some t)"

definition cmd_ps :: "system \<Rightarrow> system option" where
  "cmd_ps s =
     (let first = scheduler_get_head (krn s)
      in if first = 0 then sys_printf (''No procces'' @ NL) [] s
         else sys_printf (''PID  Name          State'' @ NL) [] s \<bind> ps_from first first)"

definition cmd_reboot :: "system \<Rightarrow> system option" where
  "cmd_reboot s = Some (s\<lparr>port_log := port_log s @ [(0x64, 0xFE)]\<rparr>)"

definition cmd_stopProcess :: "u8 list \<Rightarrow> system \<Rightarrow> system option" where
  "cmd_stopProcess arg = on_krn (schedular_remove (ucast (str_to_int arg)))"

definition cmd_dir :: "system \<Rightarrow> system option" where
  "cmd_dir = on_fs fat_list_dir"

definition cmd_create_file :: "u8 list \<Rightarrow> u8 list \<Rightarrow> system \<Rightarrow> system option" where
  "cmd_create_file arg arg2 s =
     (if arg = [] \<or> arg2 = []
      then sys_printf (''Usage: create <name> <ext>'' @ NL) [] s
             \<bind> sys_printf (''Example: create hello txt'' @ NL) []
      else on_fs (fat_write_file (c_array 64 arg) (c_array 64 arg2)) s)"

definition cmd_test :: "system \<Rightarrow> system option" where
  "cmd_test = sys_printf ''Does nothing'' []"

text \<open>
  Copying a string into an array from place \<open>i\<close> on.  There is no test of the room: \<open>None\<close> where
  bytes behind the array are written.
\<close>

fun copy_from :: "nat \<Rightarrow> u8 list \<Rightarrow> u8 list \<Rightarrow> u8 list option" where
  "copy_from i [] dst = (if i < length dst then Some (dst[i := 0]) else None)"
| "copy_from i (c # src) dst = (if i < length dst then copy_from (i + 1) src (dst[i := c]) else None)"

definition str_copy :: "u8 list \<Rightarrow> u8 list \<Rightarrow> u8 list option" where
  "str_copy src dst = copy_from 0 src dst"

text \<open>What the array of 16 bytes held before is behind the terminator and not looked at.\<close>

definition cmd_mkdir :: "u8 list \<Rightarrow> system \<Rightarrow> system option" where
  "cmd_mkdir arg s =
     (case str_copy (if arg = [] then bytes_of ''default'' else arg) (replicate 16 0) of None \<Rightarrow> None
      | Some name \<Rightarrow> on_fs (fat_create_dir name) s)"

definition cmd_cd :: "u8 list \<Rightarrow> system \<Rightarrow> system option" where
  "cmd_cd arg s =
     (if arg = [] then on_fs (Some \<circ> fat_cd_root) s
      else if take 2 arg = bytes_of ''..'' then on_fs (Some \<circ> fat_cd_back) s
      else on_fs (fat_open_dir (c_array 64 arg)) s)"

definition cmd_remove_file :: "u8 list \<Rightarrow> system \<Rightarrow> system option" where
  "cmd_remove_file arg s =
     (if arg = [] then sys_printf ''Usage: rm <fileName>'' [] s else on_fs (fat_delete_file (c_array 64 arg)) s)"

definition cmd_rename_file :: "u8 list \<Rightarrow> u8 list \<Rightarrow> system \<Rightarrow> system option" where
  "cmd_rename_file arg arg2 = on_fs (fat_rename_file (c_array 64 arg) (c_array 64 arg2))"

definition cmd_editor_help :: "system \<Rightarrow> system option" where
  "cmd_editor_help s =
     sys_printf ''Editor functions: '' [] s \<bind> sys_printf ''Strg + z back'' []
       \<bind> sys_printf ''Strg + y forwards'' [] \<bind> sys_printf ''Strg + c to copy'' []
       \<bind> sys_printf ''Strg + v to paste'' [] \<bind> sys_printf ''Strg + f to equal words'' []"

definition cmd_memmory_test :: "system \<Rightarrow> system option" where
  "cmd_memmory_test s = heap_stress_test (pmm_stress_test s)"

fun print_chars :: "u8 list \<Rightarrow> system \<Rightarrow> system option" where
  "print_chars [] s = Some s"
| "print_chars (c # xs) s = sys_printf ''%c'' [KNum (ucast c)] s \<bind> print_chars xs"

text \<open>
  The buffer has \<^verbatim>\<open>EDITOR_MAX_LINES * EDITOR_LINE_LEN\<close> bytes; neither its allocation nor the size
  of the file is checked.  \<open>None\<close> where bytes are written to the null pointer or behind the buffer,
  or bytes that were never written are printed.
\<close>

definition cmd_cat :: "u8 list \<Rightarrow> system \<Rightarrow> system option" where
  "cmd_cat arg s =
     (if arg = [] then sys_printf (''Usage: cat dateiname'' @ NL) [] s
      else
       do { (s, buf) \<leftarrow> sys_kmalloc 15600 s;
            (f, sz, data) \<leftarrow> fat_read_file (c_array 64 arg) (fs s);
            (if data \<noteq> [] \<and> buf = 0 \<or> length data > 15600 \<or> unat sz > length data then None
             else
              do { s \<leftarrow> (if sz = 0 then sys_printf (''Datei leer oder nicht gefunden'' @ NL) [] (put_fs f s)
                         else print_chars (take (unat sz) data) (put_fs f s) \<bind> sys_printf NL []);
                   sys_kfree buf s }) })"

definition commands :: "(string \<times> (u8 list \<Rightarrow> u8 list \<Rightarrow> system \<Rightarrow> system option)) list" where
  "commands = zip command_names
     [\<lambda>_ _. cmd_help, \<lambda>_ _. cmd_clear, \<lambda>_ _. cmd_mem, \<lambda>_ _. cmd_ps, \<lambda>_ _. cmd_reboot,
      \<lambda>arg _. cmd_stopProcess arg, \<lambda>_ _. cmd_dir, cmd_create_file, \<lambda>_ _. cmd_test,
      \<lambda>arg _. cmd_mkdir arg, \<lambda>arg _. cmd_cd arg, \<lambda>_ _. cmd_editor_help, \<lambda>arg _. cmd_remove_file arg,
      cmd_rename_file, \<lambda>_ _. cmd_memmory_test, \<lambda>arg _. cmd_cat arg]"

definition shell_execute_slash :: "u8 list \<Rightarrow> u8 list \<Rightarrow> u8 list \<Rightarrow> system \<Rightarrow> (system \<times> u8 list) option" where
  "shell_execute_slash cmd arg keys s =
     (if arg = [] then Some (s, keys)
      else if str_equal cmd (bytes_of ''/edit'') then fat_edit_file arg keys s
      else map_option (\<lambda>s. (s, keys)) (sys_printf (''Unkown command: %s'' @ NL) [KStr cmd] s))"

definition shell_execute :: "u8 list \<Rightarrow> u8 list \<Rightarrow> system \<Rightarrow> (system \<times> u8 list) option" where
  "shell_execute inp keys s =
     (let cmd = str_split inp 0; arg = str_split inp 1; arg2 = str_split inp 2
      in if cmd \<noteq> [] \<and> hd cmd = 0x2F then shell_execute_slash cmd arg keys s
         else map_option (\<lambda>s. (s, keys))
          (case find (\<lambda>(n, f). str_equal cmd (bytes_of n)) commands of
             Some (n, f) \<Rightarrow> f arg arg2 s
           | None \<Rightarrow> sys_printf (''Unknown command: %s'' @ NL) [KStr cmd] s))"

section \<open>Words of a line\<close>

text \<open>The pieces between single spaces; two spaces in a row enclose an empty one.\<close>

fun pieces :: "u8 list \<Rightarrow> u8 list list" where
  "pieces [] = [[]]"
| "pieces (c # xs) =
     (if c = 0x20 then [] # pieces xs else (c # List.hd (pieces xs)) # tl (pieces xs))"

lemma pieces_not_Nil [simp]: "pieces xs \<noteq> []"
  by (cases xs) auto

lemma split_from_here: "length buf \<le> 63 \<Longrightarrow> split_from i i xs buf = take 63 (buf @ hd (pieces xs))"
  by (induction xs arbitrary: buf) (auto simp: take_Cons')

lemma split_from_later:
  "w < i \<Longrightarrow> split_from w i xs [] = (if i - w < length (pieces xs) then take 63 (pieces xs ! (i - w)) else [])"
proof (induction xs arbitrary: w)
  case (Cons c xs)
  show ?case
  proof (cases "c = 0x20")
    case True
    show ?thesis
    proof (cases "w + 1 = i")
      case eq: True
      then have "split_from w i (c # xs) [] = take 63 (hd (pieces xs))"
        using True Cons.prems split_from_here [of "[]" i xs] by simp
      moreover have "i - w = 1" using eq by simp
      ultimately show ?thesis using True by (simp add: hd_conv_nth)
    next
      case False
      then have "w + 1 < i" "i - w = Suc (i - (w + 1))" using Cons.prems by simp_all
      then show ?thesis using Cons.IH [of "w + 1"] True by simp
    qed
  next
    case False
    then show ?thesis using Cons by (cases "pieces xs") (simp_all add: nth_Cons')
  qed
qed simp

text \<open>
  \<^verbatim>\<open>str_split\<close> gives the piece of that number, cut to the 63 characters its caller has room
  for, or nothing.
\<close>

theorem str_split_pieces:
  "str_split xs i = (if i < length (pieces xs) then take 63 (pieces xs ! i) else [])"
  using split_from_here [of "[]" 0 xs] split_from_later [of 0 i xs]
  by (cases "i = 0") (simp_all add: str_split_def hd_conv_nth)

section \<open>Numbers\<close>

lemma str_to_int_snoc: "str_to_int (xs @ [c]) = str_to_int xs * 10 + (c - 0x30)"
  by (simp add: str_to_int_def)

lemma str_to_int_read:
  "list_all (\<lambda>c. 0x30 \<le> c \<and> c \<le> 0x39) xs \<Longrightarrow> str_to_int xs = of_nat (read_num 10 xs)"
proof (induction xs rule: rev_induct)
  case (snoc c xs)
  have "c < 0x41" using snoc.prems by (auto simp: word_less_nat_alt word_le_nat_alt)
  then show ?case using snoc by (simp add: str_to_int_snoc read_num_def char_digit_def)
qed (simp add: str_to_int_def read_num_def)

lemma ucast_of_nat: "ucast (of_nat n :: u8) = (of_nat (n mod 256) :: u32)"
proof -
  have "n mod 256 < 2 ^ LENGTH(32)" by (rule less_trans [of _ 256]) simp_all
  then have "unat (of_nat (n mod 256) :: u32) = n mod 256" by (rule unat_of_nat_fits)
  then show ?thesis by (simp add: word_unat_eq_iff unat_ucast_up unat_of_nat)
qed

text \<open>
  \<^verbatim>\<open>taskkill\<close> looks for the process with the typed number modulo 256.
\<close>

theorem taskkill_wraps:
  assumes "list_all (\<lambda>c. 0x30 \<le> c \<and> c \<le> 0x39) arg"
  shows "cmd_stopProcess arg s = on_krn (schedular_remove (of_nat (read_num 10 arg mod 256))) s"
  using str_to_int_read [OF assms] by (simp add: cmd_stopProcess_def ucast_of_nat)

lemma taskkill_wraps_witness:
  "cmd_stopProcess (bytes_of ''258'') idle_system = on_krn (schedular_remove 2) idle_system"
  using taskkill_wraps [of "bytes_of ''258''" idle_system]
  by (simp add: bytes_of_def read_num_def char_digit_def of_char_def)

section \<open>The list of processes\<close>

lemma on_con_simps [simp]:
  "con (on_con f s) = f (con s)" "krn (on_con f s) = krn s" "fs (on_con f s) = fs s"
  by (simp_all add: on_con_def)

lemma sys_printf_text:
  "sys_printf fmt args s = map_option (\<lambda>t. on_con (console_print t) s) (format_text (bytes_of fmt) args)"
  by (simp add: sys_printf_def on_con_def kprintf_text option.map_comp comp_def)

lemma print_twice [simp]:
  "on_con (console_print t') (on_con (console_print t) s) = on_con (console_print (t @ t')) s"
  by (simp add: on_con_def console_print_simps)

text \<open>The text of a row: number, name and state.\<close>

definition ps_text :: "PCB \<Rightarrow> u8 list" where
  "ps_text p = zahl_text (pid p) @ bytes_of ''  '' @ cstring (p_name p) @ bytes_of ''          ''
     @ bytes_of (state_name (p_state p)) @ [10]"

lemma ucast_back: "ucast (ucast (x :: u32) :: u64) = x"
  by (rule bit_word_eqI) (simp add: bit_simps)

lemma ps_row_text: "ps_row p s = Some (on_con (console_print (ps_text p)) s)"
  by (simp add: ps_row_def sys_printf_text ps_text_def bytes_of_def of_char_def conversion_def ucast_back)

lemma ps_from_ring:
  "chain (pcbs (krn s)) cur qs first \<Longrightarrow> qs \<noteq> [] \<Longrightarrow> first \<notin> set (tl qs) \<Longrightarrow>
     ps_from first cur s = Some (on_con (console_print (concat (map (\<lambda>q. ps_text (pcbs (krn s) q)) qs))) s)"
proof (induction qs arbitrary: cur s)
  case (Cons q qs)
  let ?t = "on_con (console_print (ps_text (pcbs (krn s) q))) s"
  have c: "cur = q" "chain (pcbs (krn s)) (p_next (pcbs (krn s) q)) qs first" using Cons.prems(1) by simp_all
  show ?case
  proof (cases qs)
    case Nil
    then show ?thesis using c by (subst ps_from.simps) (simp add: ps_row_text)
  next
    case (Cons r rs)
    then have "p_next (pcbs (krn s) q) \<noteq> first" using c(2) Cons.prems(3) by auto
    then show ?thesis
      using c Cons.IH [of ?t "p_next (pcbs (krn s) q)"] Cons Cons.prems(3)
      by (subst ps_from.simps) (auto simp: ps_row_text Let_def)
  qed
qed simp

text \<open>
  \<^verbatim>\<open>ps\<close> prints a heading and then each process of the ring once, from the head on, and
  changes nothing but the console.
\<close>

theorem ps_lists_ring:
  assumes "chain (pcbs (krn s)) (head (krn s)) qs (head (krn s))" and "qs \<noteq> []" and "distinct qs" and "0 \<notin> set qs"
  shows "cmd_ps s = Some (on_con (console_print (bytes_of ''PID  Name          State'' @ [10]
    @ concat (map (\<lambda>q. ps_text (pcbs (krn s) q)) qs))) s)"
proof -
  let ?h = "head (krn s)"
  let ?s = "on_con (console_print (bytes_of ''PID  Name          State'' @ [10])) s"
  obtain r rs where q: "qs = r # rs" "r = ?h" using assms(1,2) by (cases qs) auto
  then have "ps_from ?h ?h ?s = Some (on_con (console_print (concat (map (\<lambda>q. ps_text (pcbs (krn s) q)) qs))) ?s)"
    using ps_from_ring [of ?s ?h qs ?h] assms by simp
  moreover have "sys_printf (''PID  Name          State'' @ NL) [] s = Some ?s"
    by (simp add: sys_printf_text bytes_of_def of_char_def)
  ultimately show ?thesis using assms(4) q by (simp add: cmd_ps_def scheduler_get_head_def)
qed

definition ring_system :: system where
  "ring_system = idle_system\<lparr>krn := ring_kern\<rparr>"

lemma ps_lists_ring_witness:
  "\<exists>t. cmd_ps ring_system = Some (on_con (console_print t) ring_system)"
proof -
  have "chain (pcbs (krn ring_system)) (head (krn ring_system)) [0x1000, 0x2000, 0x3000] (head (krn ring_system))"
    by (simp add: ring_system_def ring_kern_def ring_pcb_def)
  from ps_lists_ring [OF this] show ?thesis by auto
qed

text \<open>A copy is the string, its terminator and what was behind; without room for both it overruns.\<close>

lemma copy_from_spec:
  "i \<le> length dst \<Longrightarrow> copy_from i src dst =
     (if i + length src < length dst
      then Some (take i dst @ src @ 0 # drop (Suc (i + length src)) dst) else None)"
proof (induction src arbitrary: i dst)
  case Nil
  then show ?case by (auto simp: upd_conv_take_nth_drop)
next
  case (Cons c src)
  show ?case
  proof (cases "i < length dst")
    case True
    then have "take (Suc i) (dst[i := c]) = take i dst @ [c]" by (simp add: take_Suc_conv_app_nth)
    then show ?thesis using True Cons.IH [of "i + 1" "dst[i := c]"] by (auto simp: drop_update_cancel)
  qed (use Cons.prems in auto)
qed

lemma str_copy_spec:
  "str_copy src dst =
     (if length src < length dst then Some (src @ 0 # drop (Suc (length src)) dst) else None)"
  by (simp add: str_copy_def copy_from_spec)

text \<open>A name of 16 characters or more overruns the array of \<^verbatim>\<open>cmd_mkdir\<close>.\<close>

lemma mkdir_overrun: "16 \<le> length arg \<Longrightarrow> cmd_mkdir arg s = None"
  by (auto simp: cmd_mkdir_def str_copy_spec)

end
