(* ===== verification/Shell_Line.thy ===== *)
theory Shell_Line
  imports Shell
begin

text \<open>
  The input line of the shell, \<^verbatim>\<open>shell_run\<close> in \<^verbatim>\<open>src/src/kernel/shell/shell.c\<close>: editing, the
  history, and the loop over the keys.  The line is a text buffer, and the shell executes the line
  that was typed.
\<close>

definition MAX_INPUT :: int where "MAX_INPUT = 10000"
abbreviation HISTORY_SIZE :: int where "HISTORY_SIZE \<equiv> 20"

section \<open>State\<close>

text \<open>
  The variables of \<^verbatim>\<open>shell_run\<close> and the statics of the history.  \<^verbatim>\<open>input\<close> is not initialised:
  what it holds at the start is arbitrary.
\<close>

record shell =
  inp :: cells
  pos :: int
  cur :: int
  history :: "int \<Rightarrow> cells"
  history_count :: int
  history_pos :: int
  prompt_col :: int
  prompt_row :: int
  sys :: system

definition on_screen :: "(console \<Rightarrow> console) \<Rightarrow> shell \<Rightarrow> shell" where
  "on_screen f t = t\<lparr>sys := on_con f (sys t)\<rparr>"

text \<open>Prints \<^verbatim>\<open>input[i]\<close> for \<open>a \<le> i < b\<close>.\<close>

definition echo :: "int \<Rightarrow> int \<Rightarrow> shell \<Rightarrow> shell" where
  "echo a b t = on_screen (fold (\<lambda>i. console_putchar (inp t i)) [a..b - 1]) t"

definition goto_prompt :: "int \<Rightarrow> shell \<Rightarrow> shell" where
  "goto_prompt i t = on_screen (console_set_pos (prompt_col t + i) (prompt_row t)) t"

definition prompt :: "shell \<Rightarrow> shell option" where
  "prompt t =
     (case sys_printf ''livly%s> '' [KStr (cstring (fat_get_cwdpath (fs (sys t))))] (sys t) of None \<Rightarrow> None
      | Some s \<Rightarrow> Some (t\<lparr>sys := s, prompt_col := console_get_col (con s),
                         prompt_row := console_get_row (con s)\<rparr>))"

section \<open>Editing the line\<close>

definition key_char :: "u8 \<Rightarrow> shell \<Rightarrow> shell" where
  "key_char c t =
     (if pos t < MAX_INPUT - 1 then
        let t = t\<lparr>inp := fold (\<lambda>i b. b(i := b (i - 1))) (rev [cur t + 1..pos t]) (inp t)\<rparr>;
            t = t\<lparr>inp := (inp t)(cur t := c)\<rparr>;
            t = t\<lparr>pos := pos t + 1, cur := cur t + 1\<rparr>;
            t = goto_prompt (cur t - 1) t;
            t = echo (cur t - 1) (pos t) t
        in goto_prompt (cur t) t
      else t)"

definition key_backspace :: "shell \<Rightarrow> shell" where
  "key_backspace t =
     (if cur t > 0 then
        let t = t\<lparr>inp := fold (\<lambda>i b. b(i := b (i + 1))) [cur t - 1..pos t - 2] (inp t)\<rparr>;
            t = t\<lparr>pos := pos t - 1, cur := cur t - 1\<rparr>;
            t = t\<lparr>inp := (inp t)(pos t := 0)\<rparr>;
            t = goto_prompt 0 t;
            t = echo 0 (pos t) t;
            t = on_screen (console_putchar 0x20) t
        in goto_prompt (cur t) t
      else t)"

definition key_left :: "shell \<Rightarrow> shell" where
  "key_left t = (if cur t > 0 then let t = t\<lparr>cur := cur t - 1\<rparr> in goto_prompt (cur t) t else t)"

definition key_right :: "shell \<Rightarrow> shell" where
  "key_right t = (if cur t < pos t then let t = t\<lparr>cur := cur t + 1\<rparr> in goto_prompt (cur t) t else t)"

section \<open>History\<close>

text \<open>The line at \<open>history_pos\<close>; the scan for its end would leave the array if it had none.\<close>

definition recall :: "shell \<Rightarrow> shell option" where
  "recall t =
     (let t = t\<lparr>inp := copy_cells (history t (history_pos t mod HISTORY_SIZE)) (MAX_INPUT - 1) (inp t)\<rparr>
      in case find (\<lambda>i. inp t i = 0) [0..MAX_INPUT - 1] of None \<Rightarrow> None
         | Some n \<Rightarrow> Some (t\<lparr>pos := n, cur := n\<rparr>))"

definition show_line :: "shell \<Rightarrow> shell" where
  "show_line t =
     (let t = goto_prompt 0 t;
          t = echo 0 (pos t) t;
          t = on_screen (fold (\<lambda>i. console_putchar 0x20) [pos t..59]) t
      in goto_prompt (cur t) t)"

definition key_up :: "shell \<Rightarrow> shell option" where
  "key_up t =
     (if history_pos t > 0 \<and> history_pos t > history_count t - HISTORY_SIZE
      then map_option show_line (recall (t\<lparr>history_pos := history_pos t - 1\<rparr>))
      else Some t)"

definition key_down :: "shell \<Rightarrow> shell option" where
  "key_down t =
     (if history_pos t < history_count t then
        let t = t\<lparr>history_pos := history_pos t + 1\<rparr>
        in map_option show_line
             (if history_pos t = history_count t
              then Some (t\<lparr>inp := copy_cells (\<lambda>_. 0) (MAX_INPUT - 1) (inp t), pos := 0, cur := 0\<rparr>)
              else recall t)
      else Some t)"

definition remember :: "shell \<Rightarrow> shell" where
  "remember t =
     (if pos t > 0 then
        let slot = history_count t mod HISTORY_SIZE;
            t = t\<lparr>history := (history t)(slot := copy_cells (inp t) (MAX_INPUT - 1) (history t slot))\<rparr>;
            t = t\<lparr>history_count := history_count t + 1\<rparr>
        in t\<lparr>history_pos := history_count t\<rparr>
      else t)"

section \<open>The loop\<close>

text \<open>The C string in the array.\<close>

definition c_line :: "cells \<Rightarrow> u8 list" where
  "c_line b = takeWhile (\<lambda>c. c \<noteq> 0) (map b [0..MAX_INPUT - 1])"

definition key_enter :: "u8 list \<Rightarrow> shell \<Rightarrow> (shell \<times> u8 list) option" where
  "key_enter keys t =
     (let t = t\<lparr>inp := (inp t)(pos t := 0)\<rparr>;
          t = on_screen (console_putchar 10) (remember t)
      in case shell_execute (c_line (inp t)) keys (sys t) of None \<Rightarrow> None
         | Some (s, keys) \<Rightarrow>
            map_option (\<lambda>t. (t, keys)) (prompt (t\<lparr>pos := 0, cur := 0, sys := s\<rparr>)))"

definition line_key :: "u8 \<Rightarrow> shell \<Rightarrow> shell option" where
  "line_key c t =
     (if c = KEY_UP then key_up t
      else if c = KEY_DOWN then key_down t
      else if c = KEY_LEFT then Some (key_left t)
      else if c = KEY_RIGHT then Some (key_right t)
      else if c = 8 then Some (key_backspace t)
      else if c \<ge> 0x20 \<and> c < 0x80 then Some (key_char c t)
      else Some t)"

definition shell_key :: "u8 \<Rightarrow> u8 list \<Rightarrow> shell \<Rightarrow> (shell \<times> u8 list) option" where
  "shell_key c keys t =
     (if c = 10 then key_enter keys t else map_option (\<lambda>t. (t, keys)) (line_key c t))"

text \<open>Every key is consumed; an editor session consumes more of them.\<close>

lemma edit_loop_rest: "edit_loop keys s = Some (t, rest) \<Longrightarrow> length rest \<le> length keys"
  by (induction keys s rule: edit_loop.induct) (auto split: if_splits option.splits)

lemma fat_edit_file_rest: "fat_edit_file name keys s = Some (t, rest) \<Longrightarrow> length rest \<le> length keys"
  by (auto simp: fat_edit_file_def Let_def dest!: edit_loop_rest split: if_splits option.splits)

lemma shell_execute_rest: "shell_execute l keys s = Some (t, rest) \<Longrightarrow> length rest \<le> length keys"
  by (auto simp: shell_execute_def shell_execute_slash_def Let_def dest: fat_edit_file_rest
      split: if_splits option.splits)

lemma shell_key_rest: "shell_key c keys t = Some (u, rest) \<Longrightarrow> length rest \<le> length keys"
  by (auto simp: shell_key_def key_enter_def Let_def dest: shell_execute_rest split: if_splits option.splits)

text \<open>The program waits for a key when there is none.\<close>

function shell_loop :: "u8 list \<Rightarrow> shell \<Rightarrow> shell option" where
  "shell_loop [] t = Some t"
| "shell_loop (c # keys) t =
     (case shell_key c keys t of None \<Rightarrow> None | Some (t, rest) \<Rightarrow> shell_loop rest t)"
  by pat_completeness auto
termination
  by (relation "measure (length \<circ> fst)") (auto dest: shell_key_rest)

definition shell_run :: "u8 list \<Rightarrow> shell \<Rightarrow> shell option" where
  "shell_run keys t =
     (case prompt (t\<lparr>pos := 0, cur := 0\<rparr>) of None \<Rightarrow> None | Some t \<Rightarrow> shell_loop keys t)"

definition shell_init :: "u8 list \<Rightarrow> shell \<Rightarrow> shell option" where
  "shell_init keys t =
     (case sys_printf (''Livly Shell'' @ NL) [] (on_con console_clear (sys t))
            \<bind> sys_printf (''Type '' @ [CHR 0x27] @ ''help'' @ [CHR 0x27] @ '' for commands'' @ NL @ NL) [] of
        None \<Rightarrow> None
      | Some s \<Rightarrow> shell_run keys (t\<lparr>sys := s\<rparr>))"

section \<open>The line as a text buffer\<close>

lemma shell_screen_fields [simp]:
  "inp (on_screen f t) = inp t" "pos (on_screen f t) = pos t" "cur (on_screen f t) = cur t"
  "history (on_screen f t) = history t" "history_count (on_screen f t) = history_count t"
  "history_pos (on_screen f t) = history_pos t" "sys (on_screen f t) = on_con f (sys t)"
  "prompt_col (on_screen f t) = prompt_col t" "prompt_row (on_screen f t) = prompt_row t"
  by (simp_all add: on_screen_def)

lemmas drawing = goto_prompt_def echo_def show_line_def Let_def

definition line_before :: "shell \<Rightarrow> u8 list" where
  "line_before t = map (inp t) [0..cur t - 1]"

definition line_after :: "shell \<Rightarrow> u8 list" where
  "line_after t = map (inp t) [cur t..pos t - 1]"

definition line_text :: "shell \<Rightarrow> u8 list" where
  "line_text t = map (inp t) [0..pos t - 1]"

definition line_ok :: "shell \<Rightarrow> bool" where
  "line_ok t \<longleftrightarrow> 0 \<le> cur t \<and> cur t \<le> pos t \<and> pos t < MAX_INPUT"

definition line_fits :: "u8 \<Rightarrow> shell \<Rightarrow> bool" where
  "line_fits c t \<longleftrightarrow> pos t < MAX_INPUT - 1"

lemma line_text_parts:
  assumes "line_ok t"
  shows "line_text t = line_before t @ line_after t"
proof (cases "cur t = pos t")
  case False
  then have "[0..pos t - 1] = [0..cur t - 1] @ [cur t..pos t - 1]"
    using assms by (intro upto_split1) (auto simp: line_ok_def)
  then show ?thesis by (simp only: line_text_def line_before_def line_after_def map_append)
qed (simp add: line_text_def line_before_def line_after_def)

lemma shift_up:
  "fold (\<lambda>i b. b(i := b (i - 1))) (rev [a..n]) f j = (if a \<le> j \<and> j \<le> n then f (j - 1) else f j)"
  for f :: cells
proof (induction "nat (n + 1 - a)" arbitrary: n f)
  case (Suc k)
  then have "rev [a..n] = n # rev [a..n - 1]" "k = nat (n - 1 + 1 - a)" by (simp_all add: upto_rec2)
  with Suc.hyps(1) [of "n - 1"] Suc.hyps(2) show ?case by auto
qed auto

lemma shift_down:
  "fold (\<lambda>i b. b(i := b (i + 1))) [a..n] f j = (if a \<le> j \<and> j \<le> n then f (j + 1) else f j)"
  for f :: cells
proof (induction "nat (n + 1 - a)" arbitrary: a f)
  case (Suc k)
  then have "[a..n] = a # [a + 1..n]" "k = nat (n + 1 - (a + 1))" by (simp_all add: upto_rec1)
  with Suc.hyps(1) [of "a + 1"] Suc.hyps(2) show ?case by auto
qed auto

lemma map_upto_shift: "(\<And>i. a \<le> i \<Longrightarrow> i \<le> b \<Longrightarrow> f i = g (i + d)) \<Longrightarrow> map f [a..b] = map g [a + d..b + d]"
  by (rule nth_equalityI) (auto simp: nth_upto algebra_simps)

lemma key_char_fields:
  assumes "line_fits c t"
  shows "pos (key_char c t) = pos t + 1" "cur (key_char c t) = cur t + 1"
    "inp (key_char c t) j = (if j = cur t then c else if cur t < j \<and> j \<le> pos t then inp t (j - 1) else inp t j)"
  using assms by (auto simp: key_char_def line_fits_def drawing shift_up)

lemma key_char_full: "\<not> line_fits c t \<Longrightarrow> key_char c t = t"
  by (simp add: key_char_def line_fits_def)

lemma key_backspace_fields:
  assumes "0 < cur t"
  shows "pos (key_backspace t) = pos t - 1" "cur (key_backspace t) = cur t - 1"
    "inp (key_backspace t) j
      = (if j = pos t - 1 then 0 else if cur t - 1 \<le> j \<and> j \<le> pos t - 2 then inp t (j + 1) else inp t j)"
  using assms by (auto simp: key_backspace_def drawing shift_down)

interpretation line: text_buffer line_before line_after line_ok line_fits key_char "\<lambda>_. True" key_backspace
proof unfold_locales
  show "line_ok (key_char c t)" if "line_ok t" for c t
    using that key_char_fields(1,2) [of c t] key_char_full [of c t]
    by (cases "line_fits c t") (simp_all add: line_ok_def line_fits_def)
  show "line_before (key_char c t) = line_before t @ [c] \<and> line_after (key_char c t) = line_after t"
    if "line_ok t" "line_fits c t" for c t
    using that map_upto_shift [of "cur t" "pos t - 1" "inp t" "inp (key_char c t)" 1]
    by (auto simp: line_before_def line_after_def key_char_fields line_ok_def upto_rec2)
  show "line_ok (key_backspace t)" if "line_ok t" for t
    using that key_backspace_fields(1,2) [of t]
    by (cases "0 < cur t") (auto simp: line_ok_def key_backspace_def)
  show "line_before (key_backspace t) = butlast (line_before t) \<and> line_after (key_backspace t) = line_after t"
    if "line_ok t" "line_before t \<noteq> []" for t
  proof -
    have c: "0 < cur t" "cur t \<le> pos t" using that by (auto simp: line_before_def line_ok_def)
    have u: "[0..cur t - 1] = [0..cur t - 2] @ [cur t - 1]" using c by (simp add: upto_rec2)
    show ?thesis
      using c map_upto_shift [of "cur t - 1" "pos t - 2" "inp (key_backspace t)" "inp t" 1]
      by (auto simp: line_before_def line_after_def key_backspace_fields u algebra_simps)
  qed
qed

section \<open>Strings in the arrays\<close>

lemma max_input [simp]: "0 < MAX_INPUT" by (simp add: MAX_INPUT_def)

text \<open>An array holds a string when it has a terminator.\<close>

definition has_end :: "cells \<Rightarrow> bool" where
  "has_end b \<longleftrightarrow> (\<exists>n. 0 \<le> n \<and> n < MAX_INPUT \<and> b n = 0)"

lemma find_upto_first:
  assumes "0 \<le> n" and "n < m" and "b n = 0" and "\<And>i. 0 \<le> i \<Longrightarrow> i < n \<Longrightarrow> b i \<noteq> 0"
  shows "find (\<lambda>i. b i = (0::u8)) [0..m - 1] = Some n \<and> takeWhile (\<lambda>c. c \<noteq> 0) (map b [0..m - 1]) = map b [0..n - 1]"
proof -
  have "[0..m - 1] = [0..n - 1] @ [n..m - 1]" using assms(1,2) by (intro upto_split1) auto
  moreover have "[n..m - 1] = n # [n + 1..m - 1]" using assms(2) by (simp add: upto_rec1)
  ultimately have u: "[0..m - 1] = [0..n - 1] @ n # [n + 1..m - 1]" by simp
  have nz: "\<forall>i\<in>set [0..n - 1]. b i \<noteq> 0" using assms(4) by auto
  then have "find (\<lambda>i. b i = 0) [0..n - 1] = None" by (simp add: find_None_iff)
  moreover have "find P xs = None \<Longrightarrow> find P (xs @ y # ys) = (if P y then Some y else find P ys)" for P y and xs ys :: "int list"
    by (induction xs) (auto split: if_splits)
  moreover have "takeWhile (\<lambda>c. c \<noteq> 0) (map b [0..n - 1] @ map b (n # [n + 1..m - 1])) = map b [0..n - 1]"
    using nz assms(3) by (subst takeWhile_append2) auto
  ultimately show ?thesis using assms(3) unfolding u by (simp add: map_append)
qed

lemma least_zero:
  assumes "has_end b"
  shows "\<exists>n. 0 \<le> n \<and> n < MAX_INPUT \<and> b n = 0 \<and> (\<forall>i. 0 \<le> i \<longrightarrow> i < n \<longrightarrow> b i \<noteq> 0)"
proof -
  obtain k where k: "0 \<le> k" "k < MAX_INPUT" "b k = 0" using assms by (auto simp: has_end_def)
  define n where "n = (LEAST j. b (int j) = 0)"
  have "b (int (nat k)) = 0" using k by simp
  then have "b (int n) = 0" "n \<le> nat k" unfolding n_def by (rule LeastI, rule Least_le)
  moreover have "b i \<noteq> 0" if "0 \<le> i" "i < int n" for i
    using not_less_Least [of "nat i" "\<lambda>j. b (int j) = 0"] that unfolding n_def by auto
  ultimately show ?thesis using k by (intro exI [of _ "int n"]) auto
qed

lemma c_line_at:
  assumes "0 \<le> n" and "n < MAX_INPUT" and "b n = 0" and "\<And>i. 0 \<le> i \<Longrightarrow> i < n \<Longrightarrow> b i \<noteq> 0"
  shows "c_line b = map b [0..n - 1]"
  using find_upto_first [of n MAX_INPUT b] assms by (simp add: c_line_def)

lemma c_line_copy [simp]: "c_line (copy_cells b (MAX_INPUT - 1) d) = c_line b"
proof -
  have "map (copy_cells b (MAX_INPUT - 1) d) [0..MAX_INPUT - 1] = map b [0..MAX_INPUT - 1]"
    by (rule map_cong) (auto simp: copy_cells_eq)
  then show ?thesis unfolding c_line_def by (rule arg_cong)
qed

lemma has_end_copy [simp]: "has_end (copy_cells b (MAX_INPUT - 1) d) = has_end b"
  by (auto simp: has_end_def copy_cells_eq)

lemma c_line_closed:
  assumes "line_ok t" and "0 \<notin> set (line_text t)"
  shows "c_line ((inp t)(pos t := 0)) = line_text t \<and> has_end ((inp t)(pos t := 0))"
proof -
  have "0 \<le> pos t" "pos t < MAX_INPUT" using assms(1) by (auto simp: line_ok_def)
  moreover have "inp t i \<noteq> 0" if "0 \<le> i" "i < pos t" for i
    using assms(2) that by (force simp: line_text_def)
  ultimately show ?thesis using c_line_at [of "pos t" "(inp t)(pos t := 0)"]
    by (auto simp: line_text_def has_end_def)
qed

section \<open>The history\<close>

text \<open>The lines that can be recalled, the oldest one first.\<close>

definition hist :: "shell \<Rightarrow> u8 list list" where
  "hist t = map (\<lambda>k. c_line (history t (k mod HISTORY_SIZE)))
     [max 0 (history_count t - HISTORY_SIZE)..history_count t - 1]"

definition hist_ok :: "shell \<Rightarrow> bool" where
  "hist_ok t \<longleftrightarrow> 0 \<le> history_pos t \<and> history_pos t \<le> history_count t \<and>
     (\<forall>k. 0 \<le> k \<and> k < history_count t \<longrightarrow> has_end (history t (k mod HISTORY_SIZE)))"

definition shell_ok :: "shell \<Rightarrow> bool" where
  "shell_ok t \<longleftrightarrow> line_ok t \<and> 0 \<notin> set (line_text t) \<and> hist_ok t"

definition last_20 :: "'a list \<Rightarrow> 'a list" where
  "last_20 xs = drop (length xs - 20) xs"

lemma length_hist: "hist_ok t \<Longrightarrow> length (hist t) = nat (min 20 (history_count t))"
  by (auto simp: hist_def hist_ok_def)

lemma hist_from_end:
  assumes "hist_ok t" and "0 < n" and "n \<le> length (hist t)"
  shows "hist t ! (length (hist t) - n) = c_line (history t ((history_count t - int n) mod HISTORY_SIZE))"
proof -
  have c: "0 \<le> history_count t" using assms(1) by (simp add: hist_ok_def)
  have e: "max 0 (history_count t - HISTORY_SIZE) + int (length (hist t) - n) = history_count t - int n"
    using assms c length_hist [OF assms(1)] by auto
  have "hist t ! i = c_line (history t ((max 0 (history_count t - HISTORY_SIZE) + int i) mod HISTORY_SIZE))"
    if "i < length (hist t)" for i
    using that by (simp add: hist_def nth_upto)
  from this [of "length (hist t) - n", unfolded e] show ?thesis using assms(2,3) by auto
qed

lemma slots_differ:
  assumes "n - HISTORY_SIZE < k" and "k < n"
  shows "k mod HISTORY_SIZE \<noteq> n mod HISTORY_SIZE"
proof
  assume "k mod HISTORY_SIZE = n mod HISTORY_SIZE"
  then have "HISTORY_SIZE dvd n - k" by (metis mod_eq_dvd_iff)
  then show False using assms zdvd_imp_le [of HISTORY_SIZE "n - k"] by simp
qed

lemma remember_hist:
  assumes "hist_ok t" and "0 < pos t"
  shows "hist (remember t) = last_20 (hist t @ [c_line (inp t)])"
proof -
  let ?n = "history_count t" and ?r = "remember t"
  have n: "0 \<le> ?n" using assms(1) by (simp add: hist_ok_def)
  have h: "history_count ?r = ?n + 1"
    "history ?r = (history t)(?n mod HISTORY_SIZE := copy_cells (inp t) (MAX_INPUT - 1) (history t (?n mod HISTORY_SIZE)))"
    using assms(2) by (simp_all add: remember_def Let_def)
  have old: "map (\<lambda>k. c_line (history ?r (k mod HISTORY_SIZE))) [max 0 (?n - 19)..?n - 1]
      = map (\<lambda>k. c_line (history t (k mod HISTORY_SIZE))) [max 0 (?n - 19)..?n - 1]"
  proof (rule map_cong)
    fix k assume "k \<in> set [max 0 (?n - 19)..?n - 1]"
    then show "c_line (history ?r (k mod HISTORY_SIZE)) = c_line (history t (k mod HISTORY_SIZE))"
      using slots_differ [of ?n k] by (simp add: h)
  qed simp
  have "[max 0 (?n - 19)..?n] = [max 0 (?n - 19)..?n - 1] @ [?n]" using n by (simp add: upto_rec2)
  then have r: "hist ?r = map (\<lambda>k. c_line (history t (k mod HISTORY_SIZE))) [max 0 (?n - 19)..?n - 1] @ [c_line (inp t)]"
    using old by (simp add: hist_def h)
  show ?thesis
  proof (cases "?n < 20")
    case True
    then have "max 0 (?n - 19) = 0" "max 0 (?n - HISTORY_SIZE) = 0" by auto
    then show ?thesis using True length_hist [OF assms(1)] n unfolding r by (simp add: last_20_def hist_def)
  next
    case False
    have "[?n - 20..?n - 1] = (?n - 20) # [?n - 19..?n - 1]" using False by (simp add: upto_rec1)
    then have "hist t = c_line (history t ((?n - 20) mod HISTORY_SIZE)) # map (\<lambda>k. c_line (history t (k mod HISTORY_SIZE))) [max 0 (?n - 19)..?n - 1]"
      using False by (simp add: hist_def max_def)
    then show ?thesis using length_hist [OF assms(1)] False unfolding r by (simp add: last_20_def)
  qed
qed

lemma recall_line:
  assumes "has_end (history t (history_pos t mod HISTORY_SIZE))"
  obtains u where "recall t = Some u" "line_ok u" "cur u = pos u" "0 \<notin> set (line_text u)"
    "line_text u = c_line (history t (history_pos t mod HISTORY_SIZE))" "history u = history t"
    "history_count u = history_count t" "history_pos u = history_pos t" "sys u = sys t"
proof -
  let ?b = "copy_cells (history t (history_pos t mod HISTORY_SIZE)) (MAX_INPUT - 1) (inp t)"
  have "has_end ?b" using assms by simp
  then obtain n where n: "0 \<le> n" "n < MAX_INPUT" "?b n = 0" "\<And>i. 0 \<le> i \<Longrightarrow> i < n \<Longrightarrow> ?b i \<noteq> 0"
    using least_zero by blast
  have f: "find (\<lambda>i. ?b i = 0) [0..MAX_INPUT - 1] = Some n"
    using find_upto_first [of n MAX_INPUT ?b] n by simp
  have l: "map ?b [0..n - 1] = c_line (history t (history_pos t mod HISTORY_SIZE))"
    using c_line_at [of n ?b] n by simp
  have "0 \<notin> set (map ?b [0..n - 1])" using n(4) by auto
  then show ?thesis
    by (intro that [of "t\<lparr>inp := ?b, pos := n, cur := n\<rparr>"])
      (simp_all add: recall_def f n line_ok_def line_text_def l [symmetric])
qed

lemma show_line_fields [simp]:
  "inp (show_line t) = inp t" "pos (show_line t) = pos t" "cur (show_line t) = cur t"
  "history (show_line t) = history t" "history_count (show_line t) = history_count t"
  "history_pos (show_line t) = history_pos t"
  by (simp_all add: drawing)

lemma line_cong:
  assumes "inp t = inp u" and "pos t = pos u"
  shows "line_text t = line_text u"
  using assms by (simp add: line_text_def)

lemma hist_cong:
  "history t = history u \<Longrightarrow> history_count t = history_count u \<Longrightarrow> hist t = hist u"
  by (simp add: hist_def)

text \<open>The up arrow steps back in the history while there is a line to show.\<close>

lemma key_up_recalls:
  assumes "hist_ok t" and "0 < history_pos t" and "history_count t - HISTORY_SIZE < history_pos t"
  obtains u where "key_up t = Some u" "line_ok u" "cur u = pos u" "0 \<notin> set (line_text u)"
    "line_text u = c_line (history t ((history_pos t - 1) mod HISTORY_SIZE))" "history u = history t"
    "history_count u = history_count t" "history_pos u = history_pos t - 1"
proof -
  let ?t = "t\<lparr>history_pos := history_pos t - 1\<rparr>"
  have "has_end (history ?t (history_pos ?t mod HISTORY_SIZE))"
    using assms by (simp add: hist_ok_def)
  then obtain u where u: "recall ?t = Some u" "line_ok u" "cur u = pos u" "0 \<notin> set (line_text u)"
    "line_text u = c_line (history ?t (history_pos ?t mod HISTORY_SIZE))" "history u = history ?t"
    "history_count u = history_count ?t" "history_pos u = history_pos ?t"
    by (rule recall_line)
  have "line_text (show_line u) = line_text u" by (rule line_cong) simp_all
  then show ?thesis using assms u by (intro that [of "show_line u"]) (simp_all add: key_up_def line_ok_def)
qed

section \<open>The line stays in its array\<close>

lemma line_text_set: "line_ok t \<Longrightarrow> set (line_text t) = set (line_before t) \<union> set (line_after t)"
  by (simp add: line_text_parts)

lemma hist_ok_cong:
  "history t = history u \<Longrightarrow> history_count t = history_count u \<Longrightarrow> history_pos t = history_pos u \<Longrightarrow>
     hist_ok t = hist_ok u"
  by (simp add: hist_ok_def)

lemma key_char_ok:
  assumes "shell_ok t" and "c \<noteq> 0"
  shows "shell_ok (key_char c t)"
proof (cases "line_fits c t")
  case True
  have ok: "line_ok t" "line_ok (key_char c t)" using assms(1) line.ins_ok by (auto simp: shell_ok_def)
  have "0 \<notin> set (line_text (key_char c t))"
    using assms True line.ins_text [OF ok(1) True] unfolding line_text_set [OF ok(2)]
    by (auto simp: shell_ok_def line_text_parts)
  moreover have "hist_ok (key_char c t) = hist_ok t"
    by (rule hist_ok_cong) (simp_all add: key_char_def drawing)
  ultimately show ?thesis using ok assms(1) by (simp add: shell_ok_def)
qed (simp add: key_char_full assms)

lemma key_backspace_ok:
  assumes "shell_ok t"
  shows "shell_ok (key_backspace t)"
proof (cases "0 < cur t")
  case True
  have ok: "line_ok t" "line_ok (key_backspace t)" using assms(1) line.del_ok by (auto simp: shell_ok_def)
  have "line_before t \<noteq> []" using True by (simp add: line_before_def)
  then have "0 \<notin> set (line_text (key_backspace t))"
    using assms line.del_text [OF ok(1)] unfolding line_text_set [OF ok(2)]
    by (auto simp: shell_ok_def line_text_parts dest: in_set_butlastD)
  moreover have "hist_ok (key_backspace t) = hist_ok t"
    by (rule hist_ok_cong) (simp_all add: key_backspace_def drawing)
  ultimately show ?thesis using ok assms(1) by (simp add: shell_ok_def)
qed (simp add: key_backspace_def assms)

lemma shell_ok_cur:
  assumes "shell_ok t" and "inp u = inp t" "pos u = pos t" "0 \<le> cur u" "cur u \<le> pos t"
    "history u = history t" "history_count u = history_count t" "history_pos u = history_pos t"
  shows "shell_ok u"
  using assms line_cong [of u t] hist_ok_cong [of u t] by (simp add: shell_ok_def line_ok_def)

lemma key_left_ok: "shell_ok t \<Longrightarrow> shell_ok (key_left t)"
  by (rule shell_ok_cur [of t]) (auto simp: key_left_def drawing shell_ok_def line_ok_def)

lemma key_right_ok: "shell_ok t \<Longrightarrow> shell_ok (key_right t)"
  by (rule shell_ok_cur [of t]) (auto simp: key_right_def drawing shell_ok_def line_ok_def)

lemma key_up_ok:
  assumes "shell_ok t" and "key_up t = Some u"
  shows "shell_ok u"
proof (cases "0 < history_pos t \<and> history_count t - HISTORY_SIZE < history_pos t")
  case True
  then obtain v where "key_up t = Some v" "line_ok v" "0 \<notin> set (line_text v)" "history v = history t"
    "history_count v = history_count t" "history_pos v = history_pos t - 1"
    using key_up_recalls assms(1) unfolding shell_ok_def by blast
  then show ?thesis using assms True by (simp add: shell_ok_def hist_ok_def)
qed (use assms in \<open>auto simp: key_up_def\<close>)

lemma empty_line: "line_text (t\<lparr>pos := 0, cur := n\<rparr>) = []"
  by (simp add: line_text_def)

lemma key_down_ok:
  assumes "shell_ok t" and "key_down t = Some u"
  shows "shell_ok u"
proof -
  let ?t = "t\<lparr>history_pos := history_pos t + 1\<rparr>"
  have h: "hist_ok t" using assms(1) by (simp add: shell_ok_def)
  consider "history_count t \<le> history_pos t" | "history_pos t + 1 = history_count t"
    | "history_pos t + 1 < history_count t" by linarith
  then show ?thesis
  proof cases
    case 1
    then show ?thesis using assms by (simp add: key_down_def)
  next
    case 2
    then have u: "u = show_line (?t\<lparr>inp := copy_cells (\<lambda>_. 0) (MAX_INPUT - 1) (inp t), pos := 0, cur := 0\<rparr>)"
      using assms(2) by (auto simp: key_down_def Let_def)
    show ?thesis using h 2 unfolding u by (simp add: shell_ok_def line_ok_def line_text_def hist_ok_def)
  next
    case 3
    then have "has_end (history ?t (history_pos ?t mod HISTORY_SIZE))" using h by (simp add: hist_ok_def)
    then obtain v where v: "recall ?t = Some v" "line_ok v" "0 \<notin> set (line_text v)" "history v = history ?t"
      "history_count v = history_count ?t" "history_pos v = history_pos ?t"
      by (rule recall_line)
    have u: "u = show_line v" using 3 assms(2) v(1) by (simp add: key_down_def Let_def)
    have "line_text (show_line v) = line_text v" by (rule line_cong) simp_all
    then show ?thesis using v h 3 unfolding u by (simp add: shell_ok_def line_ok_def hist_ok_def)
  qed
qed

lemma remember_fields [simp]:
  "inp (remember t) = inp t" "pos (remember t) = pos t" "cur (remember t) = cur t"
  "sys (remember t) = sys t"
  by (simp_all add: remember_def Let_def)

lemma hist_ok_remember:
  assumes "hist_ok t" and "has_end (inp t)"
  shows "hist_ok (remember t)"
  using assms by (auto simp: hist_ok_def remember_def Let_def) (metis order_le_less)

lemma prompt_fields:
  assumes "prompt t = Some u"
  shows "inp u = inp t" "pos u = pos t" "cur u = cur t" "history u = history t"
    "history_count u = history_count t" "history_pos u = history_pos t"
  using assms by (auto simp: prompt_def split: option.splits)

text \<open>The state in which a line is handed to the commands.\<close>

definition entered :: "shell \<Rightarrow> shell" where
  "entered t = on_screen (console_putchar 10) (remember (t\<lparr>inp := (inp t)(pos t := 0)\<rparr>))"

lemma entered_ok:
  assumes "shell_ok t"
  shows "hist_ok (entered t)" "c_line (inp (entered t)) = line_text t"
    "hist (entered t) = (if pos t = 0 then hist t else last_20 (hist t @ [line_text t]))"
    "sys (entered t) = on_con (console_putchar 10) (sys t)"
    "history_pos (entered t) = (if pos t = 0 then history_pos t else history_count (entered t))"
proof -
  let ?t = "t\<lparr>inp := (inp t)(pos t := 0)\<rparr>"
  have c: "c_line (inp ?t) = line_text t" "has_end (inp ?t)"
    using c_line_closed [of t] assms by (simp_all add: shell_ok_def)
  have h: "hist_ok ?t" "hist ?t = hist t"
    using hist_ok_cong [of ?t t] hist_cong [of ?t t] assms by (simp_all add: shell_ok_def)
  have "hist_ok (remember ?t)" by (rule hist_ok_remember [OF h(1) c(2)])
  then show "hist_ok (entered t)" by (simp add: entered_def hist_ok_def)
  show "c_line (inp (entered t)) = line_text t" "sys (entered t) = on_con (console_putchar 10) (sys t)"
    using c(1) by (simp_all add: entered_def)
  have e: "hist (entered t) = hist (remember ?t)" by (rule hist_cong) (simp_all add: entered_def)
  have "0 \<le> pos t" using assms by (simp add: shell_ok_def line_ok_def)
  then show "hist (entered t) = (if pos t = 0 then hist t else last_20 (hist t @ [line_text t]))"
    using remember_hist [OF h(1)] c(1) h(2) unfolding e by (auto simp: remember_def)
  show "history_pos (entered t) = (if pos t = 0 then history_pos t else history_count (entered t))"
    using \<open>0 \<le> pos t\<close> by (simp add: entered_def remember_def Let_def)
qed

lemma key_enter_entered:
  "key_enter keys t =
     (case shell_execute (c_line (inp (entered t))) keys (sys (entered t)) of None \<Rightarrow> None
      | Some (s, keys) \<Rightarrow> map_option (\<lambda>t. (t, keys)) (prompt ((entered t)\<lparr>pos := 0, cur := 0, sys := s\<rparr>)))"
  unfolding key_enter_def entered_def Let_def by (rule refl)

lemma key_enter_ok:
  assumes "shell_ok t" and "key_enter keys t = Some (u, rest)"
  shows "shell_ok u"
proof -
  obtain s where p: "prompt ((entered t)\<lparr>pos := 0, cur := 0, sys := s\<rparr>) = Some u"
    using assms(2) by (auto simp: key_enter_entered split: option.splits)
  from prompt_fields [OF this] entered_ok(1) [OF assms(1)] show ?thesis
    by (simp add: shell_ok_def line_ok_def line_text_def hist_ok_def)
qed

lemma line_key_cases:
  assumes "c \<noteq> 0 \<Longrightarrow> P (Some (key_char c t))" and "P (key_up t)" and "P (key_down t)"
    and "P (Some (key_left t))" and "P (Some (key_right t))" and "P (Some (key_backspace t))" and "P (Some t)"
  shows "P (line_key c t)"
proof -
  have "c \<noteq> 0" if "0x20 \<le> c" using that by auto
  then have "P (if 0x20 \<le> c \<and> c < 0x80 then Some (key_char c t) else Some t)"
    using assms(1,7) by (cases "0x20 \<le> c \<and> c < 0x80") simp_all
  then show ?thesis unfolding line_key_def using assms(2-6) by (simp only: split: if_split) simp
qed

lemma line_key_ok:
  assumes "shell_ok t" and "line_key c t = Some u"
  shows "shell_ok u"
proof -
  have "\<forall>u. line_key c t = Some u \<longrightarrow> shell_ok u"
    by (rule line_key_cases [where P = "\<lambda>r. \<forall>u. r = Some u \<longrightarrow> shell_ok u"])
      (simp_all add: key_char_ok [OF assms(1)] key_up_ok [OF assms(1)] key_down_ok [OF assms(1)]
        key_left_ok [OF assms(1)] key_right_ok [OF assms(1)] key_backspace_ok [OF assms(1)] assms(1))
  then show ?thesis using assms(2) by simp
qed

lemma shell_key_ok:
  assumes "shell_ok t" and "shell_key c keys t = Some (u, rest)"
  shows "shell_ok u"
  using assms(2) key_enter_ok [OF assms(1), of keys u rest] line_key_ok [OF assms(1), of c u]
  by (auto simp: shell_key_def split: if_splits)

text \<open>Only enter can fail to return: the arrows find the end of every line of the history.\<close>

lemma key_up_some:
  assumes "hist_ok t"
  shows "key_up t \<noteq> None"
proof (cases "0 < history_pos t \<and> history_count t - HISTORY_SIZE < history_pos t")
  case True
  then show ?thesis using key_up_recalls [OF assms] by (metis option.distinct(1))
qed (auto simp: key_up_def)

lemma key_down_some:
  assumes "hist_ok t"
  shows "key_down t \<noteq> None"
proof (cases "history_pos t + 1 < history_count t")
  case True
  let ?t = "t\<lparr>history_pos := history_pos t + 1\<rparr>"
  have "has_end (history ?t (history_pos ?t mod HISTORY_SIZE))" using assms True by (simp add: hist_ok_def)
  then obtain v where "recall ?t = Some v" by (rule recall_line)
  then show ?thesis using True by (simp add: key_down_def Let_def)
qed (auto simp: key_down_def Let_def)

lemma line_key_some:
  assumes "shell_ok t"
  shows "line_key c t \<noteq> None"
proof -
  have "hist_ok t" using assms by (simp add: shell_ok_def)
  then show ?thesis
    by (intro line_key_cases [where P = "\<lambda>r. r \<noteq> None"]) (simp_all add: key_up_some key_down_some)
qed

lemma line_keys_return:
  "shell_ok t \<Longrightarrow> list_all (\<lambda>c. c \<noteq> 10) keys \<Longrightarrow> shell_loop keys t \<noteq> None"
proof (induction keys arbitrary: t)
  case (Cons c keys)
  obtain u where u: "line_key c t = Some u" using line_key_some [OF Cons.prems(1), of c] by auto
  then have "shell_ok u" by (rule line_key_ok [OF Cons.prems(1)])
  then show ?case using Cons u by (simp add: shell_key_def)
qed simp

lemma shell_loop_ok: "shell_ok t \<Longrightarrow> shell_loop keys t = Some u \<Longrightarrow> shell_ok u"
proof (induction keys t rule: shell_loop.induct)
  case (2 c keys t)
  then show ?case using shell_key_ok by (auto split: option.splits)
qed simp


definition idle_shell :: shell where
  "idle_shell = \<lparr>inp = (\<lambda>_. 0x58), pos = 0, cur = 0, history = (\<lambda>_ _. 0), history_count = 0,
     history_pos = 0, prompt_col = 7, prompt_row = 0, sys = idle_system\<rparr>"

lemma idle_shell_ok: "shell_ok idle_shell"
  by (auto simp: shell_ok_def line_ok_def hist_ok_def line_text_def idle_shell_def)


section \<open>Typing and running a line\<close>

text \<open>The shell before and after keys that only edit the line: the rest of the system is the same.\<close>

definition same_system :: "system \<Rightarrow> system \<Rightarrow> bool" where
  "same_system s s' \<longleftrightarrow> s' = s\<lparr>con := con s'\<rparr>"

lemma same_system_simps [simp]:
  "same_system s s" "same_system s (on_con f s)" "same_system s s' \<Longrightarrow> same_system s (on_con f s')"
  by (simp_all add: same_system_def on_con_def) (metis system.surjective system.update_convs(1))

definition printable :: "u8 \<Rightarrow> bool" where
  "printable c \<longleftrightarrow> 0x20 \<le> c \<and> c < 0x80"

lemma shell_key_printable: "printable c \<Longrightarrow> shell_key c keys t = Some (key_char c t, keys)"
  by (auto simp: shell_key_def line_key_def printable_def)

lemma key_char_frame:
  "history (key_char c t) = history t" "history_count (key_char c t) = history_count t"
  "history_pos (key_char c t) = history_pos t" "same_system (sys t) (sys (key_char c t))"
  by (simp_all add: key_char_def drawing)

lemma same_system_trans: "same_system a b \<Longrightarrow> same_system b c \<Longrightarrow> same_system a c"
  unfolding same_system_def by (metis (no_types, lifting) system.ext_inject system.surjective system.update_convs(1))

lemma type_loop:
  "shell_ok t \<Longrightarrow> list_all printable keys \<Longrightarrow> pos t + int (length keys) < MAX_INPUT \<Longrightarrow>
     let u = fold key_char keys t in
       shell_loop (keys @ rest) t = shell_loop rest u \<and> shell_ok u \<and> hist u = hist t
         \<and> line_before u = line_before t @ keys \<and> line_after u = line_after t \<and> same_system (sys t) (sys u)
         \<and> pos u = pos t + int (length keys)"
proof (induction keys arbitrary: t)
  case (Cons c keys)
  have c: "c \<noteq> 0" "shell_key c (keys @ rest) t = Some (key_char c t, keys @ rest)" "line_fits c t"
    using Cons.prems shell_key_printable by (auto simp: printable_def line_fits_def)
  have k: "shell_ok (key_char c t)" by (rule key_char_ok [OF Cons.prems(1) c(1)])
  have b: "line_before (key_char c t) = line_before t @ [c]" "line_after (key_char c t) = line_after t"
    using line.ins_text [OF _ c(3)] Cons.prems(1) by (auto simp: shell_ok_def)
  have "pos (key_char c t) = pos t + 1" by (rule key_char_fields [OF c(3)])
  with Cons.IH [OF k] Cons.prems b c hist_cong [OF key_char_frame(1,2) [of c t]]
    same_system_trans [OF key_char_frame(4) [of t c], of "sys (fold key_char keys (key_char c t))"]
  show ?case by (simp add: Let_def)
qed simp

lemma typed_line_runs:
  assumes "shell_ok t" and "pos t = 0" and "list_all printable keys" and "int (length keys) < MAX_INPUT"
  shows "\<exists>s u. same_system (sys t) s \<and> pos u = 0 \<and> cur u = 0
    \<and> hist u = (if keys = [] then hist t else last_20 (hist t @ [keys]))
    \<and> shell_loop (keys @ 10 # rest) t =
       (case shell_execute keys rest s of None \<Rightarrow> None
        | Some (s', rest') \<Rightarrow> (case prompt (u\<lparr>sys := s'\<rparr>) of None \<Rightarrow> None | Some v \<Rightarrow> shell_loop rest' v))"
proof -
  let ?u = "fold key_char keys t"
  have l: "line_before t = []" "line_after t = []"
    using assms(1,2) by (simp_all add: line_before_def line_after_def shell_ok_def line_ok_def)
  note u = type_loop [OF assms(1,3), of "10 # rest", unfolded Let_def]
  have ok: "shell_ok ?u" and s: "same_system (sys t) (sys ?u)" and p: "pos ?u = int (length keys)"
    and h: "hist ?u = hist t" and r: "shell_loop (keys @ 10 # rest) t = shell_loop (10 # rest) ?u"
    using u assms(2,4) by simp_all
  have "line_text ?u = keys"
    using line_text_parts [of ?u] u ok l assms(2,4) by (simp add: shell_ok_def)
  note e = entered_ok [OF ok, unfolded this]
  have "shell_loop (10 # rest) ?u = (case shell_execute keys rest (sys (entered ?u)) of None \<Rightarrow> None
        | Some (s', rest') \<Rightarrow> (case prompt ((entered ?u)\<lparr>pos := 0, cur := 0, sys := s'\<rparr>) of None \<Rightarrow> None
           | Some v \<Rightarrow> shell_loop rest' v))"
    by (simp add: shell_key_def key_enter_entered e(2) split: option.splits)
  moreover have "hist ((entered ?u)\<lparr>pos := 0, cur := 0\<rparr>) = (if keys = [] then hist t else last_20 (hist t @ [keys]))"
    using e(3) p h by (simp add: hist_def)
  ultimately show ?thesis
    using s e(4) r by (intro exI [of _ "sys (entered ?u)"] exI [of _ "(entered ?u)\<lparr>pos := 0, cur := 0\<rparr>"]) simp
qed

text \<open>
  C16: A line typed at an empty prompt and finished with enter is remembered and executed as typed, by
  \<open>shell_execute\<close> on a system that differs from the one before in its console only; then there is
  an empty prompt again.
\<close>

theorem shell_runs_typed_line:
  assumes "shell_ok t" and "pos t = 0" and "list_all printable keys" and "int (length keys) < MAX_INPUT"
  shows "\<exists>s u. same_system (sys t) s \<and> pos u = 0 \<and> cur u = 0
    \<and> hist u = (if keys = [] then hist t else last_20 (hist t @ [keys]))
    \<and> shell_loop (keys @ 10 # rest) t =
       (case shell_execute keys rest s of None \<Rightarrow> None
        | Some (s', rest') \<Rightarrow> (case prompt (u\<lparr>sys := s'\<rparr>) of None \<Rightarrow> None | Some v \<Rightarrow> shell_loop rest' v))"
  by (rule typed_line_runs [OF assms])

lemma shell_runs_typed_line_witness:
  "\<exists>s u. same_system idle_system s \<and> hist u = [[0x6C, 0x73]] \<and> shell_loop [0x6C, 0x73, 10] idle_shell =
       (case shell_execute [0x6C, 0x73] [] s of None \<Rightarrow> None
        | Some (s', rest') \<Rightarrow> (case prompt (u\<lparr>sys := s'\<rparr>) of None \<Rightarrow> None | Some v \<Rightarrow> shell_loop rest' v))"
proof -
  have "pos idle_shell = 0" "hist idle_shell = []" "sys idle_shell = idle_system"
    by (simp_all add: idle_shell_def hist_def)
  then show ?thesis
    using shell_runs_typed_line [OF idle_shell_ok, of "[0x6C, 0x73]" "[]"]
    by (auto simp: printable_def MAX_INPUT_def last_20_def)
qed

section \<open>Recalling lines\<close>

lemma shell_loop_append:
  "list_all (\<lambda>c. c \<noteq> 10) ks \<Longrightarrow>
     shell_loop (ks @ rest) t = (case shell_loop ks t of None \<Rightarrow> None | Some u \<Rightarrow> shell_loop rest u)"
  by (induction ks arbitrary: t) (auto simp: shell_key_def split: option.splits)

lemma up_loop:
  assumes "shell_ok t" and "history_pos t = history_count t" and "0 < n" and "n \<le> length (hist t)"
  shows "\<exists>u. shell_loop (replicate n KEY_UP) t = Some u \<and> shell_ok u \<and> hist u = hist t
    \<and> history_count u = history_count t \<and> history_pos u = history_count t - int n
    \<and> cur u = pos u \<and> line_text u = hist t ! (length (hist t) - n)"
  using assms(3,4)
proof (induction n)
  case (Suc n)
  let ?n = "history_count t"
  have l: "int (Suc n) \<le> ?n" "int (Suc n) \<le> 20"
    using Suc.prems length_hist [of t] assms(1) by (auto simp: shell_ok_def hist_ok_def)
  obtain v where v: "shell_loop (replicate n KEY_UP) t = Some v" "shell_ok v" "hist v = hist t"
    "history_count v = ?n" "history_pos v = ?n - int n"
  proof (cases "n = 0")
    case True
    then show thesis using assms by (intro that [of t]) simp_all
  next
    case False
    then show thesis using Suc that by auto
  qed
  have hv: "hist_ok v" using v(2) by (simp add: shell_ok_def)
  obtain u where u: "key_up v = Some u" "line_ok u" "cur u = pos u" "0 \<notin> set (line_text u)"
    "line_text u = c_line (history v ((history_pos v - 1) mod HISTORY_SIZE))" "history u = history v"
    "history_count u = history_count v" "history_pos u = history_pos v - 1"
    by (rule key_up_recalls [OF hv]) (use v l in auto)
  have "shell_ok u" by (rule key_up_ok [OF v(2) u(1)])
  moreover have "hist u = hist t" using hist_cong [of u v] u v by simp
  moreover have "hist v ! (length (hist v) - Suc n) = line_text u"
    using hist_from_end [OF hv, of "Suc n"] Suc.prems u(5) v by (simp add: algebra_simps)
  moreover have "shell_loop (replicate n KEY_UP @ [KEY_UP]) t = Some u"
    using u(1) by (subst shell_loop_append) (simp_all add: list_all_iff v(1) shell_key_def line_key_def)
  moreover have "replicate (Suc n) KEY_UP = replicate n KEY_UP @ [KEY_UP]" by (simp add: replicate_append_same)
  ultimately show ?case using u v by auto
qed simp

text \<open>
  C21: The n-th press of the up arrow shows the n-th last line that was entered, with the cursor at
  its end; the last twenty lines can be reached, and the history stays as it is.
\<close>

theorem shell_history_recalls:
  assumes "shell_ok t" and "history_pos t = history_count t" and "0 < n" and "n \<le> length (hist t)"
  shows "\<exists>u. shell_loop (replicate n KEY_UP) t = Some u \<and> line_text u = hist t ! (length (hist t) - n)
    \<and> cur u = pos u \<and> hist u = hist t"
  using up_loop [OF assms] by blast

definition used_shell :: shell where
  "used_shell = (entered (key_char 0x61 idle_shell))\<lparr>pos := 0, cur := 0\<rparr>"

lemma used_shell_hist: "shell_ok used_shell" "hist used_shell = [[0x61]]" "history_pos used_shell = history_count used_shell"
proof -
  have k: "shell_ok (key_char 0x61 idle_shell)" by (rule key_char_ok [OF idle_shell_ok]) simp
  have f: "line_fits 0x61 idle_shell" by (simp add: line_fits_def idle_shell_def MAX_INPUT_def)
  have p: "pos (key_char 0x61 idle_shell) = 1"
    using key_char_fields(1) [OF f] by (simp add: idle_shell_def)
  have "line_text (key_char 0x61 idle_shell) = [0x61]"
    using p key_char_fields(3) [OF f] by (simp add: line_text_def idle_shell_def)
  moreover have "hist (key_char 0x61 idle_shell) = []"
    using hist_cong [OF key_char_frame(1,2) [of "0x61" idle_shell]] by (simp add: hist_def idle_shell_def)
  ultimately show "hist used_shell = [[0x61]]" "history_pos used_shell = history_count used_shell"
    using entered_ok(3,5) [OF k] p by (simp_all add: used_shell_def hist_def last_20_def)
  show "shell_ok used_shell"
    using entered_ok(1) [OF k] by (simp add: used_shell_def shell_ok_def line_ok_def line_text_def hist_ok_def)
qed

lemma shell_history_recalls_witness:
  "\<exists>u. shell_loop [KEY_UP] used_shell = Some u \<and> line_text u = [0x61]"
  using shell_history_recalls [OF used_shell_hist(1,3), where n = 1] by (auto simp: used_shell_hist(2))

end
