(* ===== verification/Boot.thy ===== *)
theory Boot
  imports Machine Gdt Shell_Line
begin

text \<open>
  The start of the kernel, \<^verbatim>\<open>src/src/kernel/kernel.c\<close>: \<^verbatim>\<open>Kernel_main\<close> initialises every part
  and starts the first process.  The theorem at the end says that what it leaves is a state the
  other theories speak about.
\<close>

section \<open>State\<close>

text \<open>What the linker fixes: addresses of symbols and functions.\<close>

record image =
  kernel_end :: u64
  gdt_at :: u64
  tss_at :: u64
  idt_at :: u64
  isr_at :: "nat \<Rightarrow> u64"
  shell_entry :: u64
  idle_entry :: u64
  reaper_entry :: u64

record 'd computer =
  c_sys :: system
  c_gdt :: gdt_state
  c_idt :: idt_state
  c_dev :: 'd

section \<open>Starting processes\<close>

text \<open>
  \<^verbatim>\<open>scheduler_add\<close> with the lines it prints; they come from fields it does not change after
  printing.
\<close>

definition sys_scheduler_add :: "u8 list \<Rightarrow> u64 \<Rightarrow> u8 \<Rightarrow> system \<Rightarrow> system option" where
  "sys_scheduler_add nm entry prio s =
     do { (_, neu) \<leftarrow> create_process (Some nm) entry prio (krn s);
          k \<leftarrow> scheduler_add (Some nm) entry prio (krn s);
          let t = s\<lparr>krn := k\<rparr>; p = pcbs k neu in
          if neu = 0 then Some t
          else do { t \<leftarrow> sys_printf (''ADD %s: pid=%d stack=%x rip=%x'' @ NL)
                      [KStr nm, KNum (ucast (pid p)), KNum (p_stack p), KNum (rip (regs p))] t;
                    if head (krn s) = 0 then Some t
                    else sys_printf (''AFTER LINK: head=%x head->rip=%x'' @ NL)
                      [KNum (head k), KNum (rip (regs (pcbs k (head k))))] t } }"

section \<open>The clock\<close>

text \<open>The busy wait of \<^verbatim>\<open>sleep_ms\<close>; it need not end when the clock does not advance.\<close>

partial_function (option) sleep_from :: "u64 \<Rightarrow> u64 \<Rightarrow> system \<Rightarrow> system option" where
  "sleep_from start ms s =
     (let (t, s) = get_ms s in if t - start < ms then sleep_from start ms s else Some s)"

definition sleep_ms :: "u64 \<Rightarrow> system \<Rightarrow> system option" where
  "sleep_ms ms s = (let (start, s) = get_ms s in sleep_from start ms s)"

definition sleep_s :: "u64 \<Rightarrow> system \<Rightarrow> system option" where
  "sleep_s sekunden s = (let (start, s) = get_ms s in sleep_from start (sekunden * 1000) s)"

section \<open>Kernel_main\<close>

text \<open>The lines \<^verbatim>\<open>keyboard_init\<close> prints.\<close>

definition keyboard_lines :: "u8 list \<Rightarrow> system \<Rightarrow> system option" where
  "keyboard_lines vs s =
     do { s \<leftarrow> sys_printf (''KB init start'' @ NL) [] s;
          s \<leftarrow> sys_printf (''PIC mask before: %x'' @ NL) [KNum (ucast (vs ! 0))] s;
          s \<leftarrow> sys_printf (''PS/2 config: %x'' @ NL) [KNum (ucast (vs ! 1))] s;
          s \<leftarrow> sys_printf (''KB reset response: %x'' @ NL) [KNum (ucast (vs ! 2))] s;
          sys_printf (''PIC mask after: %x'' @ NL) [KNum (ucast (vs ! 3))] s }"

text \<open>\<^verbatim>\<open>vmm_init\<close> loads the page tables of the BIOS boot path only.\<close>

definition vmm_init :: "BootInfo \<Rightarrow> kern \<Rightarrow> kern" where
  "vmm_init info k = (if boot_type info = 0 then k\<lparr>reg_cr3 := 0x1000\<rparr> else k)"

text \<open>
  Up to the start of the first process; \<open>m\<close> is the memory map, \<open>p\<close> the ports.
\<close>

definition kernel_main ::
  "image \<Rightarrow> BootInfo \<Rightarrow> E820Entry list \<Rightarrow> 'd ports \<Rightarrow> 'd computer \<Rightarrow> 'd computer option" where
  "kernel_main img info m p c =
     do { let s = on_con (console_clear \<circ> console_init info) (c_sys c);
          let s = print_str (''LivlyOS'' @ NL) s;
          s \<leftarrow> sys_printf (''Boot type: %d'' @ NL) [KNum (ucast (boot_type info))] s;
          s \<leftarrow> sys_printf (''Framebuffer: 0x%x'' @ NL) [KNum (ucast (fb_addr info))] s;
          let g = gdt_init (gdt_at img) (tss_at img) (c_gdt c);
          let (d, i) = idt_init (isr_at img) (idt_at img) p (c_dev c, c_idt c);
          let d = timer_init p d;
          let (d, vs) = keyboard_init p d;
          s \<leftarrow> keyboard_lines vs s;
          let k = (krn s)\<lparr>kpmm := pmm_init (kernel_end img) info m\<rparr>;
          let k = vmm_init info k;
          let k = k\<lparr>kheap := kmalloc_init (pmm_bitmap_end (kpmm k)) (kheap k)\<rparr>;
          s \<leftarrow> sys_printf (''Alle Inits durch!'' @ NL) [] (s\<lparr>krn := k\<rparr>);
          let s = s\<lparr>krn := schedular_init (krn s), fs := fat_init (fs s)\<rparr>;
          s \<leftarrow> sys_scheduler_add (bytes_of ''shell'') (shell_entry img) 0 s;
          s \<leftarrow> sys_scheduler_add (bytes_of ''idle'') (idle_entry img) 255 s;
          s \<leftarrow> sys_scheduler_add (bytes_of ''reaper'') (reaper_entry img) 2 s;
          s \<leftarrow> sys_printf (''Vor scheduler start'' @ NL) [] s;
          Some (c\<lparr>c_sys := s, c_gdt := g, c_idt := i, c_dev := d\<rparr>) }"

text \<open>
  The values that the final \<^verbatim>\<open>iretq\<close> loads: instruction pointer, code segment, flags, stack
  pointer, stack segment; without a process the kernel halts.
\<close>

definition first_start :: "kern \<Rightarrow> (u64 \<times> u64 \<times> u64 \<times> u64 \<times> u64) option" where
  "first_start k =
     (let first = get_current_process k; r = regs (pcbs k first)
      in if first = 0 then None else Some (rip r, cs r, rflags r, rsp r, ss r))"

text \<open>The body of the first process.\<close>

definition shell_process :: "u8 list \<Rightarrow> shell \<Rightarrow> shell option" where
  "shell_process keys t =
     (case sys_printf (''Inside shell_process!'' @ NL) [] (sys t) of None \<Rightarrow> None
      | Some s \<Rightarrow> shell_init keys (t\<lparr>sys := s\<rparr>))"

section \<open>The lines that are printed\<close>

lemma sys_printf_frame:
  assumes "sys_printf fmt args s = Some t"
  shows "krn t = krn s" "fs t = fs s"
  using assms by (auto simp: sys_printf_text)

lemmas print_simps = sys_printf_text bytes_of_def of_char_def conversion_def

lemma boot_lines:
  "\<exists>t. sys_printf (''Boot type: %d'' @ NL) [KNum a] s = Some t"
  "\<exists>t. sys_printf (''Framebuffer: 0x%x'' @ NL) [KNum a] s = Some t"
  "\<exists>t. sys_printf (''KB init start'' @ NL) [] s = Some t"
  "\<exists>t. sys_printf (''PIC mask before: %x'' @ NL) [KNum a] s = Some t"
  "\<exists>t. sys_printf (''PS/2 config: %x'' @ NL) [KNum a] s = Some t"
  "\<exists>t. sys_printf (''KB reset response: %x'' @ NL) [KNum a] s = Some t"
  "\<exists>t. sys_printf (''PIC mask after: %x'' @ NL) [KNum a] s = Some t"
  "\<exists>t. sys_printf (''Alle Inits durch!'' @ NL) [] s = Some t"
  "\<exists>t. sys_printf (''Vor scheduler start'' @ NL) [] s = Some t"
  "\<exists>t. sys_printf (''ADD %s: pid=%d stack=%x rip=%x'' @ NL) [KStr u, KNum a, KNum b, KNum c] s = Some t"
  "\<exists>t. sys_printf (''AFTER LINK: head=%x head->rip=%x'' @ NL) [KNum a, KNum b] s = Some t"
  by (simp_all add: print_simps)

lemma keyboard_lines_some: "\<exists>t. keyboard_lines vs s = Some t \<and> krn t = krn s"
proof -
  obtain t1 where 1: "sys_printf (''KB init start'' @ NL) [] s = Some t1" using boot_lines(3) by blast
  obtain t2 where 2: "sys_printf (''PIC mask before: %x'' @ NL) [KNum (ucast (vs ! 0))] t1 = Some t2"
    using boot_lines(4) by blast
  obtain t3 where 3: "sys_printf (''PS/2 config: %x'' @ NL) [KNum (ucast (vs ! 1))] t2 = Some t3"
    using boot_lines(5) by blast
  obtain t4 where 4: "sys_printf (''KB reset response: %x'' @ NL) [KNum (ucast (vs ! 2))] t3 = Some t4"
    using boot_lines(6) by blast
  obtain t5 where 5: "sys_printf (''PIC mask after: %x'' @ NL) [KNum (ucast (vs ! 3))] t4 = Some t5"
    using boot_lines(7) by blast
  show ?thesis
    unfolding keyboard_lines_def 1 2 3 4 5 bind.bind_lunit
    using sys_printf_frame(1) [OF 1] sys_printf_frame(1) [OF 2] sys_printf_frame(1) [OF 3]
      sys_printf_frame(1) [OF 4] sys_printf_frame(1) [OF 5] by (simp add: 2 3 4 5)
qed

lemma sys_scheduler_add_some:
  assumes "create_process (Some nm) entry prio (krn s) = Some (k0, neu)"
    and "scheduler_add (Some nm) entry prio (krn s) = Some k"
  shows "\<exists>t. sys_scheduler_add nm entry prio s = Some t \<and> krn t = k \<and> fs t = fs s"
proof -
  let ?p = "pcbs k neu" and ?s = "s\<lparr>krn := k\<rparr>"
  obtain t where t: "sys_printf (''ADD %s: pid=%d stack=%x rip=%x'' @ NL)
      [KStr nm, KNum (ucast (pid ?p)), KNum (p_stack ?p), KNum (rip (regs ?p))] ?s = Some t"
    using boot_lines(10) by blast
  obtain u where u: "sys_printf (''AFTER LINK: head=%x head->rip=%x'' @ NL)
      [KNum (head k), KNum (rip (regs (pcbs k (head k))))] t = Some u"
    using boot_lines(11) by blast
  note f = sys_printf_frame [OF t] sys_printf_frame [OF u]
  show ?thesis
  proof (cases "neu = 0")
    case True
    then have "sys_scheduler_add nm entry prio s = Some ?s"
      unfolding sys_scheduler_add_def by (simp only: assms bind.bind_lunit prod.case Let_def) simp
    then show ?thesis by simp
  next
    case False
    then have "sys_scheduler_add nm entry prio s = Some (if head (krn s) = 0 then t else u)"
      unfolding sys_scheduler_add_def
      by (simp only: assms bind.bind_lunit prod.case Let_def if_False t u split: if_split) simp
    then show ?thesis using f by simp
  qed
qed

section \<open>One process more\<close>

text \<open>What a kernel with the processes \<open>qs\<close> offers the next call of \<^verbatim>\<open>scheduler_add\<close>.\<close>

definition ready_for :: "nat \<Rightarrow> seg list \<Rightarrow> u64 list \<Rightarrow> kern \<Rightarrow> bool" where
  "ready_for n xs qs k \<longleftrightarrow> heap_view (kheap k) xs \<and> pmm_inv (kpmm k) \<and> n \<le> pmm_avail (kpmm k) \<and>
     heap_live (kheap k) = set qs \<and> saved_ok k \<and> (head k = 0 \<and> qs = [] \<or> run_queue k qs)"

text \<open>A process as \<^verbatim>\<open>scheduler_add\<close> leaves it.\<close>

definition started :: "u8 list \<Rightarrow> u64 \<Rightarrow> u8 \<Rightarrow> ProcessState \<Rightarrow> PCB \<Rightarrow> bool" where
  "started nm entry prio st b \<longleftrightarrow> (\<exists>stack cr n i. b = (new_pcb nm entry prio stack cr i)
     \<lparr>ticks_remaining := get_quantum prio, p_next := n, p_state := st\<rparr>)"

lemma started_same: "started nm entry prio st b \<Longrightarrow> started nm entry prio st (b\<lparr>p_next := n\<rparr>)"
proof -
  assume "started nm entry prio st b"
  then obtain stack cr m i where "b = (new_pcb nm entry prio stack cr i)
     \<lparr>ticks_remaining := get_quantum prio, p_next := m, p_state := st\<rparr>" by (auto simp: started_def)
  then have "b\<lparr>p_next := n\<rparr> = (new_pcb nm entry prio stack cr i)
     \<lparr>ticks_remaining := get_quantum prio, p_next := n, p_state := st\<rparr>" by simp
  then show ?thesis unfolding started_def by blast
qed

lemma add_process:
  assumes r: "ready_for (Suc n) xs qs (krn s)" and "entry \<noteq> 0" "nm \<noteq> []"
    and ff: "first_fit 248 xs = Some (ys, off)"
  shows "\<exists>t p. sys_scheduler_add nm entry prio s = Some t \<and> fs t = fs s \<and> p \<notin> set qs \<and> p \<noteq> 0 \<and>
    started nm entry prio (if head (krn s) = 0 then RUNNING else READY) (pcbs (krn t) p) \<and>
    (\<forall>q. q \<noteq> p \<longrightarrow> (\<exists>i. pcbs (krn t) q = (pcbs (krn s) q)\<lparr>p_next := i\<rparr>)) \<and>
    (if head (krn s) = 0 then head (krn t) = p \<and> current (krn t) = p \<and> ready_for n ys [p] (krn t)
     else head (krn t) = head (krn s) \<and> current (krn t) = current (krn s) \<and>
       (\<exists>us vs. qs = us @ head (krn s) # vs \<and> ready_for n ys (us @ p # head (krn s) # vs) (krn t)))"
proof -
  let ?k = "krn s"
  have v: "heap_view (kheap ?k) xs" and pi: "pmm_inv (kpmm ?k)" and av: "Suc n \<le> pmm_avail (kpmm ?k)"
    and live: "heap_live (kheap ?k) = set qs" and sv: "saved_ok ?k"
    and ring: "head ?k = 0 \<and> qs = [] \<or> run_queue ?k qs \<and> set qs \<subseteq> heap_live (kheap ?k)"
    using r by (auto simp: ready_for_def)
  have hi: "heap_inv (kheap ?k)" using v by (auto simp: heap_inv_def)
  obtain h p where km: "kmalloc SIZEOF_PCB (kheap ?k) = Some (h, p)" using kheap.alloc_returns [OF hi] by blast
  have s248: "unat SIZEOF_PCB = 248" by simp
  have hv: "heap_view h ys" "p \<noteq> 0"
    using kmalloc_cases [OF v km, unfolded s248] ff by (metis option.distinct(1) option.inject prod.inject)+
  obtain fr stack where al: "pmm_alloc (kpmm ?k) = (fr, stack)" by force
  have req: "pmm_alloc_req () (kpmm ?k) = Some (fr, stack)" using al by (simp add: pmm_alloc_req_def)
  have fa: "pmm_inv fr" "n \<le> pmm_avail fr"
    using pages.alloc_inv [OF pi req] pages.alloc_avail [OF pi req] av by auto
  note hl = kheap.alloc_fresh [OF hi km hv(2)]
  from scheduler_add_made [OF hi pi assms(2,3) ring km hv(2) al, of prio] obtain k n' where
    k: "create_process (Some nm) entry prio ?k
        = Some (with_process p (new_pcb nm entry prio stack (reg_cr3 ?k) (next_pid ?k)) h fr ?k, p)"
      "scheduler_add (Some nm) entry prio ?k = Some k" "kheap k = h" "kpmm k = fr"
    and b: "pcbs k p = (new_pcb nm entry prio stack (reg_cr3 ?k) (next_pid ?k))\<lparr>ticks_remaining := get_quantum prio,
      p_next := n', p_state := (if head ?k = 0 then RUNNING else READY)\<rparr>"
    and o: "\<forall>q. q \<noteq> p \<longrightarrow> (\<exists>i. pcbs k q = (pcbs ?k q)\<lparr>p_next := i\<rparr>)"
    and q: "if head ?k = 0 then head k = p \<and> current k = p \<and> run_queue k [p]
     else head k = head ?k \<and> current k = current ?k \<and>
       (\<exists>us vs. qs = us @ head ?k # vs \<and> run_queue k (us @ p # head ?k # vs))" by blast
  obtain t where t: "sys_scheduler_add nm entry prio s = Some t" "krn t = k" "fs t = fs s"
    using sys_scheduler_add_some [OF k(1,2)] by blast
  have sv': "saved_ok k" unfolding saved_ok_def
  proof
    fix a
    show "int_num (regs (pcbs k a)) \<le> 32"
    proof (cases "a = p")
      case True
      then show ?thesis by (simp add: b new_pcb_def zero_frame_def)
    next
      case False
      then obtain i where "pcbs k a = (pcbs ?k a)\<lparr>p_next := i\<rparr>" using o by blast
      then show ?thesis using sv by (simp add: saved_ok_def)
    qed
  qed
  have rd: "ready_for n ys qs' k" if "run_queue k qs'" "set qs' = insert p (set qs)" for qs'
    using that hv fa sv' hl live by (simp add: ready_for_def k(3,4))
  have st: "started nm entry prio (if head ?k = 0 then RUNNING else READY) (pcbs k p)"
    unfolding started_def b by blast
  have pn: "p \<notin> set qs" using hl live by simp
  show ?thesis
  proof (cases "head ?k = 0")
    case True
    have "qs = []" using ring True by (auto simp: run_queue_def)
    then show ?thesis using t st pn hv(2) q o True rd [of "[p]"]
      by (intro exI [of _ t] exI [of _ p]) simp
  next
    case False
    then obtain us vs where uv: "qs = us @ head ?k # vs" "run_queue k (us @ p # head ?k # vs)" using q by auto
    have "ready_for n ys (us @ p # head ?k # vs) k" by (rule rd [OF uv(2)]) (auto simp: uv(1))
    then show ?thesis using t st pn hv(2) q o False uv(1)
      by (intro exI [of _ t] exI [of _ p]) auto
  qed
qed

section \<open>The machine after the start\<close>

text \<open>The heap with the three control blocks at its start.\<close>

abbreviation boot_segs :: "seg list" where
  "boot_segs \<equiv> [(248, True), (248, True), (248, True), (unat HEAP_BYTES - 32 - 840, False)]"

lemma kernel_main_boots:
  assumes map: "entries_disjoint (init_pages info m) (e820_entries info m)"
    and pages: "3 \<le> pmm_avail (pmm_init (kernel_end img) info m)"
    and room: "0 < pmm_bitmap_end (pmm_init (kernel_end img) info m)"
      "unat (pmm_bitmap_end (pmm_init (kernel_end img) info m)) + unat HEAP_BYTES < 2 ^ 64"
    and entries: "shell_entry img \<noteq> 0" "idle_entry img \<noteq> 0" "reaper_entry img \<noteq> 0"
    and mem: "saved_ok (krn (c_sys c))"
  shows "\<exists>c' a b d. kernel_main img info m p c = Some c' \<and> ready_for 0 boot_segs [b, d, a] (krn (c_sys c')) \<and>
    distinct [a, b, d] \<and> head (krn (c_sys c')) = a \<and> current (krn (c_sys c')) = a \<and>
    run_queue (krn (c_sys c')) [b, d, a] \<and>
    started (bytes_of ''shell'') (shell_entry img) 0 RUNNING (pcbs (krn (c_sys c')) a) \<and>
    started (bytes_of ''idle'') (idle_entry img) 255 READY (pcbs (krn (c_sys c')) b) \<and>
    started (bytes_of ''reaper'') (reaper_entry img) 2 READY (pcbs (krn (c_sys c')) d)"
proof -
  define pm where "pm = pmm_init (kernel_end img) info m"
  have pm: "pmm_inv pm" using pmm_init_state [OF map, of "kernel_end img"] by (simp add: pm_def Let_def)
  let ?s0 = "print_str (''LivlyOS'' @ NL) (on_con (console_clear \<circ> console_init info) (c_sys c))"
  obtain s1 where 1: "sys_printf (''Boot type: %d'' @ NL) [KNum (ucast (boot_type info))] ?s0 = Some s1"
    using boot_lines(1) by blast
  obtain s2 where 2: "sys_printf (''Framebuffer: 0x%x'' @ NL) [KNum (ucast (fb_addr info))] s1 = Some s2"
    using boot_lines(2) by blast
  define g where "g = gdt_init (gdt_at img) (tss_at img) (c_gdt c)"
  obtain d i where di: "idt_init (isr_at img) (idt_at img) p (c_dev c, c_idt c) = (d, i)" by force
  obtain d' vs where kb: "keyboard_init p (timer_init p d) = (d', vs)" by force
  obtain s3 where 3: "keyboard_lines vs s2 = Some s3" "krn s3 = krn s2" using keyboard_lines_some by blast
  have k3: "krn s3 = krn (c_sys c)"
    using 3(2) sys_printf_frame(1) [OF 1] sys_printf_frame(1) [OF 2] by (simp add: print_str_def)
  define k where "k = (let k = (krn s3)\<lparr>kpmm := pm\<rparr>; k = vmm_init info k
     in k\<lparr>kheap := kmalloc_init (pmm_bitmap_end (kpmm k)) (kheap k)\<rparr>)"
  obtain s4 where 4: "sys_printf (''Alle Inits durch!'' @ NL) [] (s3\<lparr>krn := k\<rparr>) = Some s4" using boot_lines(8) by blast
  define s5 where "s5 = s4\<lparr>krn := schedular_init (krn s4), fs := fat_init (fs s4)\<rparr>"
  have k5: "krn s5 = schedular_init k" using sys_printf_frame(1) [OF 4] by (simp add: s5_def)
  have hv: "heap_view (kmalloc_init (pmm_bitmap_end pm) h) [(unat HEAP_BYTES - 32, False)]" for h
    using room by (intro init_view) (simp_all add: pm_def)
  have "heap_live (kmalloc_init (pmm_bitmap_end pm) h) = {}" for h using heap_live_view [OF hv] by simp
  then have r0: "ready_for (Suc (Suc (Suc 0))) [(unat HEAP_BYTES - 32, False)] [] (krn s5)" and h0: "head (krn s5) = 0"
    using hv pm pages mem unfolding k5
    by (auto simp: ready_for_def schedular_init_def k_def vmm_init_def Let_def pm_def [symmetric] saved_ok_def k3)
  have ne: "bytes_of ''shell'' \<noteq> []" "bytes_of ''idle'' \<noteq> []" "bytes_of ''reaper'' \<noteq> []" by (simp_all add: bytes_of_def)
  obtain s6 a where a: "sys_scheduler_add (bytes_of ''shell'') (shell_entry img) 0 s5 = Some s6" "a \<noteq> 0"
    "started (bytes_of ''shell'') (shell_entry img) 0 RUNNING (pcbs (krn s6) a)"
    "head (krn s6) = a" "current (krn s6) = a"
    "ready_for (Suc (Suc 0)) [(248, True), (unat HEAP_BYTES - 32 - 280, False)] [a] (krn s6)"
    using add_process [OF r0 entries(1) ne(1), of "[(248, True), (unat HEAP_BYTES - 32 - 280, False)]" 0 0] h0
    by auto
  have h6: "head (krn s6) \<noteq> 0" using a by simp
  obtain s7 b us vs7 where b: "sys_scheduler_add (bytes_of ''idle'') (idle_entry img) 255 s6 = Some s7" "b \<notin> {a}"
    "started (bytes_of ''idle'') (idle_entry img) 255 READY (pcbs (krn s7) b)"
    "head (krn s7) = a" "current (krn s7) = a" "[a] = us @ a # vs7"
    "\<forall>q. q \<noteq> b \<longrightarrow> (\<exists>i. pcbs (krn s7) q = (pcbs (krn s6) q)\<lparr>p_next := i\<rparr>)"
    "ready_for (Suc 0) [(248, True), (248, True), (unat HEAP_BYTES - 32 - 560, False)] (us @ b # a # vs7) (krn s7)"
    using add_process [OF a(6) entries(2) ne(2), of "[(248, True), (248, True), (unat HEAP_BYTES - 32 - 560, False)]" 280 255] h6 a(4,5)
    by auto
  have uv: "us = []" "vs7 = []" using b(6) by (cases us; simp)+
  have h7: "head (krn s7) \<noteq> 0" using a(2) b(4) by simp
  obtain s8 e us vs8 where e: "sys_scheduler_add (bytes_of ''reaper'') (reaper_entry img) 2 s7 = Some s8" "e \<notin> {b, a}"
    "started (bytes_of ''reaper'') (reaper_entry img) 2 READY (pcbs (krn s8) e)"
    "head (krn s8) = a" "current (krn s8) = a" "[b, a] = us @ a # vs8"
    "\<forall>q. q \<noteq> e \<longrightarrow> (\<exists>i. pcbs (krn s8) q = (pcbs (krn s7) q)\<lparr>p_next := i\<rparr>)"
    "ready_for 0 boot_segs (us @ e # a # vs8) (krn s8)"
    using add_process [OF b(8) [unfolded uv] entries(3) ne(3), of boot_segs 560 2] h7 b(4,5)
    by auto
  have uv8: "us = [b]" "vs8 = []" using e(6) b(2) by (cases us; cases "tl us"; simp)+
  obtain s9 where 9: "sys_printf (''Vor scheduler start'' @ NL) [] s8 = Some s9" using boot_lines(9) by blast
  have k9: "krn s9 = krn s8" by (rule sys_printf_frame(1) [OF 9])
  have same: "started (bytes_of ''idle'') (idle_entry img) 255 READY (pcbs (krn s8) b)"
    "started (bytes_of ''shell'') (shell_entry img) 0 RUNNING (pcbs (krn s8) a)"
    using a(3) b(2,3,7) e(2,7) started_same by (metis insertCI)+
  have "kernel_main img info m p c = Some (c\<lparr>c_sys := s9, c_gdt := g, c_idt := i, c_dev := d'\<rparr>)"
    unfolding kernel_main_def Let_def
    by (simp only: 1 2 di kb 3(1) 4 [unfolded k_def Let_def pm_def] s5_def [symmetric] a(1) b(1) e(1) 9 g_def
        bind.bind_lunit prod.case)
  moreover have "run_queue (krn s8) [b, e, a]" using e(8) by (simp add: ready_for_def uv8 e(4) a(2))
  moreover have "distinct [a, b, e]" using b(2) e(2) by auto
  ultimately show ?thesis using e(3,4,5,8) same by (intro exI [of _ "c\<lparr>c_sys := s9, c_gdt := g, c_idt := i, c_dev := d'\<rparr>"]
     exI [of _ a] exI [of _ b] exI [of _ e]) (simp add: k9 uv8)
qed

lemma kernel_main_machine:
  assumes "entries_disjoint (init_pages info m) (e820_entries info m)"
    and "3 \<le> pmm_avail (pmm_init (kernel_end img) info m)"
    and "0 < pmm_bitmap_end (pmm_init (kernel_end img) info m)"
    and "unat (pmm_bitmap_end (pmm_init (kernel_end img) info m)) + unat HEAP_BYTES < 2 ^ 64"
    and "shell_entry img \<noteq> 0" and "idle_entry img \<noteq> 0" and "reaper_entry img \<noteq> 0"
    and "saved_ok (krn (c_sys c))"
  shows "\<exists>c' k a b d stack. kernel_main img info m p c = Some c' \<and> k = krn (c_sys c') \<and>
    pmm_inv (kpmm k) \<and> heap_inv (kheap k) \<and> heap_live (kheap k) = {a, b, d} \<and>
    machine_ok \<lparr>procs = k, kbd = kb_start, system_ticks = 0, screen = v, dev = c_dev c'\<rparr> [b, d, a] \<and>
    map (\<lambda>q. (p_state (pcbs k q), rip (regs (pcbs k q)), priority (pcbs k q))) [a, b, d]
      = [(RUNNING, shell_entry img, 0), (READY, idle_entry img, 255), (READY, reaper_entry img, 2)] \<and>
    first_start k = Some (shell_entry img, 0x08, 0x202, stack + 4096, 0x10)"
proof -
  from kernel_main_boots [OF assms, of p] obtain c' a b d where
    c: "kernel_main img info m p c = Some c'" "ready_for 0 boot_segs [b, d, a] (krn (c_sys c'))"
      "distinct [a, b, d]" "current (krn (c_sys c')) = a" "run_queue (krn (c_sys c')) [b, d, a]"
    and s: "started (bytes_of ''shell'') (shell_entry img) 0 RUNNING (pcbs (krn (c_sys c')) a)"
      "started (bytes_of ''idle'') (idle_entry img) 255 READY (pcbs (krn (c_sys c')) b)"
      "started (bytes_of ''reaper'') (reaper_entry img) 2 READY (pcbs (krn (c_sys c')) d)"
    by blast
  let ?k = "krn (c_sys c')"
  have f: "p_state p' = st \<and> rip (regs p') = en \<and> priority p' = pr \<and> ticks_remaining p' = get_quantum pr
      \<and> cs (regs p') = 0x08 \<and> rflags (regs p') = 0x202 \<and> ss (regs p') = 0x10"
    if "started nm en pr st p'" for nm en pr st p'
    using that by (auto simp: started_def new_pcb_def)
  obtain stack where st: "rsp (regs (pcbs ?k a)) = stack + 4096"
    using s(1) by (auto simp: started_def new_pcb_def)
  have "machine_ok \<lparr>procs = ?k, kbd = kb_start, system_ticks = 0, screen = v, dev = c_dev c'\<rparr> [b, d, a]"
    using c f [OF s(1)] kb_start_ok(1) by (simp add: machine_ok_def ready_for_def slice_of_def get_quantum_def)
  moreover have "a \<noteq> 0" using c(5) by (auto simp: run_queue_def)
  moreover have "heap_inv (kheap ?k)" "heap_live (kheap ?k) = {a, b, d}" "pmm_inv (kpmm ?k)"
    using c(2) by (auto simp: ready_for_def heap_inv_def)
  ultimately show ?thesis using c(1,4) f [OF s(1)] f [OF s(2)] f [OF s(3)] st
    by (intro exI [of _ c'] exI [of _ ?k] exI [of _ a] exI [of _ b] exI [of _ d] exI [of _ stack])
      (simp add: first_start_def get_current_process_def Let_def)
qed

text \<open>
  C5: On a machine whose memory map frees each page once, with three free pages and room for the heap,
  \<^verbatim>\<open>Kernel_main\<close> reaches the start of the first process: page allocator and heap are well
  formed, the ring holds the shell, then idle and the reaper, the machine is one that interrupts keep
  in order, and \<^verbatim>\<open>iretq\<close> enters the shell on a stack of its own in ring 0 with interrupts enabled.
\<close>

theorem kernel_main_starts:
  assumes "entries_disjoint (init_pages info m) (e820_entries info m)"
    and "3 \<le> pmm_avail (pmm_init (kernel_end img) info m)"
    and "0 < pmm_bitmap_end (pmm_init (kernel_end img) info m)"
    and "unat (pmm_bitmap_end (pmm_init (kernel_end img) info m)) + unat HEAP_BYTES < 2 ^ 64"
    and "shell_entry img \<noteq> 0" and "idle_entry img \<noteq> 0" and "reaper_entry img \<noteq> 0"
    and "saved_ok (krn (c_sys c))"
  shows "\<exists>c' k a b d stack. kernel_main img info m p c = Some c' \<and> k = krn (c_sys c') \<and>
    pmm_inv (kpmm k) \<and> heap_inv (kheap k) \<and> heap_live (kheap k) = {a, b, d} \<and>
    machine_ok \<lparr>procs = k, kbd = kb_start, system_ticks = 0, screen = v, dev = c_dev c'\<rparr> [b, d, a] \<and>
    map (\<lambda>q. (p_state (pcbs k q), rip (regs (pcbs k q)), priority (pcbs k q))) [a, b, d]
      = [(RUNNING, shell_entry img, 0), (READY, idle_entry img, 255), (READY, reaper_entry img, 2)] \<and>
    first_start k = Some (shell_entry img, 0x08, 0x202, stack + 4096, 0x10)"
  by (rule kernel_main_machine [OF assms])

text \<open>The machine of \<open>small_map\<close>.\<close>

definition small_image :: image where
  "small_image = \<lparr>kernel_end = 0x130123, gdt_at = 0x120000, tss_at = 0x121000, idt_at = 0x122000,
     isr_at = (\<lambda>n. 0x110000 + of_nat n), shell_entry = 0x101000, idle_entry = 0x102000, reaper_entry = 0x103000\<rparr>"

lemma small_boot_state:
  "3 \<le> pmm_avail (pmm_init (kernel_end small_image) small_boot small_map)"
  "pmm_bitmap_end (pmm_init (kernel_end small_image) small_boot small_map) = 0x132000"
proof -
  let ?p = "pmm_init (kernel_end small_image) small_boot small_map"
  note s = pmm_init_state [OF small_boot_disjoint, of "kernel_end small_image", unfolded Let_def]
  show "pmm_bitmap_end ?p = 0x132000"
    using s by (simp add: small_image_def page_align_up_def init_pages_def small_boot_def small_map_def e820_entries_def)
  have "{0x300, 0x301, 0x302} \<subseteq> free_set ?p - {0}"
    using s by (simp add: small_image_def page_align_up_def init_pages_def small_boot_def small_map_def e820_entries_def
      entry_pages_def entry_start_def entry_end_def range_pages_def)
  then have "card {0x300, 0x301, 0x302 :: nat} \<le> card (free_set ?p - {0})" by (intro card_mono) simp_all
  then show "3 \<le> pmm_avail ?p" by (simp add: pmm_avail_def)
qed

definition blank_gdt :: gdt_state where
  "blank_gdt = \<lparr>gdt_mem = (\<lambda>_. 0),
     tss_entry = \<lparr>t_limit_low = 0, t_base_low = 0, t_base_mid = 0, t_access = 0, t_granularity = 0, t_base_high = 0,
       t_base_upper = 0, t_reserved = 0\<rparr>, tss = zero_tss, gdtr = \<lparr>gdtr_limit = 0, gdtr_base = 0\<rparr>,
     reg_cs = 0, reg_ds = 0, reg_es = 0, reg_ss = 0, reg_fs = 0, reg_gs = 0, reg_tr = 0\<rparr>"

definition small_computer :: "(pic \<times> pic) computer" where
  "small_computer = \<lparr>c_sys = idle_system, c_gdt = blank_gdt, c_idt = blank_idt, c_dev = (reset_pic, reset_pic)\<rparr>"

lemma kernel_main_starts_witness:
  "\<exists>c' stack. kernel_main small_image small_boot small_map two_pics small_computer = Some c' \<and>
     first_start (krn (c_sys c')) = Some (0x101000, 0x08, 0x202, stack + 4096, 0x10)"
proof -
  have e: "shell_entry small_image = 0x101000" "idle_entry small_image \<noteq> 0" "reaper_entry small_image \<noteq> 0"
    by (simp_all add: small_image_def)
  have "saved_ok (krn (c_sys small_computer))"
    by (simp add: saved_ok_def small_computer_def idle_system_def fresh_kern_def zero_pcb_def zero_frame_def)
  with kernel_main_starts [of small_boot small_map small_image small_computer two_pics "\<lambda>_. 0"] small_boot_state
    small_boot_disjoint e show ?thesis by auto
qed

text \<open>A busy wait ends at the first look at the clock that is late enough.\<close>

lemma sleep_from_ends:
  assumes "ms \<le> clock s (clock_reads s + n) - start" 
  shows "\<exists>t. sleep_from start ms s = Some t"
  using assms
proof (induction n arbitrary: s)
  case 0
  then show ?case by (subst sleep_from.simps) (simp add: get_ms_def leD)
next
  case (Suc n)
  let ?s = "s\<lparr>clock_reads := clock_reads s + 1\<rparr>"
  show ?case
  proof (cases "clock s (clock_reads s) - start < ms")
    case True
    have "sleep_from start ms s = sleep_from start ms ?s"
      by (subst sleep_from.simps) (simp add: get_ms_def True)
    then show ?thesis using Suc.IH [of ?s] Suc.prems by simp
  next
    case False
    then show ?thesis by (subst sleep_from.simps) (simp add: get_ms_def)
  qed
qed

lemma sleep_ms_ends:
  "ms \<le> clock s (clock_reads s + 1 + n) - clock s (clock_reads s) \<Longrightarrow> \<exists>t. sleep_ms ms s = Some t"
  using sleep_from_ends [of ms "s\<lparr>clock_reads := clock_reads s + 1\<rparr>" n "clock s (clock_reads s)"]
  by (simp add: sleep_ms_def get_ms_def)

end
