(* ===== verification/Running.thy ===== *)
theory Running
  imports Boot
begin

text \<open>
  The kernel after \<^verbatim>\<open>Kernel_main\<close> (\<^verbatim>\<open>src/src/kernel/kernel.c\<close>): what the start, the interrupt
  handler and the scheduler guarantee together for as long as the machine runs.
\<close>

text \<open>
  The machine that the first interrupt finds: the keyboard driver's variables and the tick counter
  are as the image initialises them.
\<close>

definition started_machine :: "vga \<Rightarrow> 'd computer \<Rightarrow> 'd machine" where
  "started_machine v c =
     \<lparr>procs = krn (c_sys c), kbd = kb_start, system_ticks = 0, screen = v, dev = c_dev c\<rparr>"

text \<open>A process gets the processor within \<open>n\<close> timer interrupts, whatever code they interrupt.\<close>

definition served_within :: "nat \<Rightarrow> 'd ports \<Rightarrow> 'd machine \<Rightarrow> u64 \<Rightarrow> bool" where
  "served_within n p m q \<longleftrightarrow> (\<forall>frames. length frames = n \<longrightarrow>
     (\<exists>j\<le>n. \<exists>m'. run_timer p (take j frames) m = Some m' \<and> current (procs m') = q))"

lemma served_in_ring:
  assumes "machine_ok m qs" and "q \<in> set qs" and "p_state (pcbs (procs m) q) \<noteq> ZOMBIE"
  shows "served_within (4 * length qs) p m q"
proof -
  obtain i where i: "i < length qs" "qs ! i = q" using assms(2) by (auto simp: in_set_conv_nth)
  show ?thesis unfolding served_within_def
  proof (intro allI impI)
    fix frames :: "InterruptFrame list" assume n: "length frames = 4 * length qs"
    let ?fs = "take (4 * (i + 1)) frames"
    have "length ?fs = 4 * (i + 1)" using n i(1) by simp
    from timer_interrupts_serve_all [OF assms(1) i(1) _ this, of p] assms(3) i(2)
    obtain j m' where j: "j \<le> 4 * (i + 1)" "run_timer p (take j ?fs) m = Some m'" "current (procs m') = q"
      using \<open>length ?fs = 4 * (i + 1)\<close> by auto
    moreover have "take j ?fs = take j frames" using j(1) by (simp add: min_def)
    ultimately show "\<exists>j\<le>4 * length qs. \<exists>m'. run_timer p (take j frames) m = Some m' \<and> current (procs m') = q"
      using i(1) by (intro exI [of _ j]) auto
  qed
qed

text \<open>
  C1: The kernel keeps running: after \<^verbatim>\<open>Kernel_main\<close> has started on a memory map with enough
  pages, whatever hardware interrupts follow, in any number and order and with any device state, the
  ring still holds exactly shell, idle and reaper, all alive, the heap and the page allocator are as
  \<^verbatim>\<open>Kernel_main\<close> left them, and from there each of the three has the processor within twelve
  further timer interrupts.
\<close>

theorem kernel_keeps_running:
  assumes "entries_disjoint (init_pages info m) (e820_entries info m)"
    and "3 \<le> pmm_avail (pmm_init (kernel_end img) info m)"
    and "0 < pmm_bitmap_end (pmm_init (kernel_end img) info m)"
    and "unat (pmm_bitmap_end (pmm_init (kernel_end img) info m)) + unat HEAP_BYTES < 2 ^ 64"
    and "shell_entry img \<noteq> 0" and "idle_entry img \<noteq> 0" and "reaper_entry img \<noteq> 0"
    and "saved_ok (krn (c_sys c))"
  shows "\<exists>c' a b d. kernel_main img info m p c = Some c' \<and> distinct [a, b, d] \<and>
    map (\<lambda>q. rip (regs (pcbs (krn (c_sys c')) q))) [a, b, d]
      = [shell_entry img, idle_entry img, reaper_entry img] \<and>
    (\<forall>m'. interrupted p (started_machine v c') m' \<longrightarrow>
      (\<exists>qs. machine_ok m' qs \<and> mset qs = {#a, b, d#} \<and> kheap (procs m') = kheap (krn (c_sys c')) \<and>
        kpmm (procs m') = kpmm (krn (c_sys c')) \<and>
        (\<forall>q\<in>{a, b, d}. p_state (pcbs (procs m') q) \<noteq> ZOMBIE \<and> served_within 12 p m' q)))"
proof -
  from kernel_main_machine [OF assms, of p v] obtain c' k a b d where
    m: "kernel_main img info m p c = Some c'" "k = krn (c_sys c')"
      "machine_ok \<lparr>procs = k, kbd = kb_start, system_ticks = 0, screen = v, dev = c_dev c'\<rparr> [b, d, a]"
      "map (\<lambda>q. (p_state (pcbs k q), rip (regs (pcbs k q)), priority (pcbs k q))) [a, b, d]
        = [(RUNNING, shell_entry img, 0), (READY, idle_entry img, 255), (READY, reaper_entry img, 2)]"
    by (elim exE conjE) (rule that)
  have c: "machine_ok (started_machine v c') [b, d, a]"
    "map (\<lambda>q. (p_state (pcbs (krn (c_sys c')) q), rip (regs (pcbs (krn (c_sys c')) q)))) [a, b, d]
      = [(RUNNING, shell_entry img), (READY, idle_entry img), (READY, reaper_entry img)]"
    using m(2-4) by (simp_all add: started_machine_def)
  let ?k = "krn (c_sys c')" and ?m = "started_machine v c'"
  have d: "distinct [a, b, d]" using c(1) by (auto simp: machine_ok_def run_queue_def)
  have pm: "procs ?m = ?k" by (simp add: started_machine_def)
  have later: "\<exists>qs. machine_ok m' qs \<and> mset qs = {#a, b, d#} \<and> kheap (procs m') = kheap ?k \<and> kpmm (procs m') = kpmm ?k \<and>
      (\<forall>q\<in>{a, b, d}. p_state (pcbs (procs m') q) \<noteq> ZOMBIE \<and> served_within 12 p m' q)"
    if mm: "interrupted p ?m m'" for m'
  proof -
    obtain qs where q: "machine_ok m' qs" "mset qs = mset [b, d, a]" "ring_kept ?k (procs m')"
      using interrupts_keep [OF mm c(1)] pm by auto
    have s: "set qs = {a, b, d}" "length qs = 3" using mset_eq_setD [OF q(2)] mset_eq_length [OF q(2)] by auto
    have z: "p_state (pcbs (procs m') q) \<noteq> ZOMBIE" if "q \<in> {a, b, d}" for q
      using q(3) c(2) that by (auto simp: ring_kept_def same_zombies_def)
    have "served_within 12 p m' q" if "q \<in> {a, b, d}" for q
      using served_in_ring [OF q(1) _ z [OF that], of p] s that by simp
    then show ?thesis using q z by (intro exI [of _ qs]) (simp add: ring_kept_def)
  qed
  show ?thesis
    using m(1) c(2) d later by (intro exI [of _ c'] exI [of _ a] exI [of _ b] exI [of _ d]) simp
qed

text \<open>The machine of \<open>small_map\<close>.\<close>

lemma kernel_keeps_running_witness:
  "\<exists>c' m' a. kernel_main small_image small_boot small_map two_pics small_computer = Some c' \<and>
     interrupted two_pics (started_machine (\<lambda>_. 0) c') m' \<and> rip (regs (pcbs (krn (c_sys c')) a)) = 0x102000 \<and>
     served_within 12 two_pics m' a"
proof -
  have e: "shell_entry small_image \<noteq> 0" "idle_entry small_image = 0x102000" "reaper_entry small_image \<noteq> 0"
    by (simp_all add: small_image_def)
  have "saved_ok (krn (c_sys small_computer))"
    by (simp add: saved_ok_def small_computer_def idle_system_def fresh_kern_def zero_pcb_def zero_frame_def)
  with kernel_keeps_running [of small_boot small_map small_image small_computer two_pics "\<lambda>_. 0"]
    small_boot_state small_boot_disjoint e
  obtain c' a b d where k: "kernel_main small_image small_boot small_map two_pics small_computer = Some c'"
    "rip (regs (pcbs (krn (c_sys c')) b)) = 0x102000"
    "\<forall>m'. interrupted two_pics (started_machine (\<lambda>_. 0) c') m' \<longrightarrow> served_within 12 two_pics m' b" by auto
  then show ?thesis using interrupted.start [of two_pics] by (intro exI [of _ c']) blast
qed

end
