(* ===== verification/Reaper.thy ===== *)
theory Reaper
  imports Boot
begin

text \<open>
  The reaper as a process, \<^verbatim>\<open>reaper_process\<close> in \<^verbatim>\<open>src/src/proc/schedular.c\<close>: its marker on the
  screen, what it prints, and its passes.  Then the way of a process from \<^verbatim>\<open>taskkill\<close> to the
  free lists, through shell, scheduler and reaper.
\<close>

section \<open>The process\<close>

text \<open>
  A red R in the first cell of the text mode, and a red square on the framebuffer, which exists when
  the console was set up on it.
\<close>

definition reaper_marker :: "console \<Rightarrow> console" where
  "reaper_marker s =
     (let s = s\<lparr>vtx := (vtx s)\<lparr>puffer := (puffer (vtx s))(0 := 0x52 OR push_bit 8 0x4F)\<rparr>\<rparr>;
          fb = con_fb (fbc s)
      in if use_fb s \<and> f_address fb \<noteq> 0
         then s\<lparr>fbc := (fbc s)\<lparr>vmem := fb_draw_rect fb 0 0 50 50 0x00FF0000 (vmem (fbc s))\<rparr>\<rparr>
         else s)"

text \<open>\<open>first\<close> and \<open>running\<close> are \<^verbatim>\<open>head\<close> and \<^verbatim>\<open>current\<close> as read at the start of the pass.\<close>

fun sys_reap_from :: "nat \<Rightarrow> u64 \<Rightarrow> u64 \<Rightarrow> u64 \<Rightarrow> u64 \<Rightarrow> system \<Rightarrow> system option" where
  "sys_reap_from 0 first running prev proc s = Some s"
| "sys_reap_from (Suc safety) first running prev proc s =
     (if proc = first then Some s
      else if p_state (pcbs (krn s) proc) = ZOMBIE \<and> proc \<noteq> running then
        do { s \<leftarrow> sys_printf (''Reaper cleaning pid %d'' @ NL) [KNum (ucast (pid (pcbs (krn s) proc)))] s;
             let to_free = proc;
             let k = set_pcb prev (\<lambda>p. p\<lparr>p_next := p_next (pcbs (krn s) proc)\<rparr>) (krn s);
             let proc = p_next (pcbs k prev);
             let k = k\<lparr>kpmm := pmm_free (p_stack (pcbs k to_free)) (kpmm k)\<rparr>;
             h \<leftarrow> kfree to_free (kheap k);
             sys_reap_from safety first running prev proc (s\<lparr>krn := k\<lparr>kheap := h\<rparr>\<rparr>) }
      else sys_reap_from safety first running proc (p_next (pcbs (krn s) proc)) s)"

definition sys_reaper_pass :: "system \<Rightarrow> system option" where
  "sys_reaper_pass s =
     do { s \<leftarrow> sys_printf (''REAPER TICK'' @ NL) [] s;
          let h = scheduler_get_head (krn s);
          let c = get_current_process (krn s);
          if h \<noteq> 0 then sys_reap_from 100 h c h (p_next (pcbs (krn s) h)) s else Some s }"

text \<open>The loop never ends; \<open>n\<close> passes of it, each followed by a second of sleep.\<close>

fun reaper_passes :: "nat \<Rightarrow> system \<Rightarrow> system option" where
  "reaper_passes 0 s = Some s"
| "reaper_passes (Suc n) s = sys_reaper_pass s \<bind> sleep_ms 1000 \<bind> reaper_passes n"

definition reaper_process :: "nat \<Rightarrow> system \<Rightarrow> system option" where
  "reaper_process n s =
     sys_printf (''Reaper started!'' @ NL) [] (on_con reaper_marker s) \<bind> reaper_passes n"

section \<open>The pass is that of the scheduler\<close>

text \<open>Only the console differs.\<close>

definition with_krn :: "system \<Rightarrow> kern \<Rightarrow> system \<Rightarrow> bool" where
  "with_krn s k t \<longleftrightarrow> t = s\<lparr>krn := k, con := con t\<rparr>"

lemma with_krn_con [simp]: "with_krn (on_con f s) k t = with_krn s k t"
  by (simp add: with_krn_def on_con_def)

lemma with_krn_is: "with_krn s k t \<Longrightarrow> krn t = k"
  unfolding with_krn_def by (metis system.select_convs(3) system.surjective system.update_convs(1,3))

lemma with_krn_krn [simp]: "with_krn (s\<lparr>krn := l\<rparr>) k t = with_krn s k t"
  by (simp add: with_krn_def)

lemma reaper_lines:
  "\<exists>f. sys_printf (''Reaper cleaning pid %d'' @ NL) [KNum a] s = Some (on_con f s)"
  "\<exists>f. sys_printf (''REAPER TICK'' @ NL) [] s = Some (on_con f s)"
  by (auto simp: print_simps)

lemma sys_reap_from_zombie:
  fixes s proc prev
  defines "k \<equiv> set_pcb prev (\<lambda>p. p\<lparr>p_next := p_next (pcbs (krn s) proc)\<rparr>) (krn s)"
  assumes "proc \<noteq> first" and "p_state (pcbs (krn s) proc) = ZOMBIE" and "proc \<noteq> running"
    and "kfree proc (kheap k) = Some h"
  shows "\<exists>f. sys_reap_from (Suc n) first running prev proc s
    = sys_reap_from n first running prev (p_next (pcbs k prev))
        ((on_con f s)\<lparr>krn := k\<lparr>kpmm := pmm_free (p_stack (pcbs k proc)) (kpmm k), kheap := h\<rparr>\<rparr>)"
proof -
  obtain f where "sys_printf (''Reaper cleaning pid %d'' @ NL) [KNum (ucast (pid (pcbs (krn s) proc)))] s
      = Some (on_con f s)" using reaper_lines(1) by blast
  then show ?thesis using assms(2-5) unfolding k_def
    by (intro exI [of _ f]) (simp only: sys_reap_from.simps if_False if_True bind.bind_lunit Let_def
        on_con_simps conj_assoc simp_thms, simp)
qed

lemma sys_reap_from_krn:
  "reap_from n prev proc (krn s) = Some k \<Longrightarrow>
     \<exists>t. sys_reap_from n (head (krn s)) (current (krn s)) prev proc s = Some t \<and> with_krn s k t"
proof (induction n arbitrary: prev proc s)
  case (Suc n)
  let ?h = "head (krn s)" and ?c = "current (krn s)"
  consider "proc = ?h" | "proc \<noteq> ?h" "p_state (pcbs (krn s) proc) = ZOMBIE" "proc \<noteq> ?c"
    | "proc \<noteq> ?h" "p_state (pcbs (krn s) proc) \<noteq> ZOMBIE \<or> proc = ?c" by blast
  then show ?case
  proof cases
    case 2
    let ?k = "set_pcb prev (\<lambda>p. p\<lparr>p_next := p_next (pcbs (krn s) proc)\<rparr>) (krn s)"
    let ?l = "\<lambda>h. ?k\<lparr>kpmm := pmm_free (p_stack (pcbs ?k proc)) (kpmm ?k), kheap := h\<rparr>"
    obtain h where h: "kfree proc (kheap ?k) = Some h"
      "reap_from n prev (p_next (pcbs ?k prev)) (?l h) = Some k"
      using Suc.prems 2 by (auto simp: Let_def split: option.splits)
    obtain f where f: "sys_reap_from (Suc n) ?h ?c prev proc s
        = sys_reap_from n ?h ?c prev (p_next (pcbs ?k prev)) ((on_con f s)\<lparr>krn := ?l h\<rparr>)"
      using sys_reap_from_zombie [OF 2 h(1), of n] by blast
    show ?thesis using Suc.IH [of prev "p_next (pcbs ?k prev)" "(on_con f s)\<lparr>krn := ?l h\<rparr>"] h(2)
      unfolding f by simp
  qed (use Suc in \<open>auto simp: with_krn_def Let_def\<close>)
qed (simp add: with_krn_def)

lemma sys_reaper_pass_krn:
  assumes "reaper_pass (krn s) = Some k"
  shows "\<exists>t. sys_reaper_pass s = Some t \<and> with_krn s k t"
proof -
  obtain f where f: "sys_printf (''REAPER TICK'' @ NL) [] s = Some (on_con f s)"
    using reaper_lines(2) by blast
  let ?h = "head (krn s)"
  have u: "sys_reaper_pass s = (if ?h \<noteq> 0 then sys_reap_from 100 ?h (current (krn s)) ?h
      (p_next (pcbs (krn s) ?h)) (on_con f s) else Some (on_con f s))"
    by (simp only: sys_reaper_pass_def f bind.bind_lunit Let_def on_con_simps scheduler_get_head_def
        get_current_process_def)
  show ?thesis
  proof (cases "?h = 0")
    case True
    then show ?thesis using assms by (simp add: u reaper_pass_def scheduler_get_head_def) (simp add: with_krn_def on_con_def)
  next
    case False
    then have "reap_from 100 ?h (p_next (pcbs (krn s) ?h)) (krn (on_con f s)) = Some k"
      using assms by (simp add: reaper_pass_def scheduler_get_head_def Let_def)
    from sys_reap_from_krn [OF this] show ?thesis using False unfolding u by simp
  qed
qed

section \<open>What ticks keep\<close>

lemma schedule_memory:
  assumes "schedule f k = Some (k', f')"
  shows "p_stack (pcbs k' q) = p_stack (pcbs k q)"
proof -
  have "p_stack (pcbs k' q) = p_stack (pcbs k q)" if "switch_to_next f k = Some (k', f')" for k
    using that by (auto simp: switch_to_next_def Let_def split: option.splits if_splits)
  then show ?thesis using assms by (fastforce simp: schedule_def Let_def split: if_splits)
qed

lemma run_ticks_ring:
  assumes "run_queue k qs" and "length qs < 256" and "slice_of k \<le> 4" and "run_ticks frames k = Some k'"
  shows "\<exists>qs'. run_queue k' qs' \<and> mset qs' = mset qs \<and> ring_kept k k' \<and>
    (\<forall>q. p_stack (pcbs k' q) = p_stack (pcbs k q))"
  using assms
proof (induction frames arbitrary: k qs)
  case (Cons f frames)
  obtain k1 f1 qs1 where 1: "schedule f k = Some (k1, f1)" "run_queue k1 qs1" "mset qs1 = mset qs"
    "slice_of k1 \<le> 4" "ring_kept k k1" using schedule_ring [OF Cons.prems(1-3), of f] by blast
  then have "length qs1 < 256" "run_ticks frames k1 = Some k'"
    using Cons.prems(2,4) mset_eq_length [OF 1(3)] by simp_all
  from Cons.IH [OF 1(2) this(1) 1(4) this(2)] obtain qs' where "run_queue k' qs'" "mset qs' = mset qs1"
    "ring_kept k1 k'" "\<forall>q. p_stack (pcbs k' q) = p_stack (pcbs k1 q)" by blast
  then show ?case using 1(3,5) ring_kept_trans schedule_memory [OF 1(1)] by (intro exI [of _ qs']) auto
qed auto

section \<open>From taskkill to the free lists\<close>

lemma filter_one: "distinct xs \<Longrightarrow> mset (filter (\<lambda>x. x \<noteq> v) xs) = mset xs - {#v#}"
  by (induction xs) (auto simp: filter_id_conv)

lemma kill_process_fields [simp]:
  "head (kill_process v k) = head k" "current (kill_process v k) = current k"
  "kheap (kill_process v k) = kheap k" "kpmm (kill_process v k) = kpmm k"
  "p_stack (pcbs (kill_process v k) q) = p_stack (pcbs k q)"
  "v \<noteq> 0 \<Longrightarrow> p_state (pcbs (kill_process v k) q) = (if q = v then ZOMBIE else p_state (pcbs k q))"
  "slice_of (kill_process v k) = slice_of k"
  by (simp_all add: kill_process_def slice_of_def)

lemma taskkill_kills:
  assumes "run_queue (krn s) qs" and "list_all (\<lambda>c. 0x30 \<le> c \<and> c \<le> 0x39) arg"
    and "v \<in> set qs" and "pid (pcbs (krn s) v) = of_nat (read_num 10 arg mod 256)"
    and "\<forall>q\<in>set qs. pid (pcbs (krn s) q) = pid (pcbs (krn s) v) \<longrightarrow> q = v"
  shows "cmd_stopProcess arg s = Some (s\<lparr>krn := kill_process v (krn s)\<rparr>)" "run_queue (kill_process v (krn s)) qs"
proof -
  let ?n = "pid (pcbs (krn s) v)"
  have n: "ucast (str_to_int arg) = ?n"
    using str_to_int_read [OF assms(2)] by (simp add: ucast_of_nat assms(4))
  have ex: "\<exists>q\<in>set qs. pid (pcbs (krn s) q) = ?n" using assms(3) by blast
  obtain k' q where "schedular_remove ?n (krn s) = Some k'" "run_queue k' qs" "q \<in> set qs"
    "pid (pcbs (krn s) q) = ?n" "k' = kill_process q (krn s)"
    using schedular_remove_kills [OF assms(1), of ?n, unfolded if_P [OF ex]] by blast
  moreover have "q = v" using calculation(3,4) assms(5) by blast
  ultimately have "schedular_remove ?n (krn s) = Some (kill_process v (krn s)) \<and> run_queue (kill_process v (krn s)) qs"
    by simp
  then show "cmd_stopProcess arg s = Some (s\<lparr>krn := kill_process v (krn s)\<rparr>)" "run_queue (kill_process v (krn s)) qs"
    by (simp_all add: cmd_stopProcess_def on_krn_def n)
qed


text \<open>The ring of \<open>zombie_kern\<close> with its second process alive and numbered 7.\<close>

definition three_kern :: "heap \<Rightarrow> kern" where
  "three_kern h = (zombie_kern h)\<lparr>pcbs := (pcbs (zombie_kern h))
     (0x200020 := (ring_pcb 0x3000 READY 0x1000)\<lparr>pid := 7\<rparr>)\<rparr>"


end
