(* ===== verification/Fat_Data.thy ===== *)
theory Fat_Data
  imports Fat_Files
begin

text \<open>
  Writing a file's data, \<^verbatim>\<open>fat_write_data\<close> in \<^verbatim>\<open>src/src/drivers/fs/fat.c\<close>, and reading it back:
  what is written to a file that was just created is what \<^verbatim>\<open>fat_read_file\<close> then finds, over as
  many clusters as it takes.
\<close>

section \<open>Sectors of data\<close>

lemma sector_data_bytes:
  assumes "o' + 512 < 2 ^ 32" and "length buf = unat sz"
  shows "sector_data buf sz (of_nat o')
    = take 512 (drop o' buf) @ replicate (512 - length (drop o' buf)) 0"
proof (rule nth_equalityI)
  fix j assume "j < length (sector_data buf sz (of_nat o'))"
  then have j: "j < 512" by (simp add: sector_data_def)
  have "unat (of_nat o' + of_nat j :: u32) = o' + j"
    using assms(1) j by (simp add: of_nat_add [symmetric] unat_of_nat_fits del: of_nat_add)
  moreover from this have "of_nat o' + of_nat j < sz \<longleftrightarrow> o' + j < length buf"
    by (simp add: word_less_nat_alt assms(2))
  ultimately show "sector_data buf sz (of_nat o') ! j
      = (take 512 (drop o' buf) @ replicate (512 - length (drop o' buf)) 0) ! j"
    using j by (auto simp: sector_data_def nth_append)
qed (simp add: sector_data_def)

lemma length_sector_data [simp]: "length (sector_data buf sz off) = 512"
  by (simp add: sector_data_def)

text \<open>Sectors filled one after the other hold the data, as far as it goes.\<close>

lemma take_concat_sectors:
  assumes "\<And>k. k < n \<Longrightarrow> length (f k) = 512"
    and "\<And>k. k < n \<Longrightarrow> 512 * k < length xs \<Longrightarrow>
      f k = take 512 (drop (512 * k) xs) @ replicate (512 - length (drop (512 * k) xs)) (0::u8)"
  shows "length (concat (map f [0..<n])) = 512 * n \<and> take (length xs) (concat (map f [0..<n])) = take (512 * n) xs"
  using assms
proof (induction n)
  case (Suc n)
  let ?a = "concat (map f [0..<n])"
  have ih: "length ?a = 512 * n" "take (length xs) ?a = take (512 * n) xs" using Suc by simp_all
  have "take (length xs) (?a @ f n) = take (512 * Suc n) xs"
  proof (cases "512 * n < length xs")
    case True
    have "take (512 * n) xs = ?a" using ih True by (simp add: min_def)
    moreover have "take (length xs - 512 * n) (f n) = take 512 (drop (512 * n) xs)"
      unfolding Suc.prems(2) [OF lessI True] by (simp add: take_Cons' min_def)
    moreover have "take (512 * Suc n) xs = take (512 * n) xs @ take 512 (drop (512 * n) xs)"
      by (metis add.commute mult_Suc_right take_add)
    ultimately show ?thesis using ih(1) True by simp
  next
    case False
    then show ?thesis using ih by simp
  qed
  then show ?case using ih(1) Suc.prems(1) [of n] by simp
qed simp

section \<open>Writing one cluster\<close>

text \<open>Between operations: a clean cache that holds no data sector.\<close>

definition data_ok :: "fatfs \<Rightarrow> bool" where
  "data_ok s \<longleftrightarrow> clean s \<and> geometry s \<and> (cached_nr s < data_start s \<or> 0x10000000 \<le> cached_nr s)"

lemma data_ok_write:
  assumes "data_ok s" and "in_volume s c" and "k < spc s" and "length b = 512"
  shows "data_ok (ata_write (sector_of c k s) b s)" "seen (ata_write (sector_of c k s) b s) = (seen s)(sector_of c k s := b)"
    "same_rest s (ata_write (sector_of c k s) b s)"
proof -
  have g: "geometry s" and cl: "clean s" using assms(1) by (simp_all add: data_ok_def)
  note at = sector_of_at [OF g assms(2,3)]
  have ne: "sector_of c k s \<noteq> cached_nr s" using assms(1) at(3,4) by (auto simp: data_ok_def)
  note w = ata_write_seen [OF _ at(3) ne assms(4)]
  have ok: "cache_ok s" using cl by (simp add: clean_def)
  show "seen (ata_write (sector_of c k s) b s) = (seen s)(sector_of c k s := b)"
    "same_rest s (ata_write (sector_of c k s) b s)" using w ok by simp_all
  show "data_ok (ata_write (sector_of c k s) b s)"
    using w(1,3-5) [OF ok] assms(1) geometry_same [OF w(3) [OF ok]]
    by (simp add: data_ok_def clean_def same_rest_def)
qed

lemma same_rest_sector: "same_rest s t \<Longrightarrow> sector_of c k t = sector_of c k s \<and> spc t = spc s"
  by (simp add: sector_of_def cluster_sector_def spc_def same_rest_def)

text \<open>The sectors \<open>k < n\<close> of a cluster that hold data of \<open>buf\<close> from \<open>p\<close> on.\<close>

definition filled :: "u8 list \<Rightarrow> u32 \<Rightarrow> u32 \<Rightarrow> nat \<Rightarrow> nat \<Rightarrow> fatfs \<Rightarrow> fatfs \<Rightarrow> bool" where
  "filled buf sz c p n s t \<longleftrightarrow> data_ok t \<and> same_rest s t \<and>
     (\<forall>k<n. p + 512 * k < length buf \<longrightarrow> seen t (sector_of c k s) = sector_data buf sz (of_nat (p + 512 * k))) \<and>
     (\<forall>l. (\<forall>k<n. p + 512 * k < length buf \<longrightarrow> l \<noteq> sector_of c k s) \<longrightarrow> seen t l = seen s l)"

lemma sector_of_inj:
  assumes "geometry s" and "in_volume s c" and "k < spc s" and "j < spc s" and "sector_of c k s = sector_of c j s"
  shows "k = j"
  using sector_of_at(1) [OF assms(1,2,3)] sector_of_at(1) [OF assms(1,2,4)] assms(5) by (metis add_left_imp_eq)

lemma write_sectors:
  assumes ok: "data_ok s" and c: "in_volume s c" and len: "length buf = unat sz"
    and p: "p < length buf" and fit: "length buf + 512 * spc s + 512 < 2 ^ 32"
  shows "n \<le> spc s \<Longrightarrow> \<exists>t m. fold (write_sector_at buf sz c) [0..<n] (of_nat p, s) = (of_nat (p + 512 * m), t)
    \<and> m \<le> n \<and> (m < n \<longrightarrow> length buf \<le> p + 512 * m) \<and> filled buf sz c p n s t"
proof (induction n)
  case 0
  show ?case using ok by (intro exI [of _ s] exI [of _ 0]) (simp add: filled_def)
next
  case (Suc n)
  then obtain t m where t: "fold (write_sector_at buf sz c) [0..<n] (of_nat p, s) = (of_nat (p + 512 * m), t)"
    "m \<le> n" "m < n \<longrightarrow> length buf \<le> p + 512 * m" "filled buf sz c p n s t" by auto
  have f: "fold (write_sector_at buf sz c) [0..<Suc n] (of_nat p, s)
      = write_sector_at buf sz c n (of_nat (p + 512 * m), t)" using t(1) by simp
  have "p + 512 * m < 2 ^ 32" using p t(2) Suc.prems fit by simp
  then have u: "unat (of_nat (p + 512 * m) :: u32) = p + 512 * m" by (intro unat_of_nat_fits) simp
  have ge: "sz \<le> of_nat (p + 512 * m) \<longleftrightarrow> length buf \<le> p + 512 * m"
    by (simp only: word_le_nat_alt u len)
  show ?case
  proof (cases "length buf \<le> p + 512 * m")
    case True
    then have "\<not> p + 512 * n < length buf" using t(2) by simp
    then have "filled buf sz c p (Suc n) s t" using t(4) by (auto simp: filled_def less_Suc_eq)
    moreover have "write_sector_at buf sz c n (of_nat (p + 512 * m), t) = (of_nat (p + 512 * m), t)"
      using True ge by (simp only: write_sector_at_def prod.case if_True)
    ultimately show ?thesis using f t(2) True by (intro exI [of _ t] exI [of _ m]) simp
  next
    case False
    then have m: "m = n" using t(2,3) by auto
    let ?b = "sector_data buf sz (of_nat (p + 512 * n))"
    let ?u = "ata_write (sector_of c n s) ?b t"
    have r: "same_rest s t" "data_ok t" using t(4) by (simp_all add: filled_def)
    note e = same_rest_sector [OF r(1)]
    have n: "n < spc t" "in_volume t c" using Suc.prems e in_volume_same [OF r(1)] c by simp_all
    note w = data_ok_write [OF r(2) n(2,1), of ?b, unfolded conjunct1 [OF e]]
    have ne: "sector_of c k s \<noteq> sector_of c n s" if "k < n" for k
      using sector_of_inj [of s c k n] ok c that Suc.prems by (auto simp: data_ok_def)
    have "write_sector_at buf sz c n (of_nat (p + 512 * m), t) = (of_nat (p + 512 * m) + 512, ?u)"
      using False ge m conjunct1 [OF e] by (simp only: write_sector_at_def prod.case if_False)
    moreover have "of_nat (p + 512 * m) + 512 = (of_nat (p + 512 * Suc n) :: u32)" by (simp add: m)
    moreover have "filled buf sz c p (Suc n) s ?u"
      using t(4) w(1,2) same_rest_trans [OF r(1) w(3)] False ne unfolding filled_def m
      by (simp add: less_Suc_eq all_conj_distrib)
    ultimately show ?thesis using f by (intro exI [of _ ?u] exI [of _ "Suc n"]) simp
  qed
qed

text \<open>A cluster written from \<open>p\<close> on holds the data from there on, as much as fits.\<close>

lemma filled_bytes:
  assumes "filled buf sz c p (spc s) s t" and "geometry s" and "in_volume s c" and "length buf = unat sz"
    and "length buf + 512 * spc s + 512 < 2 ^ 32"
  shows "take (length buf - p) (cluster_bytes t c) = take (512 * spc s) (drop p buf)"
proof -
  have r: "same_rest s t" "data_ok t" using assms(1) by (simp_all add: filled_def)
  note e = same_rest_sector [OF r(1)]
  have "seen t (sector_of c k s)
      = take 512 (drop (512 * k) (drop p buf)) @ replicate (512 - length (drop (512 * k) (drop p buf))) 0"
    if "k < spc s" "512 * k < length (drop p buf)" for k
  proof -
    have k: "p + 512 * k < length buf" using that(2) by simp
    then have "seen t (sector_of c k s) = sector_data buf sz (of_nat (p + 512 * k))"
      using assms(1) that(1) by (simp add: filled_def)
    also have "\<dots> = take 512 (drop (p + 512 * k) buf) @ replicate (512 - length (drop (p + 512 * k) buf)) 0"
      using k assms(5) by (intro sector_data_bytes assms(4)) simp
    finally show ?thesis by (simp add: drop_drop add.commute)
  qed
  moreover have "length (seen t (sector_of c k s)) = 512" for k
    using r(2) by (simp add: data_ok_def clean_def)
  ultimately show ?thesis
    using take_concat_sectors [of "spc s" "\<lambda>k. seen t (sector_of c k s)" "drop p buf"] e
    by (simp add: cluster_bytes_def)
qed

section \<open>Clusters of a volume\<close>

lemma volume_below_end:
  assumes "geometry s" and "in_volume s c"
  shows "c < END_OF_CHAIN" "c AND 0x0FFFFFFF = c"
proof -
  let ?T = "unat (total_clusters s)" and ?D = "unat (data_start s)" and ?p = "unat (sectors_per_cluster (boot s))"
  have g: "unat (total_clusters s) + 2 < 2 ^ 32" "?D + ?T * ?p \<le> 2 ^ 28" "0 < ?p"
    using assms(1) by (simp_all add: geometry_def unat_gt_0)
  have c: "2 \<le> unat c" "unat c < ?T + 2" using assms(2) by (simp_all add: in_volume_def)
  have "unat (fat_sector c s) < ?D" using assms(1) c(2) by (simp add: geometry_def word_less_nat_alt)
  then have d: "unat c div 128 < ?D" using entry_pos(1) [OF in_volume_table [OF assms]] by simp
  have "?T * 1 \<le> ?T * ?p" using g(3) by (intro mult_le_mono2) simp
  then have "?D + ?T \<le> 2 ^ 28" using g(2) by (metis add_left_mono mult.right_neutral order_trans)
  then have s: "?D + ?T \<le> 268435456" by simp
  have u: "unat c < 0x0FFFFFF8"
  proof (rule ccontr)
    assume n: "\<not> unat c < 0x0FFFFFF8"
    then have "268435448 div 128 \<le> unat c div 128" by (intro div_le_mono) simp
    then have "2097151 < ?D" using d by simp
    then show False using s c(2) n by linarith
  qed
  then show "c < END_OF_CHAIN" by (simp add: word_less_nat_alt)
  have "c < 0x10000000" using u by (simp add: word_less_nat_alt)
  from lba28_id [OF this] show "c AND 0x0FFFFFFF = c" by (simp add: lba28_def)
qed

lemma cluster_sectors_disjoint:
  assumes "geometry s" and "in_volume s c" and "in_volume s d" and "c \<noteq> d" and "l \<in> cluster_sectors s c"
  shows "l \<notin> cluster_sectors s d"
proof -
  let ?p = "unat (sectors_per_cluster (boot s))" and ?D = "unat (data_start s)"
  have ne: "unat c - 2 \<noteq> unat d - 2"
    using assms(2-4) by (auto simp: in_volume_def word_unat_eq_iff)
  have iv: "l \<in> cluster_sectors s e \<Longrightarrow> ?D + (unat e - 2) * ?p \<le> unat l \<and> unat l < ?D + (unat e - 2) * ?p + ?p"
    if "in_volume s e" for e
    using cluster_sector_unat(1) [OF assms(1) that] by (simp add: cluster_sectors_def)
  have "a * ?p + ?p \<le> b * ?p" if "a < b" for a b :: nat
    using mult_le_mono1 [of "Suc a" b ?p] that by simp
  from this [of "unat c - 2" "unat d - 2"] this [of "unat d - 2" "unat c - 2"] ne iv [OF assms(2)] iv [OF assms(3)] assms(5)
  show ?thesis by (cases "unat c - 2 < unat d - 2") auto
qed

lemma cluster_bytes_cong:
  assumes "same_rest s t" and "geometry s" and "in_volume s c" and "\<And>l. l \<in> cluster_sectors s c \<Longrightarrow> seen t l = seen s l"
  shows "cluster_bytes t c = cluster_bytes s c"
proof -
  have "map (\<lambda>k. seen t (sector_of c k s)) [0..<spc s] = map (\<lambda>k. seen s (sector_of c k s)) [0..<spc s]"
    using sector_of_at(2) [OF assms(2,3)] assms(4) by simp
  moreover have "sector_of c k t = sector_of c k s" "spc t = spc s" for k
    using same_rest_sector [OF assms(1)] by simp_all
  ultimately show ?thesis by (simp only: cluster_bytes_def)
qed

lemma volume_entry:
  assumes "same_rest s t" and "geometry s" and "in_volume s d" and "\<And>l. l < data_start s \<Longrightarrow> seen t l = seen s l"
  shows "fat_entry t d = fat_entry s d"
proof -
  have "fat_sector d s < data_start s" using assms(2,3) by (simp add: geometry_def in_volume_def)
  then show ?thesis using assms(4) fat_sector_same [OF assms(1)] by (simp add: fat_entry_def)
qed

lemma all_free_filter:
  assumes "geometry s" and "same_rest s t" and "\<And>d. in_volume s d \<Longrightarrow> fat_entry t d = 0 \<longleftrightarrow> P d \<and> fat_entry s d = 0"
  shows "all_free t = filter P (all_free s)"
proof -
  let ?n = "unat (total_clusters s) + 2"
  have "in_volume s (of_nat i)" if "i \<in> set [2..<?n]" for i
  proof -
    have i: "2 \<le> i" "i < ?n" using that by auto
    then have "i < 2 ^ LENGTH(32)" using assms(1) by (simp add: geometry_def)
    then have "unat (of_nat i :: u32) = i" by (rule unat_of_nat_fits)
    then show ?thesis using i by (simp only: in_volume_def)
  qed
  then have v: "in_volume s d" if "d \<in> set (map of_nat [2..<?n])" for d
    using that by (metis (no_types, lifting) imageE set_map)
  have "filter (\<lambda>i. fat_entry t i = 0) (map of_nat [2..<?n]) = filter (\<lambda>i. fat_entry s i = 0 \<and> P i) (map of_nat [2..<?n])"
    by (rule filter_cong [OF refl]) (use assms(3) [OF v] in blast)
  then show ?thesis
    by (simp only: all_free_def free_clusters_def total_clusters_same [OF assms(2)] filter_filter)
qed

lemma all_free_facts:
  assumes "geometry s"
  shows "distinct (all_free s)" "f \<in> set (all_free s) \<Longrightarrow> in_volume s f \<and> fat_entry s f = 0"
proof -
  have n: "unat (total_clusters s) + 2 \<le> 2 ^ 32" using assms by (simp add: geometry_def)
  show "distinct (all_free s)" using free_clusters_distinct [OF n] by (simp add: all_free_def)
  show "f \<in> set (all_free s) \<Longrightarrow> in_volume s f \<and> fat_entry s f = 0"
    using free_clusters_in [OF _ n, of f "fat_entry s"] by (simp add: all_free_def in_volume_def)
qed

section \<open>A chain that grows\<close>

lemma extend_cached:
  assumes "fat_extend_chain p s = (s', r)" and "r \<noteq> 0x0FFFFFFF"
  shows "cached_nr s' = fat_sector p s'"
  using assms by (auto simp: fat_extend_chain_def Let_def fat_cache_flush_def cache_put_def cache_load_def
      ata_write_def fat_sector_def split: prod.splits if_splits)

lemma extend_data:
  assumes ok: "data_ok s" and p: "in_volume s p" "fat_entry s p = 0x0FFFFFFF" and free: "all_free s = f # frs"
  shows "\<exists>s'. fat_extend_chain p s = (s', f) \<and> data_ok s' \<and> same_rest s s' \<and> all_free s' = frs \<and>
    in_volume s f \<and> f \<noteq> p \<and> fat_entry s' p = f \<and> fat_entry s' f = 0x0FFFFFFF \<and>
    (\<forall>d. in_volume s d \<longrightarrow> d \<noteq> p \<longrightarrow> d \<noteq> f \<longrightarrow> fat_entry s' d = fat_entry s d) \<and>
    (\<forall>l. data_start s \<le> l \<longrightarrow> l \<notin> cluster_sectors s f \<longrightarrow> seen s' l = seen s l)"
proof -
  have g: "geometry s" and co: "cache_ok s" using ok by (simp_all add: data_ok_def clean_def)
  obtain s' r where e: "fat_extend_chain p s = (s', r)" by fastforce
  have "fat_entry s p \<noteq> 0" by (simp add: p(2))
  from extend_spec [OF co g p(1) this e] free have x: "r = f" "cache_ok s'" "same_rest s s'" "\<not> dirty s'"
    "\<forall>d. in_table s d \<longrightarrow> unat d < unat (total_clusters s) + 2 \<longrightarrow>
       fat_entry s' d = (if d = p then f else if d = f then 0x0FFFFFFF else fat_entry s d)"
    "\<forall>l. data_start s \<le> l \<longrightarrow> seen s' l = (if l \<in> cluster_sectors s f then zero_sector else seen s l)"
    by simp_all
  have f: "in_volume s f" "fat_entry s f = 0" using all_free_facts(2) [OF g, of f] free by simp_all
  have fp: "f \<noteq> p" using f(2) p(2) by auto
  have en: "fat_entry s' d = (if d = p then f else if d = f then 0x0FFFFFFF else fat_entry s d)" if "in_volume s d" for d
    using x(5) in_volume_table [OF g that] that by (simp add: in_volume_def)
  have f0: "f \<noteq> 0" using f(1) by (auto simp: in_volume_def)
  have "fat_entry s' d = 0 \<longleftrightarrow> d \<noteq> f \<and> fat_entry s d = 0" if "in_volume s d" for d
    using en [OF that] f0 p(2) by auto
  from all_free_filter [OF g x(3) this] have "all_free s' = filter (\<lambda>d. d \<noteq> f) (f # frs)"
    unfolding free by blast
  moreover have "filter (\<lambda>d. d \<noteq> f) frs = frs"
    using all_free_facts(1) [OF g] free by (auto simp: filter_id_conv)
  ultimately have af: "all_free s' = frs" by simp
  have "r \<noteq> 0x0FFFFFFF" using volume_below_end(1) [OF g f(1)] x(1) by auto
  note c = extend_cached [OF e this]
  have "fat_sector p s < data_start s" using g p(1) by (simp add: geometry_def in_volume_def)
  then have "cached_nr s' < data_start s'" using c fat_sector_same [OF x(3)] x(3) by (simp add: same_rest_def)
  then have "data_ok s'" using x(2,4) geometry_same [OF x(3)] g by (simp add: data_ok_def clean_def)
  then show ?thesis using e x(1,3,6) af f(1) fp en [OF p(1)] en [OF f(1)] en by (intro exI [of _ s']) simp
qed

section \<open>Writing over many clusters\<close>

lemma filled_volume:
  assumes "filled buf sz c p n s t" and "data_ok s" and "in_volume s c" and "n \<le> spc s"
  shows "l < data_start s \<Longrightarrow> seen t l = seen s l" "l \<notin> cluster_sectors s c \<Longrightarrow> seen t l = seen s l"
    "in_volume s d \<Longrightarrow> fat_entry t d = fat_entry s d" "all_free t = all_free s"
proof -
  have g: "geometry s" using assms(2) by (simp add: data_ok_def)
  have r: "same_rest s t" using assms(1) by (simp add: filled_def)
  have at: "data_start s \<le> sector_of c k s" "sector_of c k s \<in> cluster_sectors s c" if "k < n" for k
    using sector_of_at(2,4) [OF g assms(3), of k] that assms(4) by simp_all
  have off: "seen t l = seen s l" if "\<forall>k<n. l \<noteq> sector_of c k s" for l
    using assms(1) that unfolding filled_def by blast
  show low: "seen t l = seen s l" if "l < data_start s" for l using off [of l] at(1) that by fastforce
  show "l \<notin> cluster_sectors s c \<Longrightarrow> seen t l = seen s l" using off [of l] at(2) by blast
  show e: "fat_entry t d = fat_entry s d" if "in_volume s d" for d
    by (rule volume_entry [OF r g that low])
  from all_free_filter [OF g r, of "\<lambda>_. True"] e show "all_free t = all_free s" by simp
qed

text \<open>What a loop that filled the clusters \<open>cs\<close> leaves of the volume.\<close>

definition grown :: "u32 list \<Rightarrow> fatfs \<Rightarrow> fatfs \<Rightarrow> bool" where
  "grown cs s t \<longleftrightarrow> data_ok t \<and> same_rest s t \<and>
     (\<forall>d. in_volume s d \<longrightarrow> d \<notin> set cs \<longrightarrow> fat_entry t d = fat_entry s d) \<and>
     (\<forall>l. data_start s \<le> l \<longrightarrow> (\<forall>d\<in>set cs. l \<notin> cluster_sectors s d) \<longrightarrow> seen t l = seen s l)"

lemma grownI:
  assumes "data_ok t" and "same_rest s t" and "\<And>d. in_volume s d \<Longrightarrow> d \<notin> set cs \<Longrightarrow> fat_entry t d = fat_entry s d"
    and "\<And>l. data_start s \<le> l \<Longrightarrow> \<forall>d\<in>set cs. l \<notin> cluster_sectors s d \<Longrightarrow> seen t l = seen s l"
  shows "grown cs s t"
  using assms by (simp add: grown_def)

lemma cluster_sectors_same: "same_rest s t \<Longrightarrow> cluster_sectors t c = cluster_sectors s c"
  using cluster_sector_same [of s t c] by (simp add: cluster_sectors_def same_rest_def)

text \<open>One round of the loop that needs another cluster.\<close>

lemma write_round:
  assumes ok: "data_ok s" and c: "in_volume s c" "fat_entry s c = 0x0FFFFFFF" and free: "all_free s = f # frs"
    and len: "length buf = unat sz" and fit: "length buf + 512 * spc s + 512 < 2 ^ 32"
    and p: "p + 512 * spc s < length buf"
  shows "\<exists>t. write_from buf sz c (of_nat p) s = write_from buf sz f (of_nat (p + 512 * spc s)) t \<and>
    grown [c, f] s t \<and> all_free t = frs \<and> in_volume s f \<and> f \<noteq> c \<and> fat_entry t f = 0x0FFFFFFF \<and>
    fat_entry t c = f \<and> cluster_bytes t c = take (512 * spc s) (drop p buf)"
proof -
  have g: "geometry s" using ok by (simp add: data_ok_def)
  have pl: "p < length buf" using p by simp
  obtain t m where w: "fold (write_sector_at buf sz c) [0..<spc s] (of_nat p, s) = (of_nat (p + 512 * m), t)"
    "m \<le> spc s" "m < spc s \<longrightarrow> length buf \<le> p + 512 * m" "filled buf sz c p (spc s) s t"
    using write_sectors [OF ok c(1) len pl fit, of "spc s"] by auto
  have m: "m = spc s"
  proof (rule ccontr)
    assume "m \<noteq> spc s"
    then have "m < spc s" "length buf \<le> p + 512 * m" using w(2,3) by simp_all
    then show False using p by (meson add_left_mono leD less_imp_le_nat mult_le_mono2 order_trans)
  qed
  note fv = filled_volume [OF w(4) ok c(1) order_refl]
  have rt: "same_rest s t" "data_ok t" using w(4) by (simp_all add: filled_def)
  have ct: "in_volume t c" "fat_entry t c = 0x0FFFFFFF" "all_free t = f # frs"
    using c fv(3,4) free in_volume_same [OF rt(1)] by simp_all
  obtain u where u: "fat_extend_chain c t = (u, f)" "data_ok u" "same_rest t u" "all_free u = frs"
    "in_volume t f" "f \<noteq> c" "fat_entry u c = f" "fat_entry u f = 0x0FFFFFFF"
    "\<forall>d. in_volume t d \<longrightarrow> d \<noteq> c \<longrightarrow> d \<noteq> f \<longrightarrow> fat_entry u d = fat_entry t d"
    "\<forall>l. data_start t \<le> l \<longrightarrow> l \<notin> cluster_sectors t f \<longrightarrow> seen u l = seen t l"
    using extend_data [OF rt(2) ct] by blast
  have ru: "same_rest s u" by (rule same_rest_trans [OF rt(1) u(3)])
  have "p + 512 * spc s < 2 ^ 32" using p fit by simp
  then have uo: "unat (of_nat (p + 512 * spc s) :: u32) = p + 512 * spc s" by (intro unat_of_nat_fits) simp
  have lt: "of_nat (p + 512 * spc s) < sz" using p by (simp only: word_less_nat_alt uo len)
  have "write_from buf sz c (of_nat p) s = write_from buf sz f (of_nat (p + 512 * spc s)) u"
    by (subst write_from.simps) (simp only: volume_below_end(1) [OF g c(1)] if_True w(1) m prod.case lt u(1) Let_def)
  moreover have vf: "in_volume s f" using u(5) in_volume_same [OF rt(1)] by simp
  have same: "seen u l = seen t l" if "data_start s \<le> l" "l \<notin> cluster_sectors s f" for l
    using u(10) that rt(1) cluster_sectors_same [OF rt(1)] by (simp add: same_rest_def)
  have "grown [c, f] s u"
  proof (rule grownI [OF u(2) ru])
    show "fat_entry u d = fat_entry s d" if "in_volume s d" "d \<notin> set [c, f]" for d
      using u(9) that in_volume_same [OF rt(1)] fv(3) [OF that(1)] by simp
    show "seen u l = seen s l" if "data_start s \<le> l" "\<forall>d\<in>set [c, f]. l \<notin> cluster_sectors s d" for l
      using same [of l] that fv(2) [of l] by simp
  qed
  moreover have "cluster_bytes u c = take (512 * spc s) (drop p buf)"
  proof -
    have fb: "take (length buf - p) (cluster_bytes t c) = take (512 * spc s) (drop p buf)"
      by (rule filled_bytes [OF w(4) g c(1) len fit])
    have "length (cluster_bytes t c) = 512 * spc s"
      using length_cluster_bytes [of t c] rt(2) same_rest_sector [OF rt(1)] by (simp add: data_ok_def clean_def)
    then have "cluster_bytes t c = take (512 * spc s) (drop p buf)" using fb p by simp
    moreover have "cluster_bytes u c = cluster_bytes t c"
    proof (rule cluster_bytes_cong [OF u(3)])
      show "geometry t" "in_volume t c" using rt(2) ct(1) by (simp_all add: data_ok_def)
      fix l assume l: "l \<in> cluster_sectors t c"
      then have ls: "l \<in> cluster_sectors s c" using cluster_sectors_same [OF rt(1)] by simp
      then have "l \<notin> cluster_sectors s f"
        using cluster_sectors_disjoint [OF g c(1) vf u(6) [symmetric]] by blast
      then show "seen u l = seen t l" using same cluster_sectors_data(1) [OF g c(1) ls] by blast
    qed
    ultimately show ?thesis by simp
  qed
  ultimately show ?thesis using u(4,6,7,8) vf by blast
qed

text \<open>The last round.\<close>

lemma write_last:
  assumes ok: "data_ok s" and c: "in_volume s c" and len: "length buf = unat sz"
    and fit: "length buf + 512 * spc s + 512 < 2 ^ 32" and p: "p < length buf" "length buf \<le> p + 512 * spc s"
  shows "\<exists>t. write_from buf sz c (of_nat p) s = Some t \<and> grown [c] s t \<and> fat_entry t c = fat_entry s c \<and>
    take (length buf - p) (cluster_bytes t c) = drop p buf"
proof -
  have g: "geometry s" using ok by (simp add: data_ok_def)
  obtain t m where w: "fold (write_sector_at buf sz c) [0..<spc s] (of_nat p, s) = (of_nat (p + 512 * m), t)"
    "m \<le> spc s" "m < spc s \<longrightarrow> length buf \<le> p + 512 * m" "filled buf sz c p (spc s) s t"
    using write_sectors [OF ok c len p(1) fit, of "spc s"] by auto
  have m: "length buf \<le> p + 512 * m" using w(2,3) p(2) by (cases "m = spc s") auto
  have "512 * m \<le> 512 * spc s" using w(2) by simp
  then have "p + 512 * m < 2 ^ 32" using p(1) fit by linarith
  then have "unat (of_nat (p + 512 * m) :: u32) = p + 512 * m" by (intro unat_of_nat_fits) simp
  then have nl: "\<not> of_nat (p + 512 * m) < sz" using m by (simp only: word_less_nat_alt len not_less)
  have "write_from buf sz c (of_nat p) s = Some t"
    by (subst write_from.simps) (simp only: volume_below_end(1) [OF g c] if_True w(1) prod.case nl if_False Let_def)
  note fv = filled_volume [OF w(4) ok c order_refl]
  have rt: "same_rest s t" "data_ok t" using w(4) by (simp_all add: filled_def)
  have "grown [c] s t" by (rule grownI [OF rt(2,1)]) (use fv(2,3) in simp_all)
  moreover have "take (length buf - p) (cluster_bytes t c) = drop p buf"
    using filled_bytes [OF w(4) g c len fit] p(2) by simp
  ultimately show ?thesis using \<open>write_from buf sz c (of_nat p) s = Some t\<close> fv(3) [OF c] by blast
qed

lemma grown_trans:
  assumes "grown as s u" and "grown bs u t" and "set cs = set as \<union> set bs"
  shows "grown cs s t"
proof -
  have r: "same_rest s u" "same_rest u t" using assms(1,2) by (simp_all add: grown_def)
  show ?thesis
  proof (rule grownI [OF _ same_rest_trans [OF r]])
    show "data_ok t" using assms(2) by (simp add: grown_def)
    show "fat_entry t d = fat_entry s d" if "in_volume s d" "d \<notin> set cs" for d
      using assms that in_volume_same [OF r(1)] by (simp add: grown_def)
    show "seen t l = seen s l" if "data_start s \<le> l" "\<forall>d\<in>set cs. l \<notin> cluster_sectors s d" for l
      using assms that cluster_sectors_same [OF r(1)] r(1) by (simp add: grown_def same_rest_def)
  qed
qed

lemma grown_bytes:
  assumes "grown cs s t" and "geometry s" and "in_volume s c" and "c \<notin> set cs" and "\<forall>d\<in>set cs. in_volume s d"
  shows "cluster_bytes t c = cluster_bytes s c"
proof (rule cluster_bytes_cong [OF _ assms(2,3)])
  show "same_rest s t" using assms(1) by (simp add: grown_def)
  fix l assume l: "l \<in> cluster_sectors s c"
  then have "\<forall>d\<in>set cs. l \<notin> cluster_sectors s d"
    using cluster_sectors_disjoint [OF assms(2,3)] assms(4,5) by metis
  then show "seen t l = seen s l"
    using assms(1) cluster_sectors_data(1) [OF assms(2,3) l] by (simp add: grown_def)
qed

lemma write_from_data:
  assumes len: "length buf = unat sz"
  shows "data_ok s \<Longrightarrow> in_volume s c \<Longrightarrow> fat_entry s c = 0x0FFFFFFF \<Longrightarrow>
    length buf + 512 * spc s + 512 < 2 ^ 32 \<Longrightarrow> p + 512 * spc s * n < length buf \<Longrightarrow>
    length buf \<le> p + 512 * spc s * Suc n \<Longrightarrow> n \<le> length (all_free s) \<Longrightarrow>
    \<exists>t. write_from buf sz c (of_nat p) s = Some t \<and> grown (c # take n (all_free s)) s t \<and>
      cluster_chain (fat_entry t) c (c # take n (all_free s)) \<and>
      take (length buf - p) (concat (map (cluster_bytes t) (c # take n (all_free s)))) = drop p buf"
proof (induction n arbitrary: s c p)
  case 0
  have g: "geometry s" using 0(1) by (simp add: data_ok_def)
  have p: "p < length buf" "length buf \<le> p + 512 * spc s" using 0 by simp_all
  from write_last [OF 0(1,2) len 0(4) p] 0(3) volume_below_end(1) [OF g 0(2)] show ?case by auto
next
  case (Suc n)
  let ?sp = "512 * spc s"
  have g: "geometry s" using Suc.prems(1) by (simp add: data_ok_def)
  obtain f frs where free: "all_free s = f # frs" using Suc.prems(7) by (cases "all_free s") auto
  have q: "p + ?sp + ?sp * n < length buf" "length buf \<le> p + ?sp + ?sp * Suc n"
    using Suc.prems(5,6) by (simp_all add: add.assoc)
  then have p: "p + ?sp < length buf" by simp
  obtain u where u: "write_from buf sz c (of_nat p) s = write_from buf sz f (of_nat (p + ?sp)) u"
    "grown [c, f] s u" "all_free u = frs" "in_volume s f" "f \<noteq> c" "fat_entry u f = 0x0FFFFFFF"
    "fat_entry u c = f" "cluster_bytes u c = take ?sp (drop p buf)"
    using write_round [OF Suc.prems(1-3) free len Suc.prems(4) p] by blast
  have du: "data_ok u" "same_rest s u" using u(2) by (simp_all add: grown_def)
  have gu: "geometry u" using du(1) by (simp add: data_ok_def)
  have vu: "in_volume u d = in_volume s d" for d by (rule in_volume_same [OF du(2)])
  have sp: "spc u = spc s" using same_rest_sector [OF du(2)] by simp
  let ?cs = "f # take n frs"
  obtain t where t: "write_from buf sz f (of_nat (p + ?sp)) u = Some t" "grown ?cs u t"
    "cluster_chain (fat_entry t) f ?cs"
    "take (length buf - (p + ?sp)) (concat (map (cluster_bytes t) ?cs)) = drop (p + ?sp) buf"
    using Suc.IH [of u f "p + ?sp", unfolded sp u(3) vu] du(1) u(4,6) Suc.prems(4,7) q free by auto
  have fv: "\<forall>d\<in>set ?cs. in_volume u d \<and> d \<noteq> c"
  proof -
    have "in_volume u d \<and> d \<noteq> c" if "d \<in> set frs" for d
      using all_free_facts(2) [OF gu, of d] that u(3,4,7) by (auto simp: in_volume_def)
    then show ?thesis using u(4,5) vu by (auto dest: in_set_takeD)
  qed
  then have c: "c \<notin> set ?cs" by blast
  have ec: "fat_entry t c = f" using t(2) c Suc.prems(2) vu u(7) by (simp add: grown_def)
  have "grown (c # ?cs) s t" by (rule grown_trans [OF u(2) t(2)]) auto
  moreover have "cluster_chain (fat_entry t) c (c # ?cs)"
    using t(3) ec volume_below_end [OF g u(4)] volume_below_end(1) [OF g Suc.prems(2)] by simp
  moreover have "take (length buf - p) (concat (map (cluster_bytes t) (c # ?cs))) = drop p buf"
  proof -
    have "cluster_bytes t c = take ?sp (drop p buf)"
      using grown_bytes [OF t(2) gu _ c] Suc.prems(2) vu fv u(8) by auto
    moreover have "length (take ?sp (drop p buf)) = ?sp" using p by simp
    moreover have "length buf - p - ?sp = length buf - (p + ?sp)" by simp
    moreover have "take ?sp (drop p buf) @ drop (p + ?sp) buf = drop p buf"
      by (metis append_take_drop_id drop_drop add.commute)
    ultimately show ?thesis using t(4) p by simp
  qed
  ultimately show ?case using u(1) t(1) free by auto
qed

section \<open>Directories under writes\<close>

lemma find_same: "(\<And>x. x \<in> set xs \<Longrightarrow> P x = Q x) \<Longrightarrow> find P xs = find Q xs"
  by (rule find_cong [OF refl])

lemma find_in_cluster_hit:
  assumes "find_in_cluster P c s = Some (l, i)"
  obtains k where "k < spc s" "l = sector_of c k s" "find_entry P (ata_read l s) = Some i" "i < 16"
    "P (read_entry (ata_read l s) i)"
proof -
  obtain k where k: "find (\<lambda>k. find_entry P (ata_read (sector_of c k s) s) \<noteq> None) [0..<spc s] = Some k"
    "l = sector_of c k s" "find_entry P (ata_read l s) = Some i"
    using assms by (auto simp: find_in_cluster_def split: option.splits)
  have "k < spc s" using k(1) by (auto simp: find_Some_iff)
  moreover have "i < 16 \<and> P (read_entry (ata_read l s) i)" using k(3) by (auto simp: find_entry_def find_Some_iff)
  ultimately show ?thesis using that k by blast
qed

lemma find_in_cluster_cong:
  assumes "same_rest s t" and "\<And>k. k < spc s \<Longrightarrow> find_entry P (ata_read (sector_of c k s) t) = find_entry P (ata_read (sector_of c k s) s)"
  shows "find_in_cluster P c t = find_in_cluster P c s"
proof -
  have e: "sector_of c k t = sector_of c k s" "spc t = spc s" for k
    using same_rest_sector [OF assms(1)] by simp_all
  have "find (\<lambda>k. find_entry P (ata_read (sector_of c k s) t) \<noteq> None) [0..<spc s]
      = find (\<lambda>k. find_entry P (ata_read (sector_of c k s) s) \<noteq> None) [0..<spc s]"
    by (rule find_same) (simp add: assms(2))
  moreover have "find Q [0..<spc s] = Some k \<Longrightarrow> k < spc s" for Q k by (auto simp: find_Some_iff)
  ultimately show ?thesis using assms(2) unfolding find_in_cluster_def e
    by (auto split: option.split)
qed

lemma find_entry_write:
  assumes "entry_wf e" and "length b = 512" and "i < 16" and "P e = P (read_entry b i)"
  shows "find_entry P (write_entry i e b) = find_entry P b"
  unfolding find_entry_def
proof (rule find_same)
  fix j assume "j \<in> set [0..<16 :: nat]"
  then have j: "j < 16" by simp
  show "P (read_entry (write_entry i e b) j) = P (read_entry b j)"
  proof (cases "j = i")
    case True
    then show ?thesis using read_write_entry [OF assms(1)] assms(2-4) by simp
  next
    case False
    then show ?thesis using read_write_entry_other [OF assms(1)] assms(2,3) j by simp
  qed
qed

text \<open>A changed entry of the same name: the directory's other entries are found as before.\<close>

lemma rewritten_entry:
  assumes ok: "data_ok s" and d: "in_volume s d" and hit: "find_in_cluster P d s = Some (l, i)"
    and e: "entry_wf e" "P e" and t: "data_ok t" "same_rest s t"
    and seen: "\<forall>m\<in>cluster_sectors s d. seen t m = ((seen s)(l := write_entry i e (ata_read l s))) m"
  shows "find_in_cluster P d t = Some (l, i)" "read_entry (ata_read l t) i = e"
proof -
  have g: "geometry s" and cl: "clean s" and ct: "clean t" using ok t(1) by (simp_all add: data_ok_def)
  obtain k where k: "k < spc s" "l = sector_of d k s" "find_entry P (ata_read l s) = Some i" "i < 16"
    "P (read_entry (ata_read l s) i)" by (rule find_in_cluster_hit [OF hit])
  note at = sector_of_at [OF g d]
  have rd: "ata_read (sector_of d j s) s = seen s (sector_of d j s)" "ata_read (sector_of d j s) t = seen t (sector_of d j s)"
    if "j < spc s" for j using clean_read [OF cl at(3) [OF that]] clean_read [OF ct at(3) [OF that]] by simp_all
  have l: "ata_read l t = write_entry i e (ata_read l s)" using rd(2) [OF k(1)] seen at(2) [OF k(1)] k(2) by simp
  have len: "length (ata_read l s) = 512" using rd(1) [OF k(1)] cl k(2) by (simp add: clean_def)
  show "read_entry (ata_read l t) i = e" using read_write_entry [OF e(1), of i "ata_read l s"] len k(4) l by simp
  have "find_entry P (ata_read (sector_of d j s) t) = find_entry P (ata_read (sector_of d j s) s)" if j: "j < spc s" for j
  proof (cases "sector_of d j s = l")
    case True
    then show ?thesis using find_entry_write [OF e(1) len k(4)] e(2) k(5) l by simp
  next
    case False
    then show ?thesis using rd [OF j] seen at(2) [OF j] by simp
  qed
  from find_in_cluster_cong [OF t(2) this] show "find_in_cluster P d t = Some (l, i)" using hit by simp
qed

section \<open>Writing and reading back\<close>

text \<open>A file as it was just created: found in the working directory, with one cluster of its own.\<close>

definition fresh_file :: "u8 list \<Rightarrow> u32 \<Rightarrow> nat \<Rightarrow> u32 \<Rightarrow> fatfs \<Rightarrow> bool" where
  "fresh_file name l i c s \<longleftrightarrow> find_in_cluster (named name) (cwd_cluster s) s = Some (l, i) \<and>
     entry_cluster (read_entry (ata_read l s) i) = c \<and> in_volume s c \<and> c \<noteq> cwd_cluster s \<and>
     fat_entry s c = 0x0FFFFFFF"

definition dir_ok :: "fatfs \<Rightarrow> bool" where
  "dir_ok s \<longleftrightarrow> in_volume s (cwd_cluster s) \<and> fat_entry s (cwd_cluster s) \<noteq> 0"

lemma write_data_fresh:
  assumes ok: "data_ok s" and dir: "dir_ok s" and fresh: "fresh_file name l i c s"
    and len: "length buf = unat sz" "buf \<noteq> []" and fit: "length buf + 512 * spc s + 512 < 2 ^ 32"
    and n: "n = (length buf - 1) div (512 * spc s)" "n \<le> length (all_free s)"
  shows "\<exists>t. fat_write_data name buf sz s = Some t \<and> data_ok t \<and> same_rest s t \<and>
    (\<forall>nm. find_in_cluster (named nm) (cwd_cluster s) s = Some (l, i) \<longrightarrow>
       find_in_cluster (named nm) (cwd_cluster t) t = Some (l, i)) \<and>
    read_entry (ata_read l t) i = (read_entry (ata_read l s) i)\<lparr>de_size := sz\<rparr> \<and>
    cluster_chain (fat_entry t) c (c # take n (all_free s)) \<and>
    take (length buf) (concat (map (cluster_bytes t) (c # take n (all_free s)))) = buf \<and>
    (\<forall>d. in_volume s d \<longrightarrow> d \<notin> set (c # take n (all_free s)) \<longrightarrow> fat_entry t d = fat_entry s d \<and>
       (d \<noteq> cwd_cluster s \<longrightarrow> cluster_bytes t d = cluster_bytes s d))"
proof -
  let ?d = "cwd_cluster s" and ?cs = "c # take n (all_free s)"
  have g: "geometry s" and cl: "clean s" using ok by (simp_all add: data_ok_def)
  have d: "in_volume s ?d" "fat_entry s ?d \<noteq> 0" using dir by (simp_all add: dir_ok_def)
  note f = fresh [unfolded fresh_file_def]
  have hit: "find_in_cluster (named name) ?d s = Some (l, i)" using f by blast
  obtain k where k: "k < spc s" "l = sector_of ?d k s" "i < 16" "named name (read_entry (ata_read l s) i)"
    by (rule find_in_cluster_hit [OF hit])
  note at = sector_of_at [OF g d(1) k(1), folded k(2)]
  have rd: "ata_read l s = seen s l" by (rule clean_read [OF cl at(3)])
  have lb: "length (ata_read l s) = 512" using rd cl by (simp add: clean_def)
  define e where "e = (read_entry (ata_read l s) i)\<lparr>de_size := sz\<rparr>"
  have wf: "entry_wf e" using read_entry_wf [of i "ata_read l s"] lb k(3) by (simp add: e_def entry_wf_def)
  have ec: "entry_cluster e = c" using f by (simp add: e_def entry_cluster_def)
  define s1 where "s1 = ata_write l (write_entry i e (ata_read l s)) s"
  have "length (write_entry i e (ata_read l s)) = 512" using lb k(3) length_write_entry [OF wf, of i "ata_read l s"] by simp
  note w = data_ok_write [OF ok d(1) k(1) this, folded k(2), folded s1_def]
  have low: "seen s1 m = seen s m" if "m \<notin> cluster_sectors s ?d" for m using w(2) at(2) that by auto
  have fe: "fat_entry s1 x = fat_entry s x" if "in_volume s x" for x
    by (rule volume_entry [OF w(3) g that]) (use w(2) at(4) in auto)
  have af: "all_free s1 = all_free s" using all_free_filter [OF g w(3), of "\<lambda>_. True"] fe by simp
  have v1: "in_volume s1 x = in_volume s x" for x by (rule in_volume_same [OF w(3)])
  have sp: "spc s1 = spc s" "0 < spc s" using same_rest_sector [OF w(3)] k(1) by simp_all
  let ?q = "512 * spc s"
  have "n * ?q \<le> length buf - 1" unfolding n(1) by (rule div_times_less_eq_dividend)
  moreover have "?q * n = n * ?q" "0 < length buf" using len(2) by simp_all
  ultimately have n1: "0 + ?q * n < length buf" by linarith
  have "length buf - 1 < ?q * Suc n" using sp(2) n(1) by (metis dividend_less_div_times mult.commute mult_Suc_right add.commute mult_pos_pos zero_less_numeral)
  then have n2: "length buf \<le> 0 + ?q * Suc n" by simp
  obtain t where t: "write_from buf sz c 0 s1 = Some t" "grown ?cs s1 t" "cluster_chain (fat_entry t) c ?cs"
    "take (length buf) (concat (map (cluster_bytes t) ?cs)) = buf"
    using write_from_data [OF len(1) w(1), of c 0 n, unfolded sp(1) af v1] fe f fit n1 n2 n(2) by auto
  have wr: "fat_write_data name buf sz s = Some t"
  proof -
    have "search_chain (named name) ?d s = Some (s, Some (l, i))" by (subst search_chain.simps) (simp add: hit)
    then show ?thesis using t(1) ec by (simp add: fat_write_data_def Let_def e_def s1_def)
  qed
  have rt: "data_ok t" "same_rest s t"
    using t(2) same_rest_trans [OF w(3)] by (simp_all add: grown_def)
  have cs: "\<forall>x\<in>set ?cs. in_volume s x \<and> x \<noteq> ?d"
    using f all_free_facts(2) [OF g] d(2) by (auto dest: in_set_takeD)
  have "seen t m = seen s1 m" if "m \<in> cluster_sectors s ?d" for m
  proof -
    have "\<forall>x\<in>set ?cs. m \<notin> cluster_sectors s1 x"
      using cluster_sectors_disjoint [OF g d(1) _ _ that] cs cluster_sectors_same [OF w(3)] by metis
    then show ?thesis using t(2) cluster_sectors_data(1) [OF g d(1) that] w(3) by (simp add: grown_def same_rest_def)
  qed
  then have sec: "\<forall>m\<in>cluster_sectors s ?d. seen t m = ((seen s)(l := write_entry i e (ata_read l s))) m"
    using w(2) by simp
  have dirs: "find_in_cluster (named nm) ?d t = Some (l, i)" "read_entry (ata_read l t) i = e"
    if h: "find_in_cluster (named nm) ?d s = Some (l, i)" for nm
  proof -
    have "named nm (read_entry (ata_read l s) i)" by (rule find_in_cluster_hit [OF h])
    then have "named nm e" by (simp add: e_def named_def)
    from rewritten_entry [OF ok d(1) h wf this rt sec]
    show "find_in_cluster (named nm) ?d t = Some (l, i)" "read_entry (ata_read l t) i = e" .
  qed
  have other: "fat_entry t x = fat_entry s x \<and> (x \<noteq> ?d \<longrightarrow> cluster_bytes t x = cluster_bytes s x)"
    if x: "in_volume s x" "x \<notin> set ?cs" for x
  proof (intro conjI impI)
    show "fat_entry t x = fat_entry s x" using t(2) x v1 fe by (simp add: grown_def)
    assume xd: "x \<noteq> ?d"
    have "cluster_bytes t x = cluster_bytes s1 x"
      by (rule grown_bytes [OF t(2)]) (use w(1) x v1 cs in \<open>simp_all add: data_ok_def\<close>)
    also have "\<dots> = cluster_bytes s x"
      by (rule cluster_bytes_cong [OF w(3) g x(1)])
        (use low cluster_sectors_disjoint [OF g x(1) d(1) xd] in blast)
    finally show "cluster_bytes t x = cluster_bytes s x" .
  qed
  have "cwd_cluster t = ?d" using rt(2) by (simp add: same_rest_def)
  then show ?thesis using wr rt dirs(1) dirs(2) [OF hit] t(3,4) other unfolding e_def by auto
qed

section \<open>Creating a file\<close>

text \<open>The table operations leave a sector of the table in the cache.\<close>

definition cache_low :: "fatfs \<Rightarrow> bool" where
  "cache_low s \<longleftrightarrow> cached_nr s < data_start s \<or> 0x10000000 \<le> cached_nr s"

lemma cache_load_low:
  assumes "geometry s" and "unat c < unat (total_clusters s) + 2"
  shows "cached_nr (cache_load (fat_sector c s) s) < data_start s"
proof -
  have "cached_nr (cache_load (fat_sector c s) s) = fat_sector c s"
    by (simp add: cache_load_def Let_def)
  then show ?thesis using assms by (simp add: geometry_def)
qed

lemma next_data:
  assumes "data_ok s" and "in_volume s c" and "fat_next_cluster c s = (s', n)"
  shows "data_ok s'" "same_rest s s'" "seen s' = seen s" "n = fat_entry s c AND 0x0FFFFFFF"
proof -
  have g: "geometry s" and cl: "clean s" using assms(1) by (simp_all add: data_ok_def)
  note nx = next_cluster_seen [OF _ in_volume_table [OF g assms(2)] assms(3)]
  show r: "same_rest s s'" "seen s' = seen s" "n = fat_entry s c AND 0x0FFFFFFF"
    using nx cl by (simp_all add: clean_def)
  have "cached_nr s' < data_start s"
    using cache_load_low [OF g, of c] assms(2,3) by (auto simp: fat_next_cluster_def Let_def in_volume_def)
  then show "data_ok s'" using nx cl geometry_same [OF r(1)] g r(1)
    by (auto simp: data_ok_def clean_def same_rest_def)
qed

lemma cache_load_rest: "data_start (cache_load n s) = data_start s" "boot (cache_load n s) = boot s"
  "fat_start (cache_load n s) = fat_start s"
  by (simp_all add: cache_load_def fat_cache_flush_def ata_write_def Let_def)

text \<open>What the loop of the allocation keeps besides its invariant.\<close>

definition low_inv :: "fatfs \<Rightarrow> fatfs \<times> u32 \<times> u32 \<times> u32 \<Rightarrow> bool" where
  "low_inv s0 = (\<lambda>(s, count, prev, first). cache_low s \<and> data_start s = data_start s0 \<and> boot s = boot s0 \<and>
     fat_start s = fat_start s0 \<and> (prev \<noteq> 0 \<longrightarrow> unat prev < unat (total_clusters s0) + 2))"

lemma low_same:
  assumes "data_start s = data_start s0" and "boot s = boot s0" and "fat_start s = fat_start s0"
    and "geometry s0" and "unat c < unat (total_clusters s0) + 2"
  shows "cache_low (cache_load (fat_sector c s) s)"
proof -
  have "fat_sector c s = fat_sector c s0" using assms(3) by (simp add: fat_sector_def)
  moreover have "fat_sector c s0 < data_start s0" using assms(4,5) by (simp add: geometry_def)
  moreover have "cached_nr (cache_load (fat_sector c s) s) = fat_sector c s"
    by (simp add: cache_load_def Let_def)
  ultimately have "cached_nr (cache_load (fat_sector c s) s) < data_start s" using assms(1) by simp
  then show ?thesis by (simp add: cache_low_def cache_load_rest)
qed

lemma alloc_round_low:
  assumes g: "geometry s0" and w: "unat w < unat (total_clusters s0) + 2" and inv: "low_inv s0 st"
  shows "low_inv s0 (alloc_round w st)"
proof -
  obtain s count prev first where st: "st = (s, count, prev, first)" by (cases st)
  note i = inv [unfolded st low_inv_def split]
  let ?l = "cache_load (fat_sector w s) s"
  have l: "cache_low ?l" using i by (intro low_same [OF _ _ _ g w]) simp_all
  have put: "cache_low (cache_put a v t) = cache_low t" "data_start (cache_put a v t) = data_start t"
    "boot (cache_put a v t) = boot t" "fat_start (cache_put a v t) = fat_start t" for a v t
    by (simp_all add: cache_put_def cache_low_def)
  have p: "cache_low (cache_load (fat_sector prev t) t)"
    if "data_start t = data_start s0" "boot t = boot s0" "fat_start t = fat_start s0" "prev \<noteq> 0" for t
    using i that by (intro low_same [OF _ _ _ g]) simp_all
  show ?thesis using i l p w unfolding st
    by (auto simp: alloc_round_def low_inv_def Let_def put cache_load_rest)
qed

lemma alloc_data:
  assumes ok: "data_ok s" and free: "all_free s = f # frs" and al: "fat_alloc_cluster 1 s = (s', r)"
  shows "r = f" "data_ok s'" "same_rest s s'" "in_volume s d \<Longrightarrow> fat_entry s' d = (if d = f then 0x0FFFFFFF else fat_entry s d)"
    "data_start s \<le> l \<Longrightarrow> seen s' l = seen s l" "all_free s' = frs"
proof -
  have g: "geometry s" and cl: "clean s" using ok by (simp_all add: data_ok_def)
  have co: "cache_ok s" using cl by (simp add: clean_def)
  have "[f] = take (wanted 1 s) (all_free s)" by (simp add: wanted_1 [OF g] free)
  note a = alloc_spec [OF co g al this]
  show "r = f" "same_rest s s'" "data_start s \<le> l \<Longrightarrow> seen s' l = seen s l" using a(3,4,6) by simp_all
  have en: "fat_entry s' d = (if d = f then 0x0FFFFFFF else fat_entry s d)" if "in_volume s d" for d
    using a(5) [OF in_volume_table [OF g that]] by (simp add: linked_def)
  then show "in_volume s d \<Longrightarrow> fat_entry s' d = (if d = f then 0x0FFFFFFF else fat_entry s d)" .
  have "fat_entry s' d = 0 \<longleftrightarrow> d \<noteq> f \<and> fat_entry s d = 0" if "in_volume s d" for d using en [OF that] by simp
  from all_free_filter [OF g a(3) this] have "all_free s' = filter (\<lambda>d. d \<noteq> f) (f # frs)" unfolding free by blast
  then show "all_free s' = frs" using all_free_facts(1) [OF g] free by (auto simp: filter_id_conv)
  have tot: "unat (total_clusters s + 2) = unat (total_clusters s) + 2"
    using g unat_add_fits [of "total_clusters s" 2] by (simp add: geometry_def)
  have low: "low_inv s (for_range 2 (total_clusters s + 2) alloc_round (s, count, 0, 0))" for count
  proof (rule for_range_keeps)
    show "low_inv s (s, count, 0, 0)" using ok by (simp add: low_inv_def data_ok_def cache_low_def)
    fix w :: u32 and st
    assume "w < total_clusters s + 2" and i: "low_inv s st"
    then have "unat w < unat (total_clusters s) + 2" by (simp add: word_less_nat_alt tot)
    then show "low_inv s (alloc_round w st)" using i by (rule alloc_round_low [OF g])
  qed
  obtain count s1 n p where "for_range 2 (total_clusters s + 2) alloc_round (s, count, 0, 0) = (s1, n, p, r)"
    and s': "s' = fat_cache_flush s1"
    using al by (auto simp: fat_alloc_cluster_def Let_def split: prod.splits)
  then have "cache_low s1" using low [of count] by (simp add: low_inv_def)
  then have "cache_low s'" by (simp add: s' cache_low_def fat_cache_flush_def ata_write_def)
  then show "data_ok s'" using a(1,2) geometry_same [OF a(3)] g by (simp add: data_ok_def clean_def cache_low_def)
qed

lemma find_in_cluster_None:
  assumes "find_in_cluster P c s = None" and "k < spc s"
  shows "find_entry P (ata_read (sector_of c k s) s) = None"
proof (cases "find (\<lambda>k. find_entry P (ata_read (sector_of c k s) s) \<noteq> None) [0..<spc s]")
  case None
  then show ?thesis using assms(2) unfolding find_None_iff by auto
next
  case (Some j)
  then have "find_entry P (ata_read (sector_of c j s) s) \<noteq> None" unfolding find_Some_iff by auto
  then show ?thesis using assms(1) Some by (auto simp: find_in_cluster_def)
qed

text \<open>The only entry of a name, in one slot of the directory's cluster.\<close>

lemma placed_entry:
  assumes ok: "data_ok s" and d: "in_volume s d" and none: "find_in_cluster P d s = None"
    and k: "k < spc s" "i < 16" and e: "entry_wf e" "P e" and t: "data_ok t" "same_rest s t"
    and seen: "\<forall>m\<in>cluster_sectors s d.
      seen t m = ((seen s)(sector_of d k s := write_entry i e (seen s (sector_of d k s)))) m"
  shows "find_in_cluster P d t = Some (sector_of d k s, i)" "read_entry (ata_read (sector_of d k s) t) i = e"
proof -
  have g: "geometry s" and cl: "clean s" and ct: "clean t" using ok t(1) by (simp_all add: data_ok_def)
  note at = sector_of_at [OF g d]
  have rs: "ata_read (sector_of d j s) s = seen s (sector_of d j s)" if "j < spc s" for j
    using clean_read [OF cl at(3) [OF that]] .
  have rt: "ata_read (sector_of d j s) t = ((seen s)(sector_of d k s := write_entry i e (seen s (sector_of d k s)))) (sector_of d j s)"
    if "j < spc s" for j using clean_read [OF ct at(3) [OF that]] seen at(2) [OF that] by simp
  have len: "length (seen s l) = 512" for l using cl by (simp add: clean_def)
  have no: "find_entry P (seen s (sector_of d j s)) = None" if "j < spc s" for j
    using find_in_cluster_None [OF none that] rs [OF that] by simp
  have hit: "find_entry P (write_entry i e (seen s (sector_of d k s))) = Some i"
  proof -
    have "P (read_entry (write_entry i e (seen s (sector_of d k s))) j) = (j = i)" if "j < 16" for j
    proof (cases "j = i")
      case True
      then show ?thesis using read_write_entry [OF e(1), of i "seen s (sector_of d k s)"] len k(2) e(2) by simp
    next
      case False
      then have "read_entry (write_entry i e (seen s (sector_of d k s))) j = read_entry (seen s (sector_of d k s)) j"
        using read_write_entry_other [OF e(1), of i "seen s (sector_of d k s)" j] len k(2) that by simp
      then show ?thesis using no [OF k(1)] that False by (simp add: find_entry_def find_None_iff)
    qed
    then show ?thesis using k(2) unfolding find_entry_def find_Some_iff by (intro exI [of _ i]) auto
  qed
  have q: "find_entry P (ata_read (sector_of d j s) t) = (if j = k then Some i else None)" if "j < spc s" for j
    using rt [OF that] hit no [OF that] sector_of_inj [OF g d that k(1)] by auto
  have "find (\<lambda>j. find_entry P (ata_read (sector_of d j s) t) \<noteq> None) [0..<spc s] = Some k"
    unfolding find_Some_iff using k(1) q by (intro exI [of _ k]) auto
  then show "find_in_cluster P d t = Some (sector_of d k s, i)"
    using same_rest_sector [OF t(2)] q [OF k(1)] by (simp add: find_in_cluster_def)
  show "read_entry (ata_read (sector_of d k s) t) i = e"
    using rt [OF k(1)] read_write_entry [OF e(1), of i "seen s (sector_of d k s)"] len k(2) by simp
qed

lemma no_name_not_taken:
  assumes ok: "data_ok s" and d: "in_volume s d" and none: "find_in_cluster (named name) d s = None"
  shows "\<not> taken name (sector_entries (ata_read (cluster_sector d s) s))"
proof -
  have "0 < spc s" using ok by (simp add: data_ok_def geometry_def spc_def unat_gt_0)
  then have "find_entry (named name) (ata_read (sector_of d 0 s) s) = None"
    by (rule find_in_cluster_None [OF none])
  then have "\<forall>i<16. \<not> named name (read_entry (ata_read (cluster_sector d s) s) i)"
    by (simp add: find_entry_def find_None_iff sector_of_def)
  then show ?thesis by (auto simp: taken_def sector_entries_def dest!: set_takeWhileD)
qed

text \<open>Filling a free slot of a directory with an entry that gets the first free cluster.\<close>

lemma slot_filled:
  assumes ok: "data_ok s" and d: "in_volume s d" "fat_entry s d \<noteq> 0"
    and slot: "find_in_cluster free_slot d s = Some (l, i)" and free: "all_free s = f # frs"
    and g: "\<And>e. entry_wf e \<Longrightarrow> entry_wf (g e)"
  shows "\<exists>t. fill_slot g l i s = (t, f) \<and> data_ok t \<and> same_rest s t \<and> all_free t = frs \<and> l \<in> cluster_sectors s d \<and>
    in_volume s f \<and> fat_entry s f = 0 \<and> f \<noteq> d \<and>
    read_entry (ata_read l t) i = set_cluster f (g (read_entry (ata_read l s) i)) \<and>
    (\<forall>P. find_in_cluster P d s = None \<longrightarrow> P (set_cluster f (g (read_entry (ata_read l s) i))) \<longrightarrow>
       find_in_cluster P d t = Some (l, i)) \<and>
    (\<forall>x. in_volume s x \<longrightarrow> fat_entry t x = (if x = f then 0x0FFFFFFF else fat_entry s x)) \<and>
    (\<forall>m. data_start s \<le> m \<longrightarrow> m \<noteq> l \<longrightarrow> seen t m = seen s m)"
proof -
  have c: "geometry s" "clean s" using ok by (simp_all add: data_ok_def)
  obtain k where k: "k < spc s" "l = sector_of d k s" "i < 16" by (rule find_in_cluster_hit [OF slot])
  note at = sector_of_at [OF c(1) d(1) k(1), folded k(2)]
  have rd: "ata_read l s = seen s l" by (rule clean_read [OF c(2) at(3)])
  have lb: "length (seen s l) = 512" using c(2) by (simp add: clean_def)
  obtain s2 r where al: "fat_alloc_cluster 1 s = (s2, r)" by fastforce
  note 2 = alloc_data [OF ok free al]
  define e where "e = set_cluster f (g (read_entry (seen s l) i))"
  have wf: "entry_wf e" using g [OF read_entry_wf, of i "seen s l"] lb k(3)
    by (simp add: e_def entry_wf_def set_cluster_def)
  define t where "t = ata_write l (write_entry i e (seen s l)) s2"
  have d2: "in_volume s2 d" "in_volume s2 x = in_volume s x" for x using d(1) in_volume_same [OF 2(3)] by simp_all
  have l2: "sector_of d k s2 = l" "spc s2 = spc s" using same_rest_sector [OF 2(3)] k(2) by simp_all
  have "length (write_entry i e (seen s l)) = 512" using length_write_entry [OF wf, of i "seen s l"] lb k(3) by simp
  note w = data_ok_write [OF 2(2) d2(1) _ this, of k, unfolded l2, OF k(1), folded t_def]
  have rt: "same_rest s t" by (rule same_rest_trans [OF 2(3) w(3)])
  have fl: "fill_slot g l i s = (t, f)"
    by (simp add: fill_slot_def rd al 2(1) t_def e_def Let_def)
  have low: "seen t m = seen s m" if "data_start s \<le> m" "m \<noteq> l" for m
    using w(2) 2(5) [OF that(1)] that(2) by simp
  have sec: "\<forall>m\<in>cluster_sectors s d. seen t m = ((seen s)(sector_of d k s := write_entry i e (seen s (sector_of d k s)))) m"
    using low cluster_sectors_data(1) [OF c(1) d(1)] w(2) unfolding k(2) [symmetric] by simp
  have pl: "find_in_cluster P d t = Some (l, i)" if "find_in_cluster P d s = None" "P e" for P
    using placed_entry(1) [OF ok d(1) that(1) k(1,3) wf that(2) w(1) rt sec] unfolding k(2) [symmetric] by simp
  have ct: "clean t" using w(1) by (simp add: data_ok_def)
  have "ata_read l t = write_entry i e (seen s l)" using clean_read [OF ct at(3)] w(2) by simp
  then have re: "read_entry (ata_read l t) i = e" using read_write_entry [OF wf, of i "seen s l"] lb k(3) by simp
  have g2: "geometry s2" using 2(2) by (simp add: data_ok_def)
  have e2: "fat_entry t x = fat_entry s2 x" if "in_volume s x" for x
  proof (rule volume_entry [OF w(3) g2])
    show "in_volume s2 x" using that d2 by simp
    show "seen t m = seen s2 m" if "m < data_start s2" for m
      using w(2) that at(4) 2(3) by (auto simp: same_rest_def)
  qed
  have et: "fat_entry t x = (if x = f then 0x0FFFFFFF else fat_entry s x)" if "in_volume s x" for x
    using e2 [OF that] 2(4) [OF that] by simp
  have f: "in_volume s f" "fat_entry s f = 0" using all_free_facts(2) [OF c(1), of f] free by simp_all
  have "all_free t = all_free s2" using all_free_filter [OF g2 w(3), of "\<lambda>_. True"] e2 d2 by simp
  then show ?thesis using fl w(1) rt 2(6) at(2) f d(2) re pl et low unfolding e_def rd [symmetric]
    by (intro exI [of _ t]) auto
qed

text \<open>
  A directory of one cluster with room for an entry, and no entry of that name.
\<close>

definition room_for :: "u8 list \<Rightarrow> u32 \<Rightarrow> nat \<Rightarrow> fatfs \<Rightarrow> bool" where
  "room_for name l i s \<longleftrightarrow> in_volume s (cwd_cluster s) \<and> fat_entry s (cwd_cluster s) = 0x0FFFFFFF \<and>
     find_in_cluster (named name) (cwd_cluster s) s = None \<and>
     find_in_cluster free_slot (cwd_cluster s) s = Some (l, i)"

lemma write_file_creates:
  assumes ok: "data_ok s" and dir: "room_for name l i s" and free: "all_free s = f # frs"
    and name: "holds name cs" "length cs \<le> 8" and ext: "holds ext es"
  shows "\<exists>t. fat_write_file name ext s = Some t \<and> data_ok t \<and> same_rest s t \<and> dir_ok t \<and>
    (\<forall>nm. holds nm cs \<longrightarrow> room_for nm l i s \<longrightarrow> fresh_file nm l i f t \<and> fat_read_file nm t = Some (t, 0, [])) \<and>
    all_free t = frs \<and>
    (\<forall>d. in_volume s d \<longrightarrow> d \<noteq> f \<longrightarrow> fat_entry t d = fat_entry s d \<and>
       (d \<noteq> cwd_cluster s \<longrightarrow> cluster_bytes t d = cluster_bytes s d))"
proof -
  let ?d = "cwd_cluster s"
  have g: "geometry s" and cl: "clean s" using ok by (simp_all add: data_ok_def)
  note r = dir [unfolded room_for_def]
  have d: "in_volume s ?d" "fat_entry s ?d = 0x0FFFFFFF" and none: "find_in_cluster (named name) ?d s = None"
    and slot: "find_in_cluster free_slot ?d s = Some (l, i)" using r by blast+
  obtain s1 n where nx: "fat_next_cluster ?d s = (s1, n)" by fastforce
  note 1 = next_data [OF ok d(1) nx]
  have n: "n = 0x0FFFFFFF" using 1(4) d(2) by simp
  have ex: "file_exists_from name ?d s = Some (s1, False)"
  proof -
    have "file_exists_from name n s1 = Some (s1, False)" by (subst file_exists_from.simps) (simp add: n)
    then show ?thesis
      using volume_below_end(1) [OF g d(1)] no_name_not_taken [OF ok d(1) none] nx
      by (subst file_exists_from.simps) simp
  qed
  have cwd: "cwd_cluster s1 = ?d" using 1(2) by (simp add: same_rest_def)
  have d1: "in_volume s1 ?d" using d(1) in_volume_same [OF 1(2)] by simp
  have c1: "clean s1" "geometry s1" using 1(1) by (simp_all add: data_ok_def)
  have fe: "fat_entry s1 x = fat_entry s x" for x by (rule fat_entry_same [OF 1(2,3)])
  have af: "all_free s1 = f # frs" using all_free_filter [OF g 1(2), of "\<lambda>_. True"] fe free by simp
  have same: "find_in_cluster P ?d s1 = find_in_cluster P ?d s" for P
  proof (rule find_in_cluster_cong [OF 1(2)])
    fix k assume "k < spc s"
    from sector_of_at(3) [OF g d(1) this] show "find_entry P (ata_read (sector_of ?d k s) s1) = find_entry P (ata_read (sector_of ?d k s) s)"
      using clean_read [OF cl] clean_read [OF c1(1)] 1(3) by simp
  qed
  have slot1: "find_in_cluster free_slot ?d s1 = Some (l, i)" using slot same by simp
  let ?g = "new_file name ext" and ?old = "read_entry (ata_read l s1) i"
  have wf: "entry_wf (?g e)" if "entry_wf e" for e
    using that put_name_spec [OF name(1)] put_ext_spec [OF ext] by (auto simp: entry_wf_def new_file_def min_def)
  have e1: "fat_entry s1 ?d \<noteq> 0" using d(2) fe by simp
  obtain t where t: "fill_slot ?g l i s1 = (t, f)" "data_ok t" "same_rest s1 t" "all_free t = frs"
    "l \<in> cluster_sectors s1 ?d" "in_volume s1 f" "fat_entry s1 f = 0" "f \<noteq> ?d"
    "read_entry (ata_read l t) i = set_cluster f (?g ?old)"
    "\<And>P. find_in_cluster P ?d s1 = None \<Longrightarrow> P (set_cluster f (?g ?old)) \<Longrightarrow> find_in_cluster P ?d t = Some (l, i)"
    "\<And>x. in_volume s1 x \<Longrightarrow> fat_entry t x = (if x = f then 0x0FFFFFFF else fat_entry s1 x)"
    "\<And>m. data_start s1 \<le> m \<Longrightarrow> m \<noteq> l \<Longrightarrow> seen t m = seen s1 m"
    using slot_filled [where g = ?g, OF 1(1) d1 e1 slot1 af wf] by blast
  have st: "same_rest s t" by (rule same_rest_trans [OF 1(2) t(3)])
  have v: "in_volume t x = in_volume s x" "in_volume s1 x = in_volume s x" for x
    using in_volume_same [OF st] in_volume_same [OF 1(2)] by simp_all
  have cw: "cwd_cluster t = ?d" using st by (simp add: same_rest_def)
  have et: "fat_entry t x = (if x = f then 0x0FFFFFFF else fat_entry s x)" if "in_volume s x" for x
    using t(11) [of x] that v fe by simp
  have "place_file name ext ?d s1 = Some t" by (subst place_file.simps) (simp add: slot1 t(1))
  then have wr: "fat_write_file name ext s = Some t" by (simp add: fat_write_file_def ex cwd)
  have fr: "fresh_file nm l i f t \<and> fat_read_file nm t = Some (t, 0, [])" if h: "holds nm cs" "room_for nm l i s" for nm
  proof
    have "str_equal_fat (put_name nm) nm"
      using fat_name_lookup [OF h(1), of "replicate 8 SPACE"] name(2) by simp
    moreover have "put_name nm = put_name name" using put_name_spec [OF h(1)] put_name_spec [OF name(1)] by simp
    ultimately have "named nm (set_cluster f (?g ?old))" by (simp add: named_def set_cluster_def new_file_def)
    moreover have "find_in_cluster (named nm) ?d s1 = None" using h(2) same by (simp add: room_for_def)
    ultimately have hit: "find_in_cluster (named nm) ?d t = Some (l, i)" by (intro t(10))
    show "fresh_file nm l i f t" using hit t(6,8,9) v et by (simp add: fresh_file_def cw)
    have "search_chain (named nm) ?d t = Some (t, Some (l, i))" by (subst search_chain.simps) (simp add: hit)
    then show "fat_read_file nm t = Some (t, 0, [])"
      using t(9) by (simp add: fat_read_file_def cw set_cluster_def new_file_def)
  qed
  have dk: "dir_ok t" using d et [OF d(1)] v by (simp add: dir_ok_def cw)
  moreover have "cluster_bytes t x = cluster_bytes s x" if x: "in_volume s x" "x \<noteq> ?d" for x
  proof (rule cluster_bytes_cong [OF st g x(1)])
    fix m assume m: "m \<in> cluster_sectors s x"
    have "l \<in> cluster_sectors s ?d" using t(5) cluster_sectors_same [OF 1(2)] by simp
    then have "m \<noteq> l" using cluster_sectors_disjoint [OF g x(1) d(1) x(2) m] by auto
    then show "seen t m = seen s m"
      using t(12) [of m] cluster_sectors_data(1) [OF g x(1) m] 1(2,3) by (simp add: same_rest_def)
  qed
  ultimately show ?thesis using wr t(2,4) st fr et by auto
qed

text \<open>
  The name is the string in the caller's array; what lies behind its end may differ from call to call.
\<close>

lemma write_and_read_as:
  assumes "data_ok s" and free: "all_free s = f # frs"
    and name: "length cs \<le> 8" "\<forall>nm\<in>{name, name', name''}. holds nm cs \<and> room_for nm l i s" and ext: "holds ext es"
    and buf: "length buf = unat sz" "buf \<noteq> []" "length buf + 512 * spc s + 512 < 2 ^ 32"
      "(length buf - 1) div (512 * spc s) \<le> length frs"
  shows "\<exists>t u v bytes. fat_write_file name ext s = Some t \<and> fat_read_file name' t = Some (t, 0, []) \<and>
    fat_write_data name' buf sz t = Some u \<and>
    fat_read_file name'' u = Some (v, sz, bytes) \<and> take (length buf) bytes = buf \<and> flat v = flat u \<and>
    data_ok u \<and> same_rest s t \<and> same_rest t u \<and> same_rest u v \<and>
    length bytes = Suc ((length buf - 1) div (512 * spc s)) * (512 * spc s) \<and>
    (\<forall>d. in_volume s d \<longrightarrow> fat_entry s d \<noteq> 0 \<longrightarrow> fat_entry u d = fat_entry s d \<and>
       (d \<noteq> cwd_cluster s \<longrightarrow> cluster_bytes u d = cluster_bytes s d))"
proof -
  obtain t where t: "fat_write_file name ext s = Some t" "data_ok t" "same_rest s t" "dir_ok t"
    "fresh_file name' l i f t" "all_free t = frs"
    "\<forall>d. in_volume s d \<longrightarrow> d \<noteq> f \<longrightarrow> fat_entry t d = fat_entry s d \<and>
       (d \<noteq> cwd_cluster s \<longrightarrow> cluster_bytes t d = cluster_bytes s d)"
    and more: "\<forall>nm. holds nm cs \<longrightarrow> room_for nm l i s \<longrightarrow> fresh_file nm l i f t \<and> fat_read_file nm t = Some (t, 0, [])"
  proof -
    have r: "room_for name l i s" "holds name cs" using name(2) by simp_all
    from write_file_creates [OF assms(1) r(1) free r(2) name(1) ext] obtain t where t:
      "fat_write_file name ext s = Some t" "data_ok t" "same_rest s t" "dir_ok t"
      "\<forall>nm. holds nm cs \<longrightarrow> room_for nm l i s \<longrightarrow> fresh_file nm l i f t \<and> fat_read_file nm t = Some (t, 0, [])"
      "all_free t = frs" "\<forall>d. in_volume s d \<longrightarrow> d \<noteq> f \<longrightarrow> fat_entry t d = fat_entry s d \<and>
       (d \<noteq> cwd_cluster s \<longrightarrow> cluster_bytes t d = cluster_bytes s d)" by (elim exE conjE) (rule that)
    moreover have "fresh_file name' l i f t" using t(5) name(2) by blast
    ultimately show thesis by (intro that)
  qed
  have sp: "spc t = spc s" and v: "in_volume t d = in_volume s d" and cw: "cwd_cluster t = cwd_cluster s" for d
    using same_rest_sector [OF t(3)] in_volume_same [OF t(3)] t(3) by (simp_all add: same_rest_def)
  have hit: "find_in_cluster (named name'') (cwd_cluster t) t = Some (l, i)"
    using more name(2) by (simp add: fresh_file_def)
  let ?n = "(length buf - 1) div (512 * spc t)"
  let ?cs = "f # take ?n frs"
  obtain u where u: "fat_write_data name' buf sz t = Some u" "data_ok u" "same_rest t u"
    "find_in_cluster (named name'') (cwd_cluster u) u = Some (l, i)"
    "read_entry (ata_read l u) i = (read_entry (ata_read l t) i)\<lparr>de_size := sz\<rparr>"
    "cluster_chain (fat_entry u) f ?cs" "take (length buf) (concat (map (cluster_bytes u) ?cs)) = buf"
    "\<forall>d. in_volume t d \<longrightarrow> d \<notin> set ?cs \<longrightarrow> fat_entry u d = fat_entry t d \<and>
       (d \<noteq> cwd_cluster t \<longrightarrow> cluster_bytes u d = cluster_bytes t d)"
    using write_data_fresh [OF t(2,4,5) buf(1,2) _ refl] buf(3,4) hit unfolding sp t(6) by blast
  have g: "geometry s" "geometry t" and cu: "clean u" "geometry u"
    using assms(1) t(2) u(2) by (simp_all add: data_ok_def)
  have fr: "in_volume s d \<and> fat_entry s d = 0" if "d \<in> set ?cs" for d
    using all_free_facts(2) [OF g(1), of d] that free by (auto dest: in_set_takeD)
  let ?e = "read_entry (ata_read l u) i"
  have e: "de_size ?e = sz" "entry_cluster ?e = f"
    using t(5) by (simp_all add: u(5) fresh_file_def entry_cluster_def)
  have sz: "de_size ?e \<noteq> 0" using buf(1,2) e(1) by auto
  have "\<forall>c\<in>set ?cs. in_volume u c" using fr in_volume_same [OF u(3)] v by blast
  note rf = read_file_chain [OF cu u(4) sz, unfolded e, OF u(6) this]
  have lc: "length ?cs * (512 * spc u) = Suc ((length buf - 1) div (512 * spc s)) * (512 * spc s)"
    using buf(4) same_rest_sector [OF u(3)] sp by simp
  obtain w where w: "fat_read_file name'' u = Some (w, sz, concat (map (cluster_bytes u) ?cs))" "flat w = flat u"
    "length (concat (map (cluster_bytes u) ?cs)) = Suc ((length buf - 1) div (512 * spc s)) * (512 * spc s)"
    using rf unfolding lc by blast
  have "same_rest u w" using w(2) by (simp add: flat_eq_iff)
  moreover have "fat_entry u d = fat_entry s d \<and> (d \<noteq> cwd_cluster s \<longrightarrow> cluster_bytes u d = cluster_bytes s d)"
    if d: "in_volume s d" "fat_entry s d \<noteq> 0" for d
  proof -
    have "d \<notin> set ?cs" "d \<noteq> f" using fr [of d] fr [of f] d(2) by auto
    then show ?thesis using u(8) t(7) d(1) v cw by simp
  qed
  moreover have "fat_read_file name' t = Some (t, 0, [])" using more name(2) by blast
  ultimately show ?thesis using t(1,3) u(1,2,3,7) w
    by (intro exI [of _ t] exI [of _ u] exI [of _ w] exI [of _ "concat (map (cluster_bytes u) ?cs)"]) blast
qed

lemma write_and_read:
  assumes "data_ok s" and "room_for name l i s" and "all_free s = f # frs"
    and "holds name cs" and "length cs \<le> 8" and "holds ext es"
    and "length buf = unat sz" and "buf \<noteq> []" and "length buf + 512 * spc s + 512 < 2 ^ 32"
    and "(length buf - 1) div (512 * spc s) \<le> length frs"
  shows "\<exists>t u v bytes. fat_write_file name ext s = Some t \<and> fat_write_data name buf sz t = Some u \<and>
    fat_read_file name u = Some (v, sz, bytes) \<and> take (length buf) bytes = buf \<and> flat v = flat u \<and>
    data_ok u \<and> same_rest s t \<and> same_rest t u \<and> same_rest u v \<and>
    length bytes = Suc ((length buf - 1) div (512 * spc s)) * (512 * spc s) \<and>
    (\<forall>d. in_volume s d \<longrightarrow> fat_entry s d \<noteq> 0 \<longrightarrow> fat_entry u d = fat_entry s d \<and>
       (d \<noteq> cwd_cluster s \<longrightarrow> cluster_bytes u d = cluster_bytes s d))"
  using write_and_read_as [OF assms(1,3,5) _ assms(6-10), of name name name l i] assms(2,4) by auto

text \<open>
  C7: What is written to a file is read back.  In a directory of one cluster with room for an entry
  and none of that name, on a volume with enough free clusters, creating a file, writing any data to
  it and reading it gives the size and the data, whatever number of clusters it takes, and no other
  file or directory is touched: every cluster in use keeps its table entry and, but for the
  directory itself, its bytes.
\<close>

theorem written_file_reads_back:
  assumes "data_ok s" and "room_for name l i s" and "all_free s = f # frs"
    and "holds name cs" and "length cs \<le> 8" and "holds ext es"
    and "length buf = unat sz" and "buf \<noteq> []" and "length buf + 512 * spc s + 512 < 2 ^ 32"
    and "(length buf - 1) div (512 * spc s) \<le> length frs"
  shows "\<exists>t u v bytes. fat_write_file name ext s = Some t \<and> fat_write_data name buf sz t = Some u \<and>
    fat_read_file name u = Some (v, sz, bytes) \<and> take (length buf) bytes = buf \<and> flat v = flat u \<and>
    (\<forall>d. in_volume s d \<longrightarrow> fat_entry s d \<noteq> 0 \<longrightarrow> fat_entry u d = fat_entry s d \<and>
       (d \<noteq> cwd_cluster s \<longrightarrow> cluster_bytes u d = cluster_bytes s d))"
  using write_and_read [OF assms] by blast

text \<open>600 bytes in a file \<open>A.B\<close>, two clusters of the small volume.\<close>

lemma small_fs_room: "data_ok small_fs" "name ! 0 \<noteq> 0 \<Longrightarrow> room_for name 2049 0 small_fs"
proof -
  show "data_ok small_fs" using small_fs_ok small_fs_geometry
    by (simp add: data_ok_def clean_def) (simp add: small_fs_def)
  have "[0..<16] = 0 # [1..<16]" by (simp add: upt_conv_Cons)
  then have "find_entry free_slot zero_sector = Some 0"
    using zero_sector_name [of 0] by (simp add: find_entry_def free_slot_def first_byte_def)
  then have "find_in_cluster free_slot 2 small_fs = Some (2049, 0)"
    by (simp add: find_in_cluster_def small_fs_root)
  moreover have "fat_entry small_fs 2 = 0x0FFFFFFF" by code_simp
  ultimately show "room_for name 2049 0 small_fs" if "name ! 0 \<noteq> 0"
    using small_fs_none [OF that] by (simp add: room_for_def small_fs_root in_volume_def small_fs_total)
qed

lemma written_file_reads_back_witness:
  "\<exists>t u v bytes. fat_write_file [0x41, 0] [0x42, 0] small_fs = Some t \<and>
     fat_write_data [0x41, 0] (replicate 600 7) 600 t = Some u \<and>
     fat_read_file [0x41, 0] u = Some (v, 600, bytes) \<and> take 600 bytes = replicate 600 7"
proof -
  have h: "holds [0x41, 0] [0x41]" "holds [0x42, 0] [0x42]" by (auto simp: holds_def)
  have n: "[0x41, 0] ! 0 \<noteq> (0 :: u8)" by simp
  from written_file_reads_back [OF small_fs_room(1) small_fs_room(2) [OF n] small_fs_free h(1) _ h(2),
      of "replicate 600 7" 600]
  show ?thesis by (auto simp: small_fs_root)
qed

end
