(* ===== verification/Shell_Files.thy ===== *)
theory Shell_Files
  imports Shell Fat_Data
begin

text \<open>
  The shell's file commands on a volume: what \<^verbatim>\<open>create\<close>, the writing of data and \<^verbatim>\<open>cat\<close>
  (\<^verbatim>\<open>src/src/kernel/shell/shell.c\<close>) do together, on the file system, the heap and the console.
\<close>

section \<open>Printing bytes\<close>

lemma ucast_byte: "ucast (ucast (x :: u8) :: u64) = x"
  by (rule bit_word_eqI) (simp add: bit_simps)

lemma print_chars_text: "print_chars xs s = Some (on_con (console_print xs) s)"
proof (induction xs arbitrary: s)
  case Nil
  then show ?case by (simp add: on_con_def console_print_simps)
next
  case (Cons c xs)
  have "sys_printf ''%c'' [KNum (ucast c)] s = Some (on_con (console_print [c]) s)"
    by (simp add: sys_printf_text bytes_of_def of_char_def conversion_def ucast_byte)
  then show ?case using Cons by simp
qed

lemma holds_array: "0 \<notin> set t \<Longrightarrow> length t < n \<Longrightarrow> holds (c_array n t) t"
  by (cases "n - length t") (auto simp: holds_def c_array_def)

lemma put_fs_silent: "out f = [] \<Longrightarrow> put_fs f s = s\<lparr>fs := f\<rparr>"
  by (simp add: put_fs_def)

section \<open>cat\<close>

text \<open>
  \<^verbatim>\<open>cat\<close> of a file that fits into its buffer prints its bytes and a line break, and gives the buffer
  back.
\<close>

lemma cat_prints:
  assumes "heap_inv (kheap (krn s))" and "kmalloc 15600 (kheap (krn s)) = Some (h, p)" and "p \<noteq> 0"
    and "fat_read_file (c_array 64 arg) (fs s) = Some (f, sz, data)" and "out f = []" and "arg \<noteq> []"
    and "sz \<noteq> 0" and "unat sz \<le> length data" and "length data \<le> 15600"
  shows "\<exists>h'. cmd_cat arg s = Some (s\<lparr>fs := f, krn := (krn s)\<lparr>kheap := h'\<rparr>,
      con := console_print (take (unat sz) data @ [10]) (con s)\<rparr>) \<and>
    heap_inv h' \<and> heap_live h' = heap_live (kheap (krn s))"
proof -
  let ?s = "s\<lparr>krn := (krn s)\<lparr>kheap := h\<rparr>\<rparr>"
  let ?t = "on_con (console_print (take (unat sz) data @ [10])) (?s\<lparr>fs := f\<rparr>)"
  have h: "heap_inv h" "p \<in> heap_live h" "heap_live h - {p} = heap_live (kheap (krn s))"
    using kheap.alloc_inv [OF assms(1,2)] kheap.alloc_fresh [OF assms(1,2,3)] by auto
  obtain h' where h': "kfree p h = Some h'" "heap_inv h'" "heap_live h' = heap_live h - {p}"
    using kheap.free_live [OF h(1,2)] by blast
  have nl: "sys_printf NL [] s = Some (on_con (console_print [10]) s)" for s
    by (simp add: sys_printf_text bytes_of_def of_char_def)
  have "cmd_cat arg s = sys_kfree p ?t"
    using assms(3,6-9) by (simp add: cmd_cat_def sys_kmalloc_def assms(2,4) put_fs_silent [OF assms(5)]
        print_chars_text nl)
  also have "\<dots> = Some (s\<lparr>fs := f, krn := (krn s)\<lparr>kheap := h'\<rparr>,
      con := console_print (take (unat sz) data @ [10]) (con s)\<rparr>)"
    using h'(1) by (simp add: sys_kfree_def on_con_def)
  finally show ?thesis using h' h(3) by blast
qed

text \<open>
  \<^verbatim>\<open>create\<close> makes a file, data is written to it, and \<^verbatim>\<open>cat\<close> shows exactly that data and a line
  break, and leaves the heap as it found it, for every name of up to eight characters and any data
  that with its last cluster fits into the buffer of \<^verbatim>\<open>cat\<close>.
\<close>

theorem cat_shows_what_was_written:
  assumes "data_ok (fs s)" and "room_for (c_array 64 nm) l i (fs s)" and "all_free (fs s) = f # frs"
    and "out (fs s) = []" and "nm \<noteq> []" and "length nm \<le> 8" and "0 \<notin> set nm"
    and "ext \<noteq> []" and "length ext < 64" and "0 \<notin> set ext"
    and "length buf = unat sz" and "buf \<noteq> []" and "n = (length buf - 1) div (512 * spc (fs s))"
    and "n \<le> length frs" and "Suc n * (512 * spc (fs s)) \<le> 15600"
    and "heap_inv (kheap (krn s))" and "kmalloc 15600 (kheap (krn s)) = Some (h, p)" and "p \<noteq> 0"
  shows "\<exists>s1 u s2. cmd_create_file nm ext s = Some s1 \<and> fat_write_data (c_array 64 nm) buf sz (fs s1) = Some u \<and>
    cmd_cat nm (s1\<lparr>fs := u\<rparr>) = Some s2 \<and> con s2 = console_print (buf @ [10]) (con s) \<and>
    heap_inv (kheap (krn s2)) \<and> heap_live (kheap (krn s2)) = heap_live (kheap (krn s))"
proof -
  have hn: "holds (c_array 64 nm) nm" "holds (c_array 64 ext) ext"
    using assms(6,7,9,10) by (intro holds_array; simp)+
  have sp: "0 < spc (fs s)" using assms(1) by (simp add: data_ok_def geometry_def spc_def unat_gt_0)
  have "length buf - 1 < Suc n * (512 * spc (fs s))"
    using sp assms(13) by (metis dividend_less_div_times mult.commute mult_Suc_right add.commute mult_pos_pos zero_less_numeral)
  then have fits: "length buf + 512 * spc (fs s) + 512 < 2 ^ 32" using assms(15) by simp
  obtain t u v bytes where t: "fat_write_file (c_array 64 nm) (c_array 64 ext) (fs s) = Some t"
    "fat_write_data (c_array 64 nm) buf sz t = Some u" "fat_read_file (c_array 64 nm) u = Some (v, sz, bytes)"
    "take (length buf) bytes = buf" "same_rest (fs s) t" "same_rest t u" "same_rest u v"
    "length bytes = Suc n * (512 * spc (fs s))"
    using write_and_read [OF assms(1-3) hn(1) assms(6) hn(2) assms(11,12) fits] assms(13,14) by blast
  have o: "out t = []" "out v = []" using t(5-7) assms(4) by (simp_all add: same_rest_def)
  have c: "cmd_create_file nm ext s = Some (s\<lparr>fs := t\<rparr>)"
    using assms(5,8) t(1) by (simp add: cmd_create_file_def on_fs_def put_fs_silent [OF o(1)])
  have sz: "sz \<noteq> 0" using assms(11,12) by auto
  have "unat sz \<le> length bytes" using t(4) assms(11) by (metis length_take min.cobounded1 min.absorb_iff2)
  from cat_prints [of "s\<lparr>fs := u\<rparr>" h p nm v sz bytes] this assms(5,15-18) sz t o
  obtain h' where "cmd_cat nm (s\<lparr>fs := u\<rparr>) = Some (s\<lparr>fs := v, krn := (krn s)\<lparr>kheap := h'\<rparr>,
      con := console_print (buf @ [10]) (con s)\<rparr>)" "heap_inv h'" "heap_live h' = heap_live (kheap (krn s))"
    using assms(11) by auto
  then show ?thesis using c t(2)
    by (intro exI [of _ "s\<lparr>fs := t\<rparr>"] exI [of _ u] exI [of _ "s\<lparr>fs := v, krn := (krn s)\<lparr>kheap := h'\<rparr>,
      con := console_print (buf @ [10]) (con s)\<rparr>"]) simp
qed

text \<open>600 bytes in \<open>A.B\<close> on the small volume, with the heap as \<^verbatim>\<open>kmalloc_init\<close> leaves it.\<close>

definition file_system_up :: system where
  "file_system_up = idle_system\<lparr>fs := small_fs, krn := (krn idle_system)\<lparr>kheap := fresh_heap\<rparr>\<rparr>"

lemma cat_shows_what_was_written_witness:
  "\<exists>s1 u s2. cmd_create_file [0x41] [0x42] file_system_up = Some s1 \<and>
    fat_write_data (c_array 64 [0x41]) (replicate 600 7) 600 (fs s1) = Some u \<and>
    cmd_cat [0x41] (s1\<lparr>fs := u\<rparr>) = Some s2 \<and>
    con s2 = console_print (replicate 600 7 @ [10]) (con file_system_up)"
proof -
  let ?s = file_system_up
  obtain h p where h: "kmalloc 15600 fresh_heap = Some (h, p)" "unat p = 0x200020"
    using kmalloc_first_fit [OF fresh_heap_view, of 15600] by (auto simp: fresh_heap_start)
  have s: "fs ?s = small_fs" "kheap (krn ?s) = fresh_heap" by (simp_all add: file_system_up_def)
  have n: "c_array 64 [0x41] ! 0 \<noteq> (0 :: u8)" by (simp add: c_array_def)
  have p: "p \<noteq> 0" using h(2) by auto
  have o: "out small_fs = []" by (simp add: small_fs_def)
  have i: "heap_inv fresh_heap" using fresh_heap_view by (auto simp: heap_inv_def)
  from cat_shows_what_was_written [of ?s "[0x41]", unfolded s, OF small_fs_room(1) small_fs_room(2) [OF n]
      small_fs_free o _ _ _ _ _ _ _ _ refl _ _ i h(1) p, of "[0x42]" "replicate 600 7" 600]
  show ?thesis by (auto simp: small_fs_root)
qed

end
