(* ===== verification/Edit_Session.thy ===== *)
theory Edit_Session
  imports Shell_Files
begin

text \<open>
  A file from the shell through the editor and back: \<^verbatim>\<open>create\<close>, \<^verbatim>\<open>fat_edit_file\<close>
  (\<^verbatim>\<open>src/src/Apps/Editor/editor.c\<close>) with the keys that type a text, save and leave, and \<^verbatim>\<open>cat\<close>.  It
  brings together the file system, the heap, the console, the editor and the shell's commands.
\<close>

section \<open>What drawing and typing leave alone\<close>

definition host :: "system \<Rightarrow> fatfs \<times> kern \<times> u8 list" where
  "host s = (fs s, krn s, filename (ed s))"

lemma host_on_con [simp]: "host (on_con f s) = host s"
  by (simp add: host_def on_con_def)

lemma host_on_ed: "filename (f (ed s)) = filename (ed s) \<Longrightarrow> host (on_ed f s) = host s"
  by (simp add: host_def on_ed_def)

lemma host_fold: "(\<And>x s. host (f x s) = host s) \<Longrightarrow> host (fold f xs s) = host s"
  by (induction xs arbitrary: s) simp_all

lemma host_render_row: "host (render_row sy s) = host s"
  by (simp add: render_row_def draw_line_def Let_def host_fold host_on_ed)

lemma host_draw_status: "host (ed_draw_status s) = host s"
  by (simp add: ed_draw_status_def Let_def write3_def host_on_ed)

lemma host_render: "host (ed_render s) = host s"
proof -
  have "host (fold render_row xs s) = host s" for xs by (rule host_fold) (rule host_render_row)
  then show ?thesis by (simp add: ed_render_def Let_def host_draw_status host_on_ed)
qed

lemma host_render_full: "host (ed_render_full s) = host s"
  by (simp add: ed_render_full_def ed_draw_status_full_def mark_lines_def Let_def host_render host_draw_status
      host_fold host_on_ed)

lemma host_scroll: "host (ed_scroll_to_cursor s) = host s"
  by (simp add: ed_scroll_to_cursor_def Let_def host_render_full host_on_ed)

lemma host_print_str: "host (print_str t s) = host s"
  by (simp add: print_str_def)

lemma filename_type_char [simp]: "filename (type_char c s) = filename s"
proof -
  have m: "filename (move_line i k t) = filename t" "filename (put_cell y x v t) = filename t"
    "filename (set_len y n t) = filename t" "filename (mark_lines a b t) = filename t"
    for i k t y x v n a b
    by (simp_all add: move_line_def put_cell_def set_len_def mark_lines_def)
  have f: "filename (fold (\<lambda>i. move_line i (f i)) xs t) = filename t" for f xs t
    by (induction xs arbitrary: t) (simp_all add: m)
  have g: "filename (fold (\<lambda>i s. put_cell y (f i) (lines s z (g i)) s) xs t) = filename t" for y f z g xs t
    using cell_loop_lines [of y f z g xs t] by auto
  show ?thesis
    by (simp add: type_char_def ed_insert_char_def ed_insert_newline_def ed_save_undo_def
        ed_clear_selection_def Let_def m f g)
qed

lemma buf_loop_frame:
  "filename (buf_loop buf x s) = filename s" "sel_active (buf_loop buf x s) = sel_active s"
  by (induction buf x s rule: buf_loop.induct) (simp_all add: Let_def put_cell_def set_len_def)

section \<open>The text of the lines\<close>

lemma rows_text:
  assumes "ed_ok s"
  shows "join_lines (rows s) = before s @ after s @ [10]"
proof -
  define Y N where "Y = nat (cursor_y s)" and "N = nat (line_count s)"
  have b: "Y < N" "cursor_y s = int Y" using ed_okD(1,2) [OF assms] by (simp_all add: Y_def N_def)
  let ?f = "\<lambda>i. row s (int i)"
  have up: "[0..<N] = [0..<Y] @ Y # [Suc Y..<N]"
    using b(1) upt_add_eq_append [of 0 Y "N - Y"] upt_conv_Cons [of Y N] by simp
  have tail: "concat (map (\<lambda>i. 10 # ?f i) is) @ [10] = 10 # concat (map (\<lambda>i. ?f i @ [10]) is)" for "is"
    by (induction "is") simp_all
  have td: "take n r @ drop n r @ z = r @ z" for n z and r :: "u8 list"
    using append_take_drop_id [of n r] by (simp only: append_assoc [symmetric])
  have "before s @ after s @ [10] = concat (map (\<lambda>i. ?f i @ [10]) [0..<Y]) @ row s (int Y) @
      concat (map (\<lambda>i. 10 # ?f i) [Suc Y..<N]) @ [10]"
    unfolding before_def after_def Y_def [symmetric] N_def [symmetric] b(2) by (simp only: append_assoc td nat_int)
  also have "\<dots> = concat (map (\<lambda>i. ?f i @ [10]) ([0..<Y] @ Y # [Suc Y..<N]))"
    unfolding tail by simp
  finally show ?thesis unfolding up [symmetric] by (simp only: join_lines_def rows_def N_def map_map comp_def)
qed

text \<open>A text fits into the editor when it has at most 200 lines of at most 77 characters.\<close>

definition text_fits :: "u8 list \<Rightarrow> bool" where
  "text_fits t \<longleftrightarrow> length (split_lines t) \<le> 200 \<and> (\<forall>l\<in>set (split_lines t). length l \<le> 77)"

text \<open>The cursor stands at the end of a text typed from an empty buffer on.\<close>

definition typed :: "u8 list \<Rightarrow> EditorState \<Rightarrow> bool" where
  "typed t e \<longleftrightarrow> ed_ok e \<and> line_count e = int (length (split_lines t)) \<and>
     cursor_y e = line_count e - 1 \<and> cursor_x e = line_len e (cursor_y e) \<and>
     line_len e (cursor_y e) = int (length (last (split_lines t)))"

lemma split_lines_nonempty [simp]: "split_lines t \<noteq> []"
  using split_lines_Cons [of t] by auto

lemma split_lines_snoc:
  "split_lines (t @ [c]) = (if c = 10 then split_lines t @ [[]]
     else butlast (split_lines t) @ [last (split_lines t) @ [c]])"
proof (induction t)
  case (Cons a t)
  obtain l ls where "split_lines t = l # ls" using split_lines_Cons by blast
  then show ?case using Cons by (cases ls) auto
qed simp

lemma typed_room:
  assumes "typed t e" and "text_fits (t @ [c])"
  shows "has_room c e"
proof (cases "c = 10")
  case True
  then show ?thesis using assms by (simp add: has_room_def typed_def text_fits_def split_lines_snoc)
next
  case False
  then show ?thesis using assms by (auto simp: has_room_def typed_def text_fits_def split_lines_snoc)
qed

lemma typed_step:
  assumes "typed t e" and "text_fits (t @ [c])"
  shows "typed (t @ [c]) (type_char c e)"
proof (cases "c = 10")
  case True
  note r = typed_room [OF assms]
  have ok: "ed_ok e" and lc: "line_count e < 200" using assms(1) r True by (simp_all add: typed_def has_room_def)
  show ?thesis using assms(1) True type_char_ok [OF ok, of c] insert_newline_rows [OF ok lc]
    by (simp add: typed_def type_char_def split_lines_snoc)
next
  case False
  note r = typed_room [OF assms]
  have ok: "ed_ok e" and l: "line_len e (cursor_y e) < 78 - 1" using assms(1) r False by (simp_all add: typed_def has_room_def)
  have d: "line_count e = int (length (split_lines t))" "cursor_y e = line_count e - 1"
    "cursor_x e = line_len e (cursor_y e)" "line_len e (cursor_y e) = int (length (last (split_lines t)))"
    using assms(1) unfolding typed_def by blast+
  have n: "Suc (length (split_lines t) - Suc 0) = length (split_lines t)" using split_lines_Cons [of t] by auto
  note i = insert_char_rows(2-5) [OF ok l, of c]
  have "typed (t @ [c]) (ed_insert_char c e)"
    unfolding typed_def i using type_char_ok [OF ok, of c] False d(1,2) d(3,4) n
    by (simp add: type_char_def split_lines_snoc)
  then show ?thesis using False by (simp add: type_char_def)
qed

lemma text_fits_prefix: "text_fits (t @ u) \<Longrightarrow> text_fits t"
proof (induction u rule: rev_induct)
  case (snoc c u)
  have "text_fits (t @ u)"
  proof (cases "c = 10")
    case True
    then show ?thesis using snoc.prems by (auto simp: text_fits_def split_lines_snoc append_assoc [symmetric] simp del: append_assoc)
  next
    case False
    have "set (split_lines (t @ u)) \<subseteq> insert (last (split_lines (t @ u))) (set (butlast (split_lines (t @ u))))"
      using append_butlast_last_id [OF split_lines_nonempty, of "t @ u"]
      by (metis list.set(1) list.simps(15) set_append Un_insert_right sup_bot_right order_refl)
    moreover have "0 < length (split_lines (t @ u))" by simp
    ultimately show ?thesis using snoc.prems False
      by (auto simp: text_fits_def split_lines_snoc append_assoc [symmetric] simp del: append_assoc length_greater_0_conv)
  qed
  then show ?case by (rule snoc.IH)
qed simp

lemma typed_room_all:
  "typed t e \<Longrightarrow> text_fits (t @ keys) \<Longrightarrow> room has_room type_char keys e"
proof (induction keys arbitrary: t e)
  case (Cons c keys)
  have f: "text_fits (t @ [c])" using Cons.prems(2) text_fits_prefix [of "t @ [c]" keys] by simp
  show ?case
    using typed_room [OF Cons.prems(1) f] Cons.IH [OF typed_step [OF Cons.prems(1) f]] Cons.prems(2) by simp
qed simp

section \<open>Typing, saving and opening\<close>

lemma typed_text_of: "text_of e = text_of e' \<Longrightarrow> typed t e = typed t e'"
  using text_of_before(3) [of e e'] by (simp add: typed_def text_of_def)

lemma edit_session:
  "typed t (ed s) \<Longrightarrow> \<not> sel_active (ed s) \<Longrightarrow> list_all text_key keys \<Longrightarrow> text_fits (t @ keys) \<Longrightarrow>
   \<exists>u. edit_loop (keys @ rest) s = edit_loop rest u \<and> typed (t @ keys) (ed u) \<and>
     before (ed u) = before (ed s) @ keys \<and> after (ed u) = after (ed s) \<and> host u = host s"
proof (induction keys arbitrary: t s)
  case (Cons c keys)
  let ?e = "type_char c (ed s)"
  let ?t = "ed_render (ed_scroll_to_cursor (on_ed (type_char c) s))"
  have k: "edit_key c s = Some (on_ed (type_char c) s)" "c \<noteq> 0x1B"
    using edit_text_key [of c s] Cons.prems by auto
  have e: "text_of (ed ?t) = text_of ?e" by (simp add: text_render text_scroll)
  have f: "text_fits (t @ [c])" using Cons.prems(4) text_fits_prefix [of "t @ [c]" keys] by simp
  have ok: "ed_ok (ed s)" using Cons.prems(1) by (simp add: typed_def)
  note r = type_char_text [OF ok typed_room [OF Cons.prems(1) f]]
  have "typed (t @ [c]) (ed ?t)" using typed_step [OF Cons.prems(1) f] typed_text_of [OF e] by blast
  moreover have "\<not> sel_active (ed ?t)" using type_char_sel [OF Cons.prems(2)] text_of_before(5) [OF e] by blast
  moreover have "list_all text_key keys" "text_fits ((t @ [c]) @ keys)" using Cons.prems(3,4) by simp_all
  ultimately obtain u where "edit_loop (keys @ rest) ?t = edit_loop rest u" "typed ((t @ [c]) @ keys) (ed u)"
    "before (ed u) = before (ed ?t) @ keys" "after (ed u) = after (ed ?t)" "host u = host ?t"
    using Cons.IH [of "t @ [c]" ?t] by blast
  then show ?case using k r text_of_before(1,2) [OF e]
    by (intro exI [of _ u]) (simp add: host_render host_scroll host_on_ed)
qed auto

text \<open>The editor's buffer for saving, at most \<open>200 * 78 + 16\<close> bytes, is given back.\<close>

abbreviation EDITOR_ROOM :: nat where "EDITOR_ROOM \<equiv> 15616"

lemma save_session:
  assumes "ed_ok (ed s)" and "before (ed s) @ after (ed s) = t"
    and "heap_room EDITOR_ROOM (kheap (krn s))"
    and "fat_write_data (c_string (filename (ed s))) (t @ [10]) (of_nat (length (t @ [10]))) (fs s) = Some f"
    and "out f = []"
  shows "\<exists>u h. ed_save s = Some u \<and> host u = (f, (krn s)\<lparr>kheap := h\<rparr>, filename (ed s)) \<and>
    heap_room EDITOR_ROOM h \<and> heap_live h = heap_live (kheap (krn s))"
proof -
  let ?sz = "line_count (ed s) * EDITOR_LINE_LEN + 16"
  have lc: "0 \<le> line_count (ed s)" "line_count (ed s) \<le> 200" using ed_okD(1,2,5) [OF assms(1)] by simp_all
  then have "uint (word_of_int ?sz :: u64) = ?sz" by (simp only: uint_word_of_int) simp
  then have sz: "unat (word_of_int ?sz :: u64) \<le> EDITOR_ROOM"
    using lc unfolding nat_uint_eq [symmetric] by simp
  obtain h1 p h where h: "kmalloc (word_of_int ?sz) (kheap (krn s)) = Some (h1, p)" "p \<noteq> 0"
    "kfree p h1 = Some h" "heap_room EDITOR_ROOM h" "heap_live h = heap_live (kheap (krn s))"
    using heap_room_alloc [OF assms(3) sz] by blast
  have buf: "ed_lines_to_buf ?sz (ed s) = t @ [10]"
    using ed_ok_save [OF assms(1)] rows_text [OF assms(1)] assms(2) by simp
  show ?thesis
    using h assms(4,5)
    by (intro exI [of _ "the (ed_save s)"] exI [of _ h]) (simp add: ed_save_def sys_kmalloc_def sys_kfree_def get_ms_def on_fs_def put_fs_silent buf Let_def
        host_def write3_def on_con_def on_ed_def)
qed

lemma open_session:
  assumes "heap_room (unat SIZEOF_EDITOR + 32 + EDITOR_ROOM) (kheap (krn s))" and "length nm \<le> 63"
    and "fat_read_file (c_string nm) (fs s) = Some (fs s, 0, [])" and "out (fs s) = []"
  shows "\<exists>u h. fat_edit_file nm keys s = edit_loop keys u \<and> host u = (fs s, (krn s)\<lparr>kheap := h\<rparr>, nm) \<and>
    heap_room EDITOR_ROOM h \<and> typed [] (ed u) \<and> before (ed u) = [] \<and> after (ed u) = [] \<and> \<not> sel_active (ed u)"
proof -
  obtain s1 p h1 where s1: "(if ed_ptr s = 0 then sys_kmalloc SIZEOF_EDITOR s else Some (s, ed_ptr s)) = Some (s1, p)"
    "p \<noteq> 0" "s1 = s\<lparr>krn := (krn s)\<lparr>kheap := h1\<rparr>\<rparr>" "heap_room EDITOR_ROOM h1"
  proof (cases "ed_ptr s = 0")
    case True
    obtain h' q where q: "kmalloc SIZEOF_EDITOR (kheap (krn s)) = Some (h', q)" "q \<noteq> 0" "heap_room EDITOR_ROOM h'"
      using heap_room_take [OF assms(1)] by auto
    show ?thesis by (rule that [of _ q h']) (use True q in \<open>simp_all add: sys_kmalloc_def\<close>)
  next
    case False
    have "heap_room EDITOR_ROOM (kheap (krn s))" by (rule heap_room_mono [OF assms(1)]) simp
    then show ?thesis using False that [of s "ed_ptr s" "kheap (krn s)"] by simp
  qed
  obtain h2 q h where h: "kmalloc 15600 h1 = Some (h2, q)" "q \<noteq> 0" "kfree q h2 = Some h" "heap_room EDITOR_ROOM h"
    using heap_room_alloc [OF s1(4), of 15600] by auto
  let ?e = "ed_buf_to_lines [] (reset_editor nm (ed s))"
  have r: "cursor_x (reset_editor nm (ed s)) = 0" "cursor_y (reset_editor nm (ed s)) = 0"
    "filename (reset_editor nm (ed s)) = nm" "\<not> sel_active (reset_editor nm (ed s))"
    using assms(2) by (simp_all add: reset_editor_def)
  have e: "ed_ok ?e" "line_count ?e = 1" "cursor_x ?e = 0" "cursor_y ?e = 0" "line_len ?e 0 = 0"
    "filename ?e = nm" "\<not> sel_active ?e"
    using load_ok [OF r(1,2), of "[]"] r by (simp_all add: ed_buf_to_lines_def Let_def put_cell_def set_len_def)
  have t: "typed [] ?e" "before ?e = []" "after ?e = []"
    using e by (simp_all add: typed_def before_def after_def row_def)
  let ?u = "s1\<lparr>ed_ptr := p, krn := (krn s1)\<lparr>kheap := h\<rparr>, ed := ?e\<rparr>"
  have l: "load_file (on_ed (reset_editor nm) (s1\<lparr>ed_ptr := p\<rparr>)) = Some (?u, True)"
    using h assms(3,4) r(3) by (simp add: load_file_def sys_kmalloc_def sys_kfree_def s1(3) on_ed_def put_fs_silent)
  let ?v = "ed_render_full (on_con console_clear ?u)"
  have tx: "text_of (ed ?v) = text_of ?e" by (simp add: text_render_full)
  have "fat_edit_file nm keys s = edit_loop keys ?v"
    unfolding fat_edit_file_def s1(1) option.case prod.case Let_def if_not_P [OF s1(2)] l by simp
  moreover have "host ?v = (fs s, (krn s)\<lparr>kheap := h\<rparr>, nm)"
    by (simp add: host_render_full) (simp add: host_def s1(3) e(6))
  moreover have "typed [] (ed ?v)" "before (ed ?v) = []" "after (ed ?v) = []" "\<not> sel_active (ed ?v)"
    using t e(7) typed_text_of [OF tx] text_of_before [OF tx] by simp_all
  ultimately show ?thesis using h(4) by (intro exI [of _ ?v] exI [of _ h]) simp
qed

lemma save_and_leave:
  assumes "ed_save s = Some u"
  shows "\<exists>v. edit_loop (KEY_CTRL_S # 0x1B # rest) s = Some (v, rest) \<and> host v = host u"
proof -
  have "edit_key KEY_CTRL_S s = ed_save s" by (simp add: edit_key_def shift_key_def arrow_key_def)
  then show ?thesis using assms by (simp add: host_render host_scroll)
qed

section \<open>The lines of the shell\<close>

lemma pieces_word: "0x20 \<notin> set w \<Longrightarrow> pieces (w @ 0x20 # xs) = w # pieces xs" "0x20 \<notin> set w \<Longrightarrow> pieces w = [w]"
  by (induction w) auto

lemma split_piece: "str_split xs i = (if i < length (pieces xs) then take 63 (pieces xs ! i) else [])"
  using split_from_here [of "[]" 0 xs] split_from_later [of 0 i xs]
  by (cases "i = 0") (simp_all add: str_split_def hd_conv_nth)

definition word_ok :: "u8 list \<Rightarrow> bool" where
  "word_ok w \<longleftrightarrow> w \<noteq> [] \<and> length w < 64 \<and> 0 \<notin> set w \<and> 0x20 \<notin> set w"

lemma create_line:
  assumes "word_ok nm" and "word_ok ext"
  shows "shell_execute (bytes_of ''create '' @ nm @ 0x20 # ext) keys s
    = map_option (\<lambda>s. (s, keys)) (cmd_create_file nm ext s)"
proof -
  have p: "pieces (bytes_of ''create '' @ nm @ 0x20 # ext) = [bytes_of ''create'', nm, ext]"
    using assms by (simp add: word_ok_def bytes_of_def of_char_def pieces_word)
  show ?thesis using assms
    by (simp add: shell_execute_def split_piece p word_ok_def)
      (simp add: commands_def command_names_def bytes_of_def of_char_def)
qed

lemma edit_line:
  assumes "word_ok nm"
  shows "shell_execute (bytes_of ''/edit '' @ nm) keys s = fat_edit_file nm keys s"
proof -
  have p: "pieces (bytes_of ''/edit '' @ nm) = [bytes_of ''/edit'', nm]"
    using assms by (simp add: word_ok_def bytes_of_def of_char_def pieces_word)
  show ?thesis using assms
    by (simp add: shell_execute_def split_piece p word_ok_def)
      (simp add: shell_execute_slash_def bytes_of_def of_char_def)
qed

lemma cat_line:
  assumes "word_ok nm"
  shows "shell_execute (bytes_of ''cat '' @ nm) keys s = map_option (\<lambda>s. (s, keys)) (cmd_cat nm s)"
proof -
  have p: "pieces (bytes_of ''cat '' @ nm) = [bytes_of ''cat'', nm]"
    using assms by (simp add: word_ok_def bytes_of_def of_char_def pieces_word)
  show ?thesis using assms
    by (simp add: shell_execute_def split_piece p word_ok_def)
      (simp add: commands_def command_names_def bytes_of_def of_char_def)
qed

section \<open>From the keys to the screen\<close>

text \<open>
  C2: Three lines of the shell.  \<^verbatim>\<open>create\<close> makes a file; in the editor, opened on it, a text is
  typed, saved and left; \<^verbatim>\<open>cat\<close> prints the text, the line break the editor puts behind the last line
  and one of its own.  Every other file and directory keeps its clusters.  The text may have up to 200
  lines of up to 77 characters, as long as its clusters fit into the buffer of \<^verbatim>\<open>cat\<close>.
\<close>

theorem edited_file_is_shown:
  assumes "data_ok (fs s)" and "\<forall>b. holds b nm \<longrightarrow> room_for b l i (fs s)" and "all_free (fs s) = f # frs"
    and "out (fs s) = []" and "word_ok nm" and "length nm \<le> 8" and "word_ok ext"
    and "list_all text_key keys" and "text_fits keys"
    and "n = length keys div (512 * spc (fs s))" and "n \<le> length frs" and "Suc n * (512 * spc (fs s)) \<le> 15600"
    and "heap_room (unat SIZEOF_EDITOR + 32 + EDITOR_ROOM) (kheap (krn s))"
  shows "\<exists>s1 s2 s3. shell_execute (bytes_of ''create '' @ nm @ 0x20 # ext) rest s = Some (s1, rest) \<and>
    shell_execute (bytes_of ''/edit '' @ nm) (keys @ KEY_CTRL_S # 0x1B # rest) s1 = Some (s2, rest) \<and>
    shell_execute (bytes_of ''cat '' @ nm) rest s2 = Some (s3, rest) \<and>
    con s3 = console_print (keys @ [10, 10]) (con s2) \<and>
    (\<forall>d. in_volume (fs s) d \<longrightarrow> fat_entry (fs s) d \<noteq> 0 \<longrightarrow> fat_entry (fs s2) d = fat_entry (fs s) d \<and>
       (d \<noteq> cwd_cluster (fs s) \<longrightarrow> cluster_bytes (fs s2) d = cluster_bytes (fs s) d))"
proof -
  let ?buf = "keys @ [10]" and ?a = "c_array 64 nm" and ?c = "c_string nm"
  let ?sz = "of_nat (length ?buf) :: u32"
  have nm: "nm \<noteq> []" "length nm < 64" "0 \<notin> set nm" and ex: "ext \<noteq> []" "length ext < 64" "0 \<notin> set ext"
    using assms(5,7) by (simp_all add: word_ok_def)
  have ha: "holds ?a nm" "holds ?c nm" "holds (c_array 64 ext) ext"
    using holds_array nm ex by (simp_all add: holds_def c_string_def)
  have sp: "0 < spc (fs s)" using assms(1) by (simp add: data_ok_def geometry_def spc_def unat_gt_0)
  have "length keys < Suc n * (512 * spc (fs s))"
    using sp assms(10) by (metis dividend_less_div_times mult.commute mult_Suc_right add.commute mult_pos_pos zero_less_numeral)
  then have fits: "length ?buf + 512 * spc (fs s) + 512 < 2 ^ 32" and small: "length ?buf < 2 ^ 32"
    using assms(12) by simp_all
  have usz: "length ?buf = unat ?sz" by (rule unat_of_nat_fits [symmetric]) (use small in simp)
  have len: "(length ?buf - 1) div (512 * spc (fs s)) = n" using assms(10) by simp
  have "\<forall>b\<in>{?a, ?c, ?a}. holds b nm \<and> room_for b l i (fs s)" using ha(1,2) assms(2) by blast
  from write_and_read_as [OF assms(1,3,6) this ha(3) usz _ fits] len assms(11)
  obtain t u v bytes where t: "fat_write_file ?a (c_array 64 ext) (fs s) = Some t"
    "fat_read_file ?c t = Some (t, 0, [])" "fat_write_data ?c ?buf ?sz t = Some u"
    "fat_read_file ?a u = Some (v, ?sz, bytes)" "take (length ?buf) bytes = ?buf"
    "same_rest (fs s) t" "same_rest t u" "same_rest u v" "length bytes = Suc n * (512 * spc (fs s))"
    "\<forall>d. in_volume (fs s) d \<longrightarrow> fat_entry (fs s) d \<noteq> 0 \<longrightarrow> fat_entry u d = fat_entry (fs s) d \<and>
       (d \<noteq> cwd_cluster (fs s) \<longrightarrow> cluster_bytes u d = cluster_bytes (fs s) d)"
    unfolding len by blast
  have o: "out t = []" "out u = []" "out v = []" using t(6-8) assms(4) by (simp_all add: same_rest_def)
  let ?s1 = "s\<lparr>fs := t\<rparr>"
  have c1: "cmd_create_file nm ext s = Some ?s1"
    using nm ex t(1) by (simp add: cmd_create_file_def on_fs_def put_fs_silent [OF o(1)])
  have r1: "fat_read_file ?c (fs ?s1) = Some (fs ?s1, 0, [])" "out (fs ?s1) = []"
    "heap_room (unat SIZEOF_EDITOR + 32 + EDITOR_ROOM) (kheap (krn ?s1))" "length nm \<le> 63"
    using t(2) o(1) assms(6,13) by simp_all
  obtain e h where e: "fat_edit_file nm (keys @ KEY_CTRL_S # 0x1B # rest) ?s1 = edit_loop (keys @ KEY_CTRL_S # 0x1B # rest) e"
    "host e = (t, (krn s)\<lparr>kheap := h\<rparr>, nm)" "heap_room EDITOR_ROOM h" "typed [] (ed e)" "before (ed e) = []"
    "after (ed e) = []" "\<not> sel_active (ed e)"
    using open_session [OF r1(3,4,1,2), of "keys @ KEY_CTRL_S # 0x1B # rest"] by (elim exE conjE) (rule that; simp)
  obtain w where w: "edit_loop (keys @ KEY_CTRL_S # 0x1B # rest) e = edit_loop (KEY_CTRL_S # 0x1B # rest) w"
    "typed keys (ed w)" "before (ed w) = keys" "after (ed w) = []" "host w = host e"
    using edit_session [OF e(4,7) assms(8), of "KEY_CTRL_S # 0x1B # rest", unfolded append_Nil, OF assms(9)] e(5,6)
    by (elim exE conjE) (rule that, assumption, assumption, simp_all only: append_Nil)
  have hw: "fs w = t" "krn w = (krn s)\<lparr>kheap := h\<rparr>" "filename (ed w) = nm"
    using w(5) e(2) by (simp_all add: host_def)
  have sw: "ed_ok (ed w)" "before (ed w) @ after (ed w) = keys" "heap_room EDITOR_ROOM (kheap (krn w))"
    "fat_write_data (c_string (filename (ed w))) ?buf ?sz (fs w) = Some u"
    using w(2-4) hw e(3) t(3) by (simp_all add: typed_def)
  obtain x h2 where x: "ed_save w = Some x" "host x = (u, (krn w)\<lparr>kheap := h2\<rparr>, filename (ed w))" "heap_room EDITOR_ROOM h2"
    using save_session [OF sw o(2)] by blast
  obtain s2 where s2: "edit_loop (KEY_CTRL_S # 0x1B # rest) w = Some (s2, rest)" "host s2 = host x"
    using save_and_leave [OF x(1)] by blast
  have h2: "fs s2 = u" "kheap (krn s2) = h2" using s2(2) x(2) by (simp_all add: host_def)
  obtain h3 p where p: "kmalloc 15600 (kheap (krn s2)) = Some (h3, p)" "p \<noteq> 0"
    using heap_room_alloc [OF x(3), of 15600] h2(2) by auto
  have iv: "heap_inv (kheap (krn s2))" using heap_room_inv [OF x(3)] h2(2) by simp
  have rd: "fat_read_file ?a (fs s2) = Some (v, ?sz, bytes)" using t(4) h2(1) by simp
  have lb: "unat ?sz \<le> length bytes" "length bytes \<le> 15600"
    using t(5,9) usz assms(12) by (metis length_take min.cobounded1 min.absorb_iff2, simp)
  have sz: "?sz \<noteq> 0" using usz by auto
  from cat_prints [OF iv p rd o(3) nm(1) sz lb] obtain s3 where
    s3: "cmd_cat nm s2 = Some s3" "con s3 = console_print (take (unat ?sz) bytes @ [10]) (con s2)" by auto
  have "con s3 = console_print (keys @ [10, 10]) (con s2)"
    using s3(2) t(5) unfolding usz [symmetric] by simp
  then show ?thesis
    using create_line [OF assms(5,7)] edit_line [OF assms(5)] cat_line [OF assms(5)] c1 e(1) w(1) s2(1) s3(1) t(10) h2(1)
    by (intro exI [of _ ?s1] exI [of _ s2] exI [of _ s3]) simp
qed

text \<open>Two lines typed into \<open>A.B\<close> on the small volume, with the heap as \<^verbatim>\<open>kmalloc_init\<close> leaves it.\<close>

lemma edited_file_is_shown_witness:
  "\<exists>s1 s2 s3. shell_execute (bytes_of ''create A B'') [] file_system_up = Some (s1, []) \<and>
    shell_execute (bytes_of ''/edit A'') [0x68, 0x69, 10, 0x21, KEY_CTRL_S, 0x1B] s1 = Some (s2, []) \<and>
    shell_execute (bytes_of ''cat A'') [] s2 = Some (s3, []) \<and>
    con s3 = console_print [0x68, 0x69, 10, 0x21, 10, 10] (con s2)"
proof -
  let ?s = file_system_up and ?k = "[0x68, 0x69, 10, 0x21] :: u8 list"
  have s: "fs ?s = small_fs" "kheap (krn ?s) = fresh_heap" by (simp_all add: file_system_up_def)
  have r: "\<forall>b. holds b [0x41] \<longrightarrow> room_for b 2049 0 small_fs"
    using small_fs_room(2) by (auto simp: holds_def)
  have o: "out small_fs = []" by (simp add: small_fs_def)
  have w: "word_ok [0x41]" "word_ok [0x42]" by (simp_all add: word_ok_def)
  have k: "list_all text_key ?k" "text_fits ?k" by (simp_all add: text_key_def text_fits_def)
  have "merged [(0xFFFE0, False)]" by (simp add: merged_def)
  then have h: "heap_room (unat SIZEOF_EDITOR + 32 + EDITOR_ROOM) fresh_heap"
    using fresh_heap_view unfolding heap_room_def by (intro exI [of _ "[(0xFFFE0, False)]"] exI [of _ "0xFFFE0"]) simp
  have b: "bytes_of ''create '' @ [0x41] @ 0x20 # [0x42] = bytes_of ''create A B''"
    "bytes_of ''/edit '' @ [0x41] = bytes_of ''/edit A''" "bytes_of ''cat '' @ [0x41] = bytes_of ''cat A''"
    by (simp_all add: bytes_of_def of_char_def)
  from edited_file_is_shown [where s = ?s and nm = "[0x41]" and rest = "[]", unfolded s,
      OF small_fs_room(1) r small_fs_free o w(1) _ w(2) k refl _ _ h]
  show ?thesis unfolding b by (auto simp: small_fs_root)
qed

end
