(* ===== verification/Fat_Dirs.thy ===== *)
theory Fat_Dirs
  imports Fat_Data
begin

text \<open>
  Directories of \<^verbatim>\<open>src/src/drivers/fs/fat.c\<close>: what making one, entering it and leaving it again do
  together.
\<close>

section \<open>The first sector of a new directory\<close>

definition dot_sector :: "u32 \<Rightarrow> u32 \<Rightarrow> sector" where
  "dot_sector c p =
     (let b = write_entry 0 (dot_entry [0x2E] c (read_entry (replicate 512 0) 0)) (replicate 512 0)
      in write_entry 1 (dot_entry [0x2E, 0x2E] p (read_entry b 1)) b)"

lemma init_dir_cluster: "fat_init_dir_cluster c p s = ata_write (cluster_sector c s) (dot_sector c p) s"
  by (simp add: fat_init_dir_cluster_def dot_sector_def Let_def)

lemma dot_entry_wf: "entry_wf e \<Longrightarrow> length ds \<le> 8 \<Longrightarrow> entry_wf (dot_entry ds c e)"
  by (simp add: entry_wf_def dot_entry_def set_cluster_def)

lemma dot_sector_entries:
  shows "length (dot_sector c p) = 512" "entry_cluster (read_entry (dot_sector c p) 1) = p"
    "entry_cluster (read_entry (dot_sector c p) 0) = c"
    "de_name (read_entry (dot_sector c p) 1) = [0x2E, 0x2E] @ replicate 6 SPACE"
    "de_name (read_entry (dot_sector c p) 0) = [0x2E] @ replicate 7 SPACE"
proof -
  let ?z = "replicate 512 0 :: sector"
  let ?e0 = "dot_entry [0x2E] c (read_entry ?z 0)"
  define b where "b = write_entry 0 ?e0 ?z"
  let ?e1 = "dot_entry [0x2E, 0x2E] p (read_entry b 1)"
  have w0: "entry_wf ?e0" by (rule dot_entry_wf [OF read_entry_wf]) simp_all
  have lb: "length b = 512" using length_write_entry [OF w0, of 0 ?z] by (simp add: b_def)
  have w1: "entry_wf ?e1" by (rule dot_entry_wf [OF read_entry_wf]) (simp_all add: lb)
  have d: "dot_sector c p = write_entry 1 ?e1 b" by (simp add: dot_sector_def b_def Let_def)
  show "length (dot_sector c p) = 512" using length_write_entry [OF w1, of 1 b] lb by (simp add: d)
  have r1: "read_entry (dot_sector c p) 1 = ?e1" using read_write_entry [OF w1, of 1 b] lb by (simp add: d)
  have r0: "read_entry (dot_sector c p) 0 = ?e0"
    using read_write_entry_other [OF w1, of 1 b 0] read_write_entry [OF w0, of 0 ?z] lb by (simp add: d b_def)
  show "entry_cluster (read_entry (dot_sector c p) 1) = p" "entry_cluster (read_entry (dot_sector c p) 0) = c"
    "de_name (read_entry (dot_sector c p) 1) = [0x2E, 0x2E] @ replicate 6 SPACE"
    "de_name (read_entry (dot_sector c p) 0) = [0x2E] @ replicate 7 SPACE"
    unfolding r0 r1 by (simp_all add: dot_entry_def) (simp_all add: set_cluster_def numeral_eq_Suc)
qed

section \<open>Making a directory\<close>

text \<open>What has been printed and not yet shown does not matter.\<close>

lemma out_fields [simp]:
  "spc (s\<lparr>out := x\<rparr>) = spc s" "ata_read l (s\<lparr>out := x\<rparr>) = ata_read l s"
  "cluster_sector c (s\<lparr>out := x\<rparr>) = cluster_sector c s" "sector_of c k (s\<lparr>out := x\<rparr>) = sector_of c k s"
  "fat_sector c (s\<lparr>out := x\<rparr>) = fat_sector c s" "total_clusters (s\<lparr>out := x\<rparr>) = total_clusters s"
  "in_table (s\<lparr>out := x\<rparr>) c = in_table s c" "cache_ok (s\<lparr>out := x\<rparr>) = cache_ok s"
  "seen (s\<lparr>out := x\<rparr>) = seen s"
  by (simp_all add: spc_def ata_read_def cluster_sector_def sector_of_def fat_sector_def total_clusters_def
      in_table_def cache_ok_def)
    (rule ext, auto simp: seen_def)

lemma out_data [simp]:
  "fat_entry (s\<lparr>out := x\<rparr>) = fat_entry s" "in_volume (s\<lparr>out := x\<rparr>) = in_volume s" "geometry (s\<lparr>out := x\<rparr>) = geometry s"
  "find_in_cluster P c (s\<lparr>out := x\<rparr>) = find_in_cluster P c s" "cluster_sectors (s\<lparr>out := x\<rparr>) = cluster_sectors s"
  by (simp_all add: fun_eq_iff fat_entry_def in_volume_def find_in_cluster_def geometry_def cluster_sectors_def
      cong: option.case_cong)

lemma out_ok [simp]: "data_ok (s\<lparr>out := x\<rparr>) = data_ok s" "all_free (s\<lparr>out := x\<rparr>) = all_free s"
  by (simp_all add: data_ok_def clean_def all_free_def)

lemma kprint_fields [simp]:
  "spc (kprint ms s) = spc s" "cwd_cluster (kprint ms s) = cwd_cluster s" "data_start (kprint ms s) = data_start s"
  "root_cluster (kprint ms s) = root_cluster s" "cwd_path (kprint ms s) = cwd_path s"
  "ata_read l (kprint ms s) = ata_read l s" "sector_of c k (kprint ms s) = sector_of c k s"
  "fat_entry (kprint ms s) = fat_entry s" "in_volume (kprint ms s) = in_volume s" "geometry (kprint ms s) = geometry s"
  "find_in_cluster P c (kprint ms s) = find_in_cluster P c s" "cluster_sectors (kprint ms s) = cluster_sectors s"
  "data_ok (kprint ms s) = data_ok s" "all_free (kprint ms s) = all_free s"
  by (simp_all add: kprint_def)

lemma no_name_in_dir:
  assumes none: "find_in_cluster (named name) d s = None"
  shows "\<not> taken name (cluster_entries d s)"
proof -
  have "\<not> named name e" if e: "e \<in> set (cluster_entries d s)" for e
  proof -
    obtain k j where k: "k < spc s" "j < 16" "e = read_entry (ata_read (sector_of d k s) s) j"
      using e by (auto simp: cluster_entries_def sector_entries_def)
    have "find_entry (named name) (ata_read (sector_of d k s) s) = None"
      by (rule find_in_cluster_None [OF none k(1)])
    then show ?thesis using k(2,3) by (simp add: find_entry_def find_None_iff)
  qed
  then show ?thesis by (auto simp: taken_def dest!: set_takeWhileD)
qed

text \<open>The check for duplicates changes the cached sector at most.\<close>

lemma dir_exists_not:
  assumes ok: "data_ok s" and d: "in_volume s d" "fat_entry s d = 0x0FFFFFFF"
    and none: "find_in_cluster (named name) d s = None"
  shows "\<exists>t. dir_exists_from name d s = Some (t, False) \<and> data_ok t \<and> same_rest s t \<and> seen t = seen s"
proof -
  obtain s1 n where nx: "fat_next_cluster d s = (s1, n)" by fastforce
  note 1 = next_data [OF ok d(1) nx]
  have n: "n = 0x0FFFFFFF" using 1(4) d(2) by simp
  have "dir_exists_from name n s1 = Some (s1, False)" by (subst dir_exists_from.simps) (simp add: n)
  moreover have "d < END_OF_CHAIN" using volume_below_end(1) [OF _ d(1)] ok by (simp add: data_ok_def)
  ultimately have "dir_exists_from name d s = Some (if \<forall>e\<in>set (cluster_entries d s). not_end e then s1 else s, False)"
    using no_name_in_dir [OF none] nx by (subst dir_exists_from.simps) (simp add: Let_def)
  then show ?thesis using 1 ok by (cases "\<forall>e\<in>set (cluster_entries d s). not_end e") (auto simp: same_rest_def)
qed

lemma new_dir_wf: "holds name cs \<Longrightarrow> entry_wf e \<Longrightarrow> entry_wf (new_dir name e)"
  using put_name_spec [of name cs] by (auto simp: entry_wf_def new_dir_def min_def)

text \<open>
  A directory just made: the one entry of its name leads to its cluster, whose first sector holds
  the two entries with dots.
\<close>

definition fresh_dir :: "u8 list \<Rightarrow> u32 \<Rightarrow> nat \<Rightarrow> u32 \<Rightarrow> fatfs \<Rightarrow> bool" where
  "fresh_dir name l i c s \<longleftrightarrow> in_volume s c \<and> c \<noteq> cwd_cluster s \<and> find_in_cluster (dir_named name) (cwd_cluster s) s = Some (l, i) \<and>
     entry_cluster (read_entry (ata_read l s) i) = c \<and>
     (\<forall>k. k < spc s \<longrightarrow> sector_of (cwd_cluster s) k s \<noteq> l \<longrightarrow>
        find_entry (dir_named name) (ata_read (sector_of (cwd_cluster s) k s) s) = None) \<and>
     ata_read (cluster_sector c s) s = dot_sector c (cwd_cluster s)"

lemma new_dir_named:
  assumes "holds name cs" and "holds nm cs" and "length cs \<le> 8"
  shows "dir_named nm (set_cluster f (new_dir name e))"
proof -
  have "str_equal_fat (put_name nm) nm"
    using fat_name_lookup [OF assms(2), of "replicate 8 SPACE"] assms(3) by simp
  then have "str_equal_fat (put_name name) nm"
    using put_name_spec [OF assms(1)] put_name_spec [OF assms(2)] by simp
  then show ?thesis by (simp add: dir_named_def named_def new_dir_def set_cluster_def)
qed

text \<open>Writing the first sector of a cluster leaves the sectors of every other cluster.\<close>

lemma first_sector_write:
  assumes ok: "data_ok s" and f: "in_volume s f" and b: "length b = 512"
  defines "t \<equiv> ata_write (cluster_sector f s) b s"
  shows "data_ok t" "same_rest s t" "ata_read (cluster_sector f s) t = b"
    "in_volume s x \<Longrightarrow> fat_entry t x = fat_entry s x"
    "in_volume s x \<Longrightarrow> x \<noteq> f \<Longrightarrow> l \<in> cluster_sectors s x \<Longrightarrow> seen t l = seen s l \<and> ata_read l t = ata_read l s"
proof -
  have g: "geometry s" "clean s" using ok by (simp_all add: data_ok_def)
  have sp: "0 < spc s" using g(1) by (simp add: geometry_def spc_def unat_gt_0)
  have f0: "sector_of f 0 s = cluster_sector f s" by (simp add: sector_of_def)
  note at = sector_of_at [OF g(1) f sp, unfolded f0]
  note w = data_ok_write [OF ok f sp b, unfolded f0, folded t_def]
  have cw: "clean t" using w(1) by (simp add: data_ok_def)
  show "data_ok t" "same_rest s t" by (fact w)+
  show "ata_read (cluster_sector f s) t = b" using clean_read [OF cw at(3)] w(2) by simp
  show "fat_entry t x = fat_entry s x" if "in_volume s x"
    by (rule volume_entry [OF w(3) g(1) that]) (use w(2) at(4) in auto)
  show "seen t l = seen s l \<and> ata_read l t = ata_read l s" if x: "in_volume s x" "x \<noteq> f" "l \<in> cluster_sectors s x"
  proof -
    have "l \<noteq> cluster_sector f s" using cluster_sectors_disjoint [OF g(1) x(1) f x(2,3)] at(2) by auto
    then have "seen t l = seen s l" using w(2) by simp
    moreover have "l < 0x10000000" using cluster_sectors_data(2) [OF g(1) x(1,3)] .
    ultimately show ?thesis using clean_read [OF cw] clean_read [OF g(2)] by simp
  qed
qed

lemma find_in_cluster_NoneI:
  assumes "\<And>k. k < spc s \<Longrightarrow> find_entry P (ata_read (sector_of c k s) s) = None"
  shows "find_in_cluster P c s = None"
proof -
  have "find (\<lambda>k. find_entry P (ata_read (sector_of c k s) s) \<noteq> None) [0..<spc s] = None"
    unfolding find_None_iff using assms by auto
  then show ?thesis by (simp add: find_in_cluster_def)
qed

lemma dir_placed:
  assumes ok: "data_ok s" and d: "in_volume s d" "fat_entry s d \<noteq> 0" "cwd_cluster s = d"
    and slot: "find_in_cluster free_slot d s = Some (l, i)" and free: "all_free s = f # frs" and name: "holds name cs" "length cs \<le> 8"
  shows "\<exists>w. place_dir name d s = Some w \<and> data_ok w \<and> same_rest s w \<and>
    (\<forall>nm. holds nm cs \<longrightarrow> find_in_cluster (named nm) d s = None \<longrightarrow> fresh_dir nm l i f w) \<and>
    in_volume s f \<and> fat_entry s f = 0 \<and>
    (\<forall>x. in_volume s x \<longrightarrow> x \<noteq> f \<longrightarrow> fat_entry w x = fat_entry s x \<and>
       (x \<noteq> d \<longrightarrow> cluster_bytes w x = cluster_bytes s x))"
proof -
  have g: "geometry s" "clean s" using ok by (simp_all add: data_ok_def)
  let ?e = "set_cluster f (new_dir name (read_entry (ata_read l s) i))"
  obtain t where t: "fill_slot (new_dir name) l i s = (t, f)" "data_ok t" "same_rest s t" "l \<in> cluster_sectors s d"
    "in_volume s f" "fat_entry s f = 0" "f \<noteq> d" "read_entry (ata_read l t) i = ?e"
    "\<And>P. find_in_cluster P d s = None \<Longrightarrow> P ?e \<Longrightarrow> find_in_cluster P d t = Some (l, i)"
    "\<And>x. in_volume s x \<Longrightarrow> fat_entry t x = (if x = f then 0x0FFFFFFF else fat_entry s x)"
    "\<And>m. data_start s \<le> m \<Longrightarrow> m \<noteq> l \<Longrightarrow> seen t m = seen s m"
    using slot_filled [where g = "new_dir name", OF ok d(1,2) slot free new_dir_wf [OF name(1)]] by blast
  have gt: "geometry t" "clean t" using t(2) by (simp_all add: data_ok_def)
  have v: "in_volume t x = in_volume s x" "cluster_sectors t x = cluster_sectors s x" "sector_of x k t = sector_of x k s"
    "spc t = spc s" for x k
    using in_volume_same [OF t(3)] cluster_sectors_same [OF t(3)] same_rest_sector [OF t(3)] by simp_all
  define w where "w = ata_write (cluster_sector f t) (dot_sector f d) t"
  have ft: "in_volume t f" "in_volume t d" using t(5) v d(1) by simp_all
  note w = first_sector_write [OF t(2) ft(1) dot_sector_entries(1) [of f d], folded w_def]
  have sw: "same_rest s w" by (rule same_rest_trans [OF t(3) w(2)])
  have vw: "sector_of x k w = sector_of x k s" "spc w = spc s" for x k using same_rest_sector [OF sw] by simp_all
  have made: "place_dir name d s = Some w"
    by (subst place_dir.simps) (simp add: slot t(1) init_dir_cluster w_def)
  have rw: "ata_read (sector_of d k s) w = ata_read (sector_of d k s) t" if "k < spc s" for k
    using w(5) [OF ft(2) t(7) [symmetric]] sector_of_at(2) [OF g(1) d(1) that] v by simp
  have fresh: "fresh_dir nm l i f w" if nm: "holds nm cs" "find_in_cluster (named nm) d s = None" for nm
  proof -
    have nod: "find_entry (dir_named nm) (ata_read (sector_of d k s) s) = None" if "k < spc s" for k
      using find_in_cluster_None [OF nm(2) that] by (auto simp: find_entry_def find_None_iff dir_named_def)
    have "find_in_cluster (dir_named nm) d s = None"
      using nod by (rule find_in_cluster_NoneI)
    then have hit: "find_in_cluster (dir_named nm) d t = Some (l, i)"
      by (intro t(9) [of "dir_named nm"] new_dir_named [OF name(1) nm(1) name(2)])
    have "find_in_cluster (dir_named nm) d w = Some (l, i)"
      using find_in_cluster_cong [OF w(2), of "dir_named nm" d] rw v hit by simp
    moreover obtain k where k: "k < spc s" "l = sector_of d k s" using find_in_cluster_hit [OF slot] by metis
    moreover have "ata_read l w = ata_read l t" using rw [OF k(1)] k(2) by simp
    moreover have "find_entry (dir_named nm) (ata_read (sector_of d j s) w) = None"
      if j: "j < spc s" "sector_of d j s \<noteq> l" for j
    proof -
      note at = sector_of_at [OF g(1) d(1) j(1)]
      have "seen t (sector_of d j s) = seen s (sector_of d j s)" using t(11) at(4) j(2) by simp
      then show ?thesis using rw [OF j(1)] nod [OF j(1)] clean_read [OF gt(2) at(3)] clean_read [OF g(2) at(3)] by simp
    qed
    moreover have "ata_read (cluster_sector f w) w = dot_sector f d"
      using w(2,3) by (simp add: cluster_sector_def same_rest_def)
    moreover have "in_volume w f" "cwd_cluster w = d" using ft(1) in_volume_same [OF w(2)] sw d(3) by (simp_all add: same_rest_def)
    ultimately show ?thesis using t(7,8) by (simp add: fresh_dir_def vw)
  qed
  have other: "fat_entry w x = fat_entry s x \<and> (x \<noteq> d \<longrightarrow> cluster_bytes w x = cluster_bytes s x)"
    if x: "in_volume s x" "x \<noteq> f" for x
  proof (intro conjI impI)
    show "fat_entry w x = fat_entry s x" using w(4) [of x] t(10) [OF x(1)] x v by simp
    assume xd: "x \<noteq> d"
    show "cluster_bytes w x = cluster_bytes s x"
    proof (rule cluster_bytes_cong [OF sw g(1) x(1)])
      fix m assume m: "m \<in> cluster_sectors s x"
      then have "m \<noteq> l" using cluster_sectors_disjoint [OF g(1) x(1) d(1) xd] t(4) by auto
      then have "seen t m = seen s m" using t(11) cluster_sectors_data(1) [OF g(1) x(1) m] by simp
      then show "seen w m = seen s m" using w(5) [of x m] x v m by simp
    qed
  qed
  show ?thesis using made w(1) sw fresh t(5,6) other by (intro exI [of _ w]) simp
qed

lemma create_dir_makes:
  assumes ok: "data_ok s" and dir: "room_for name l i s" and free: "all_free s = f # frs" and name: "holds name cs" "length cs \<le> 8"
  shows "\<exists>t. fat_create_dir name s = Some t \<and> data_ok t \<and> same_rest (kprint (map Char cs @ [Char 10]) s) t \<and>
    (\<forall>nm. holds nm cs \<longrightarrow> room_for nm l i s \<longrightarrow> fresh_dir nm l i f t) \<and> in_volume s f \<and> fat_entry s f = 0 \<and>
    (\<forall>x. in_volume s x \<longrightarrow> x \<noteq> f \<longrightarrow> fat_entry t x = fat_entry s x \<and>
       (x \<noteq> cwd_cluster s \<longrightarrow> cluster_bytes t x = cluster_bytes s x))"
proof -
  let ?d = "cwd_cluster s" and ?s = "kprint (map Char cs @ [Char 10]) s"
  have g: "geometry s" using ok by (simp add: data_ok_def)
  note r = dir [unfolded room_for_def]
  have d: "in_volume s ?d" "fat_entry s ?d = 0x0FFFFFFF" and none: "find_in_cluster (named name) ?d s = None"
    and slot: "find_in_cluster free_slot ?d s = Some (l, i)" using r by blast+
  obtain s1 where s1: "dir_exists_from name ?d ?s = Some (s1, False)" "data_ok s1" "same_rest ?s s1" "seen s1 = seen s"
    using dir_exists_not [of ?s ?d name] ok d none by auto
  have v: "in_volume s1 x = in_volume s x" "fat_entry s1 x = fat_entry s x" "cluster_bytes s1 x = cluster_bytes s x" for x
    using in_volume_same [OF s1(3)] fat_entry_same [OF s1(3)] s1(4) same_rest_sector [OF s1(3)]
    by (simp_all add: cluster_bytes_def)
  have cl: "clean s" "clean s1" using ok s1(2) by (simp_all add: data_ok_def)
  have "ata_read (sector_of ?d k s) s1 = ata_read (sector_of ?d k s) s" if "k < spc s" for k
    using clean_read [OF cl(1)] clean_read [OF cl(2)] s1(4) sector_of_at(3) [OF g d(1) that] by simp
  then have same: "find_in_cluster P ?d s1 = find_in_cluster P ?d s" for P
    using find_in_cluster_cong [OF s1(3), of P ?d] by simp
  have af: "all_free s1 = f # frs"
    using all_free_filter [OF _ s1(3), of "\<lambda>_. True"] g v(2) free by simp
  have d1: "in_volume s1 ?d" "fat_entry s1 ?d \<noteq> 0" "cwd_cluster s1 = ?d"
    "find_in_cluster free_slot ?d s1 = Some (l, i)"
    using d v same slot s1(3) by (simp_all add: same_rest_def)
  obtain w where w: "place_dir name ?d s1 = Some w" "data_ok w" "same_rest s1 w"
    "\<forall>nm. holds nm cs \<longrightarrow> find_in_cluster (named nm) ?d s1 = None \<longrightarrow> fresh_dir nm l i f w"
    "in_volume s1 f" "fat_entry s1 f = 0"
    "\<forall>x. in_volume s1 x \<longrightarrow> x \<noteq> f \<longrightarrow> fat_entry w x = fat_entry s1 x \<and>
       (x \<noteq> ?d \<longrightarrow> cluster_bytes w x = cluster_bytes s1 x)"
    using dir_placed [OF s1(2) d1 af name] by blast
  have "fat_create_dir name s = Some w"
    using holds_cstring [OF name(1)] name(2) w(1) by (simp add: fat_create_dir_def s1(1) d1(3))
  moreover have "\<forall>nm. holds nm cs \<longrightarrow> room_for nm l i s \<longrightarrow> fresh_dir nm l i f w"
    using w(4) same by (auto simp: room_for_def)
  ultimately show ?thesis using w(2,5-7) same_rest_trans [OF s1(3) w(3)] v by (intro exI [of _ w]) simp
qed

section \<open>Entering it\<close>

abbreviation moved :: "u32 \<Rightarrow> u8 list \<Rightarrow> fatfs \<Rightarrow> fatfs" where
  "moved c p s \<equiv> s\<lparr>cwd_cluster := c, cwd_path := p\<rparr>"

lemma str_end_moves: "str_end name (s\<lparr>cwd_cluster := c\<rparr>) = moved c (cwd_path (str_end name s)) s"
  by (simp add: str_end_def Let_def split: option.split)

lemma moved_data [simp]:
  "seen (moved c p s) = seen s" "ata_read l (moved c p s) = ata_read l s" "spc (moved c p s) = spc s"
  "sector_of d k (moved c p s) = sector_of d k s" "cluster_sector d (moved c p s) = cluster_sector d s"
  "fat_sector d (moved c p s) = fat_sector d s" "total_clusters (moved c p s) = total_clusters s"
  "in_table (moved c p s) d = in_table s d" "cache_ok (moved c p s) = cache_ok s"
  by (rule ext, simp add: seen_def split del: if_split cong: if_cong) (simp_all add: ata_read_def spc_def sector_of_def cluster_sector_def fat_sector_def
      total_clusters_def in_table_def cache_ok_def)

lemma moved_ok [simp]:
  "in_volume (moved c p s) d = in_volume s d" "fat_entry (moved c p s) d = fat_entry s d"
  "data_ok (moved c p s) = data_ok s" "cluster_bytes (moved c p s) d = cluster_bytes s d"
  by (simp_all add: in_volume_def fat_entry_def cluster_bytes_def data_ok_def clean_def geometry_def)

lemma open_nothing:
  "(\<And>k. k \<in> set ks \<Longrightarrow> find_entry (dir_named name) (ata_read (sector_of c k s) s) = None) \<Longrightarrow>
     fold (open_sector name c) ks (s, b) = (s, b)"
  by (induction ks) (simp_all add: open_sector_def)

lemma open_dir_enters:
  assumes ok: "data_ok s" and d: "in_volume s (cwd_cluster s)" and f: "fresh_dir name l i c s"
  shows "\<exists>u. fat_open_dir name s = Some u \<and> data_ok u \<and> seen u = seen s \<and>
    same_rest (moved c (cwd_path (str_end name s)) s) u"
proof -
  let ?d = "cwd_cluster s" and ?m = "moved c (cwd_path (str_end name s)) s"
  have g: "geometry s" using ok by (simp add: data_ok_def)
  note fd = f [unfolded fresh_dir_def]
  have hit: "find_in_cluster (dir_named name) ?d s = Some (l, i)" using fd by blast
  obtain k where k: "k < spc s" "l = sector_of ?d k s" "find_entry (dir_named name) (ata_read l s) = Some i"
    by (rule find_in_cluster_hit [OF hit])
  have no: "find_entry (dir_named name) (ata_read (sector_of ?d j s) s) = None" if "j < spc s" "j \<noteq> k" for j
    using fd that sector_of_inj [OF g d that(1) k(1)] k(2) by blast
  have up: "[0..<spc s] = [0..<k] @ k # [Suc k..<spc s]"
    using k(1) upt_add_eq_append [of 0 k "spc s - k"] upt_conv_Cons [of k "spc s"] by simp
  have "fold (open_sector name ?d) [0..<k] (s, False) = (s, False)"
    by (rule open_nothing) (use no k(1) in simp)
  moreover have "open_sector name ?d k (s, False) = (?m, True)"
    using k fd by (simp add: open_sector_def str_end_moves)
  moreover have "fold (open_sector name ?d) [Suc k..<spc s] (?m, True) = (?m, True)"
    by (rule open_nothing) (use no in simp)
  ultimately have fo: "fold (open_sector name ?d) [0..<spc s] (s, False) = (?m, True)" unfolding up by simp
  obtain u n where nx: "fat_next_cluster ?d ?m = (u, n)" by fastforce
  have "data_ok ?m" "in_volume ?m ?d" using ok d by simp_all
  note u = next_data [OF this nx]
  have "open_from name ?d False s = Some (u, True)"
    by (subst open_from.simps) (simp add: volume_below_end(1) [OF g d] fo nx)
  then have "fat_open_dir name s = Some u" by (simp add: fat_open_dir_def)
  then show ?thesis using u(1-3) by simp
qed

section \<open>And leaving it\<close>

lemma enter_and_leave:
  assumes ok: "data_ok t" and d: "in_volume t (cwd_cluster t)" and f: "fresh_dir name l i f t" "f \<noteq> root_cluster t"
    and name: "holds name cs" "cs \<noteq> []" "SLASH \<notin> set cs"
    and path: "holds (cwd_path t) pre" "length (cwd_path t) = 256" "length pre + length cs + 2 \<le> 256" "pre \<noteq> []" "last pre = SLASH"
  shows "\<exists>u. fat_open_dir name t = Some u \<and> cwd_cluster u = f \<and> root_cluster u = root_cluster t \<and>
    cstring (cwd_path u) = pre @ cs @ [SLASH] \<and>
    fat_cd_back u = moved (cwd_cluster t) (path_back (cwd_path u)) u \<and> cstring (path_back (cwd_path u)) = pre \<and>
    (\<forall>x. fat_entry u x = fat_entry t x \<and> cluster_bytes u x = cluster_bytes t x)"
proof -
  obtain u where u: "fat_open_dir name t = Some u" "data_ok u" "seen u = seen t"
    "same_rest (moved f (cwd_path (str_end name t)) t) u"
    using open_dir_enters [OF ok d f(1)] by blast
  have su: "cwd_cluster u = f" "cwd_path u = cwd_path (str_end name t)" "root_cluster u = root_cluster t"
    "cluster_sector x u = cluster_sector x t" "fat_entry u x = fat_entry t x" "cluster_bytes u x = cluster_bytes t x" for x
    using u(4) fat_entry_same [OF u(4)] u(3) same_rest_sector [OF u(4)]
    by (simp_all add: same_rest_def cluster_sector_def cluster_bytes_def)
  have to: "holds (cwd_path u) (pre @ cs @ [SLASH])"
    using str_end_holds [of t pre name cs] name path su(2) by simp
  have ret: "cstring (path_back (cwd_path u)) = pre"
    using path_enter_leave [of t pre name cs] name path su(2) holds_cstring [OF path(1)] by simp
  have rd: "ata_read (cluster_sector f u) u = dot_sector f (cwd_cluster t)"
  proof -
    have fv: "in_volume t f" using f(1) by (simp add: fresh_dir_def)
    have g: "geometry t" "clean t" "clean u" using ok u(2) by (simp_all add: data_ok_def)
    then have "0 < spc t" by (simp add: geometry_def spc_def unat_gt_0)
    from sector_of_at(3) [OF g(1) fv this] have "cluster_sector f t < 0x10000000" by (simp add: sector_of_def)
    from clean_read [OF g(2) this] clean_read [OF g(3) this] show ?thesis
      using f(1) u(3) su(4) by (simp add: fresh_dir_def)
  qed
  have "2 \<le> unat (cwd_cluster t)" using d by (simp add: in_volume_def)
  then have "cwd_cluster t \<noteq> 0" by auto
  then have "fat_cd_back u = moved (cwd_cluster t) (path_back (cwd_path u)) u"
    using f(2) by (simp add: fat_cd_back_def su(1,3) rd dot_sector_entries(2) [unfolded One_nat_def] Let_def)
  then show ?thesis using u(1) su(1,3,5,6) holds_cstring [OF to] ret by (intro exI [of _ u]) simp
qed

end
