(* ===== verification/Shell_Dirs.thy ===== *)
theory Shell_Dirs
  imports Edit_Session Fat_Dirs
begin

text \<open>
  Directories through the shell: the lines \<^verbatim>\<open>mkdir\<close>, \<^verbatim>\<open>cd\<close> and \<^verbatim>\<open>cd ..\<close> of \<^verbatim>\<open>src/src/kernel/shell/shell.c\<close>
  on the volume of \<^verbatim>\<open>src/src/drivers/fs/fat.c\<close>.
\<close>

section \<open>The lines\<close>

lemma mkdir_line:
  assumes "word_ok nm" and "length nm < 16"
  shows "shell_execute (bytes_of ''mkdir '' @ nm) keys s
    = map_option (\<lambda>s. (s, keys)) (on_fs (fat_create_dir (c_array 16 nm)) s)"
proof -
  have p: "pieces (bytes_of ''mkdir '' @ nm) = [bytes_of ''mkdir'', nm]"
    using assms by (simp add: word_ok_def bytes_of_def of_char_def pieces_word)
  have c: "str_copy nm (replicate 16 0) = Some (c_array 16 nm)"
    using assms(2) by (simp add: str_copy_spec c_array_def Suc_diff_Suc flip: replicate_Suc)
  have "shell_execute (bytes_of ''mkdir '' @ nm) keys s = map_option (\<lambda>s. (s, keys)) (cmd_mkdir nm s)"
    using assms by (simp add: shell_execute_def split_piece p word_ok_def)
      (simp add: commands_def command_names_def bytes_of_def of_char_def)
  then show ?thesis using assms(1) c by (simp add: cmd_mkdir_def word_ok_def)
qed

lemma cd_line:
  assumes "word_ok nm"
  shows "shell_execute (bytes_of ''cd '' @ nm) keys s = map_option (\<lambda>s. (s, keys)) (cmd_cd nm s)"
proof -
  have p: "pieces (bytes_of ''cd '' @ nm) = [bytes_of ''cd'', nm]"
    using assms by (simp add: word_ok_def bytes_of_def of_char_def pieces_word)
  show ?thesis using assms
    by (simp add: shell_execute_def split_piece p word_ok_def)
      (simp add: commands_def command_names_def bytes_of_def of_char_def)
qed

section \<open>There and back\<close>

lemma fresh_dir_out [simp]: "fresh_dir name l i c (s\<lparr>out := x\<rparr>) = fresh_dir name l i c s"
  by (simp add: fresh_dir_def)

lemma cd_back_out:
  "cwd_cluster s \<noteq> root_cluster s \<Longrightarrow> fat_cd_back (s\<lparr>out := x\<rparr>) = (fat_cd_back s)\<lparr>out := x\<rparr>"
  by (simp add: fat_cd_back_def Let_def)

lemma moved_out: "moved c p (s\<lparr>out := x\<rparr>) = (moved c p s)\<lparr>out := x\<rparr>"
  by simp

lemma cluster_bytes_out [simp]: "cluster_bytes (s\<lparr>out := x\<rparr>) d = cluster_bytes s d"
  by (simp add: cluster_bytes_def)

text \<open>
  C10: Three lines of the shell.  In a directory of one cluster with room for an entry and none of that
  name, \<^verbatim>\<open>mkdir\<close> makes a directory; \<^verbatim>\<open>cd\<close> with its name leads to the first free cluster and a path
  with the name and a slash behind it; \<^verbatim>\<open>cd ..\<close> leads to the directory and the path from before; every
  file and every other directory keeps its clusters.
\<close>

theorem new_directory_entered_and_left:
  assumes "data_ok (fs s)" and "\<forall>b. holds b nm \<longrightarrow> room_for b l i (fs s)" and "all_free (fs s) = f # frs"
    and "word_ok nm" and "length nm \<le> 8" and "SLASH \<notin> set nm" and "take 2 nm \<noteq> bytes_of ''..''"
    and "holds (cwd_path (fs s)) pre" and "length (cwd_path (fs s)) = 256" and "length pre + length nm + 2 \<le> 256"
    and "pre \<noteq> []" and "last pre = SLASH"
    and "in_volume (fs s) (root_cluster (fs s))" and "fat_entry (fs s) (root_cluster (fs s)) \<noteq> 0"
  shows "\<exists>s1 s2 s3. shell_execute (bytes_of ''mkdir '' @ nm) rest s = Some (s1, rest) \<and>
    shell_execute (bytes_of ''cd '' @ nm) rest s1 = Some (s2, rest) \<and>
    shell_execute (bytes_of ''cd ..'') rest s2 = Some (s3, rest) \<and>
    cwd_cluster (fs s2) = f \<and> cstring (cwd_path (fs s2)) = pre @ nm @ [SLASH] \<and>
    cwd_cluster (fs s3) = cwd_cluster (fs s) \<and> cstring (cwd_path (fs s3)) = pre \<and>
    (\<forall>d. in_volume (fs s) d \<longrightarrow> fat_entry (fs s) d \<noteq> 0 \<longrightarrow> fat_entry (fs s3) d = fat_entry (fs s) d \<and>
       (d \<noteq> cwd_cluster (fs s) \<longrightarrow> cluster_bytes (fs s3) d = cluster_bytes (fs s) d))"
proof -
  let ?a = "c_array 16 nm" and ?b = "c_array 64 nm"
  have nm: "nm \<noteq> []" "length nm < 16" "length nm < 64" "0 \<notin> set nm"
    using assms(4,5) by (simp_all add: word_ok_def)
  have h: "holds ?a nm" "holds ?b nm" using holds_array nm by simp_all
  have r: "room_for ?a l i (fs s)" "room_for ?b l i (fs s)" using assms(2) h by simp_all
  obtain t where t: "fat_create_dir ?a (fs s) = Some t" "data_ok t"
    "same_rest (kprint (map Char nm @ [Char 10]) (fs s)) t"
    "\<forall>b. holds b nm \<longrightarrow> room_for b l i (fs s) \<longrightarrow> fresh_dir b l i f t" "fat_entry (fs s) f = 0"
    "\<forall>x. in_volume (fs s) x \<longrightarrow> x \<noteq> f \<longrightarrow> fat_entry t x = fat_entry (fs s) x \<and>
       (x \<noteq> cwd_cluster (fs s) \<longrightarrow> cluster_bytes t x = cluster_bytes (fs s) x)"
    using create_dir_makes [OF assms(1) r(1) assms(3) h(1) assms(5)] by blast
  let ?t = "t\<lparr>out := []\<rparr>"
  have st: "cwd_cluster ?t = cwd_cluster (fs s)" "cwd_path ?t = cwd_path (fs s)" "root_cluster ?t = root_cluster (fs s)"
    "in_volume ?t x = in_volume (fs s) x" for x
    using t(3) in_volume_same [OF t(3)] by (simp_all add: same_rest_def)
  have ok: "data_ok ?t" "in_volume ?t (cwd_cluster ?t)" "fresh_dir ?b l i f ?t" "f \<noteq> root_cluster ?t"
    using t(2,4,5) h(2) r(2) st assms(14) by (auto simp: room_for_def)
  obtain u where u: "fat_open_dir ?b ?t = Some u" "cwd_cluster u = f" "root_cluster u = root_cluster ?t"
    "cstring (cwd_path u) = pre @ nm @ [SLASH]" "fat_cd_back u = moved (cwd_cluster ?t) (path_back (cwd_path u)) u"
    "cstring (path_back (cwd_path u)) = pre"
    "\<forall>x. fat_entry u x = fat_entry ?t x \<and> cluster_bytes u x = cluster_bytes ?t x"
    using enter_and_leave [OF ok h(2) nm(1) assms(6), of pre] st(2) assms(8-12) by auto
  let ?s1 = "put_fs t s" and ?s2 = "put_fs u (put_fs t s)" and ?v = "(fat_cd_back u)\<lparr>out := []\<rparr>"
  have f1: "fs ?s1 = ?t" and f2: "fs ?s2 = u\<lparr>out := []\<rparr>" by (simp_all add: put_fs_def)
  have "cwd_cluster u \<noteq> root_cluster u" using u(2,3) ok(4) by simp
  note cdb = cd_back_out [OF this, of "[]"]
  have "shell_execute (bytes_of ''mkdir '' @ nm) rest s = Some (?s1, rest)"
    using mkdir_line [OF assms(4) nm(2)] t(1) by (simp add: on_fs_def)
  moreover have "shell_execute (bytes_of ''cd '' @ nm) rest ?s1 = Some (?s2, rest)"
    using cd_line [OF assms(4)] nm(1) assms(7) u(1) by (simp add: cmd_cd_def on_fs_def f1)
  moreover have "shell_execute (bytes_of ''cd '' @ bytes_of ''..'') rest ?s2 = Some (put_fs ?v ?s2, rest)"
    by (subst cd_line) (simp_all add: word_ok_def cmd_cd_def on_fs_def f2 cdb, simp_all add: bytes_of_def of_char_def)
  moreover have "bytes_of ''cd '' @ bytes_of ''..'' = bytes_of ''cd ..''" by (simp add: bytes_of_def)
  moreover have "fs (put_fs ?v ?s2) = ?v" by (simp add: put_fs_def)
  moreover have "f \<noteq> d" if "fat_entry (fs s) d \<noteq> 0" for d using that t(5) by auto
  ultimately show ?thesis using u(2,4,6,7) st(1) t(6)
    by (intro exI [of _ ?s1] exI [of _ ?s2] exI [of _ "put_fs ?v ?s2"]) (auto simp: f2 u(5))
qed

text \<open>A directory \<open>DO\<close> in the root of the small volume.\<close>

lemma new_directory_entered_and_left_witness:
  "\<exists>s1 s2 s3. shell_execute (bytes_of ''mkdir DO'') [] file_system_up = Some (s1, []) \<and>
     shell_execute (bytes_of ''cd DO'') [] s1 = Some (s2, []) \<and>
     shell_execute (bytes_of ''cd ..'') [] s2 = Some (s3, []) \<and>
     cwd_cluster (fs s2) = 3 \<and> cstring (cwd_path (fs s2)) = [SLASH, 0x44, 0x4F, SLASH] \<and> cwd_cluster (fs s3) = 2"
proof -
  let ?s = file_system_up
  have s: "fs ?s = small_fs" by (simp add: file_system_up_def)
  have p: "cwd_path small_fs = [SLASH] @ 0 # replicate 254 0"
    by (simp add: small_fs_def numeral_eq_Suc)
  then have h: "holds (cwd_path small_fs) [SLASH]" "length (cwd_path small_fs) = 256" by (auto simp: holds_def)
  have r: "in_volume small_fs (root_cluster small_fs)" "fat_entry small_fs (root_cluster small_fs) \<noteq> 0"
    using small_fs_room(2) [of "[0x44]"] by (simp_all add: room_for_def small_fs_root) (simp_all add: small_fs_def)
  have n: "\<forall>b. holds b [0x44, 0x4F] \<longrightarrow> room_for b 2049 0 small_fs"
    using small_fs_room(2) by (auto simp: holds_def)
  have w: "word_ok [0x44, 0x4F]" by (simp add: word_ok_def)
  have d: "take 2 [0x44, 0x4F] \<noteq> bytes_of ''..''" by (simp add: bytes_of_def of_char_def)
  have b: "bytes_of ''mkdir '' @ [0x44, 0x4F] = bytes_of ''mkdir DO''" "bytes_of ''cd '' @ [0x44, 0x4F] = bytes_of ''cd DO''"
    by (simp_all add: bytes_of_def of_char_def)
  from new_directory_entered_and_left [where s = ?s and nm = "[0x44, 0x4F]" and rest = "[]", unfolded s,
      OF small_fs_room(1) n small_fs_free w _ _ d h _ _ _ r]
  show ?thesis unfolding b by (auto simp: small_fs_root)
qed

end
