(* ===== verification/Typed_Line.thy ===== *)
theory Typed_Line
  imports Shell_Line
begin

text \<open>
  From the keys to the command: the keyboard's interrupt handler (\<^verbatim>\<open>src/src/drivers/keyboard.c\<close>) and
  the shell's loop (\<^verbatim>\<open>src/src/kernel/shell/shell.c\<close>) together, with interrupts arriving while the
  shell reads.
\<close>

text \<open>The scan codes among the events of a session.\<close>

fun scans :: "kb_event list \<Rightarrow> u8 list" where
  "scans [] = []"
| "scans (Scan sc # es) = sc # scans es"
| "scans (Look # es) = scans es"

lemma queue_scans:
  "keys_effect (scans es) m = Some (m', bs) \<Longrightarrow> \<exists>ops. queue_ops es m = Some ops \<and> pushed ops = bs"
proof (induction es arbitrary: m bs rule: scans.induct)
  case (2 sc es)
  obtain m1 t1 t2 where k: "key_effect sc m = Some (m1, t1)" "keys_effect (scans es) m1 = Some (m', t2)" "bs = t1 @ t2"
    using "2.prems" by (auto split: option.splits)
  obtain ops where "queue_ops es m1 = Some ops" "pushed ops = t2" using "2.IH" [OF k(2)] by blast
  then show ?case using k by simp
next
  case (3 es)
  obtain ops where "queue_ops es m = Some ops" "pushed ops = bs"
    using "3.IH" [of m bs] "3.prems" by (auto simp only: scans.simps)
  then show ?case by (intro exI [of _ "Pop # ops"]) simp
qed auto

lemma in_time_few: "n + length (pushed ops) \<le> r \<Longrightarrow> in_time r n ops"
proof (induction ops arbitrary: n rule: pushed.induct)
  case (3 ops)
  have "n - 1 + length (pushed ops) \<le> r" using "3.prems" by simp
  then show ?case using "3.IH" by simp
qed simp_all

lemma typed_line_read:
  assumes "kb_ok s" and "kb_items s = []" and "mods s = no_mods" and "length keys < KB_BUFFER_SIZE"
    and "list_all2 (\<lambda>c ks. keystrokes c = Some ks) keys kss" and "scans es = concat kss"
  shows "\<exists>bs s'. run_kb es s = Some (bs, s') \<and> kb_ok s' \<and> bs @ kb_items s' = keys"
proof -
  have "keys_effect (scans es) no_mods = Some (no_mods, keys)"
    unfolding assms(6) by (rule typing_effect [OF assms(5)])
  then obtain ops where ops: "queue_ops es (mods s) = Some ops" "pushed ops = keys"
    using queue_scans assms(3) by metis
  obtain bs t where f: "run_fifo keyboard_push keyboard_read ops s = (bs, t)" by fastforce
  have "in_time (KB_BUFFER_SIZE - 1) (length (kb_items s)) ops"
    using assms(2,4) ops(2) by (intro in_time_few) simp
  from kb.run_in_order [OF assms(1) this f] have t: "kb_ok t \<and> bs @ kb_items t = keys"
    using assms(2) ops(2) by simp
  from run_kb_fifo [OF ops(1) same_buffer_refl] obtain s' where
    "run_kb es s = Some (bs, s')" "same_buffer s' t" using f by auto
  with t show ?thesis using same_buffer_items by fastforce
qed

text \<open>
  C9: Whatever line is typed on the keyboard and finished with Enter, each character by its key and
  with shift where the table wants it, and however the interrupts fall between the looks of the shell
  into the keyboard's buffer, the bytes the shell gets, those still waiting included, are that line,
  and its loop on them remembers the line and executes exactly it.
\<close>

theorem pressed_keys_run_line:
  assumes "kb_ok s" and "kb_items s = []" and "mods s = no_mods"
    and "list_all2 (\<lambda>c ks. keystrokes c = Some ks) (wd @ [10]) kss" and "scans es = concat kss"
    and "list_all printable wd" and "length wd < KB_BUFFER_SIZE - 1"
    and "shell_ok t" and "pos t = 0"
  shows "\<exists>got s' z u. run_kb es s = Some (got, s') \<and> kb_ok s' \<and> got @ kb_items s' = wd @ [10] \<and>
    same_system (sys t) z \<and> hist u = (if wd = [] then hist t else last_20 (hist t @ [wd])) \<and>
    shell_loop (got @ kb_items s') t = (case shell_execute wd [] z of None \<Rightarrow> None
      | Some (y, rest) \<Rightarrow> (case prompt (u\<lparr>sys := y\<rparr>) of None \<Rightarrow> None | Some v \<Rightarrow> shell_loop rest v))"
proof -
  have l: "length (wd @ [10]) < KB_BUFFER_SIZE" "int (length wd) < MAX_INPUT"
    using assms(7) by (simp_all add: MAX_INPUT_def)
  obtain got s' where g: "run_kb es s = Some (got, s')" "kb_ok s'" "got @ kb_items s' = wd @ [10]"
    using typed_line_read [OF assms(1-3) l(1) assms(4,5)] by blast
  from typed_line_runs [OF assms(8,9,6) l(2), of "[]"] obtain z u where
    "same_system (sys t) z" "hist u = (if wd = [] then hist t else last_20 (hist t @ [wd]))"
    "shell_loop (wd @ [10]) t = (case shell_execute wd [] z of None \<Rightarrow> None
      | Some (y, rest) \<Rightarrow> (case prompt (u\<lparr>sys := y\<rparr>) of None \<Rightarrow> None | Some v \<Rightarrow> shell_loop rest v))"
    by blast
  then show ?thesis using g by (intro exI [of _ got] exI [of _ s'] exI [of _ z] exI [of _ u]) (simp only: simp_thms)
qed

text \<open>\<^verbatim>\<open>ls\<close>, with a look into the buffer between the two letters and one after them.\<close>

lemma pressed_keys_run_line_witness:
  "\<exists>got s' z u. run_kb [Scan 0x26, Look, Scan 0xA6, Scan 0x1F, Scan 0x9F, Look, Scan 0x1C, Scan 0x9C] kb_start = Some (got, s') \<and>
    got @ kb_items s' = [0x6C, 0x73, 10] \<and> hist u = [[0x6C, 0x73]] \<and>
    shell_loop (got @ kb_items s') idle_shell = (case shell_execute [0x6C, 0x73] [] z of None \<Rightarrow> None
      | Some (y, rest) \<Rightarrow> (case prompt (u\<lparr>sys := y\<rparr>) of None \<Rightarrow> None | Some v \<Rightarrow> shell_loop rest v))"
proof -
  have k: "keystrokes 0x6C = Some [0x26, 0xA6]" "keystrokes 0x73 = Some [0x1F, 0x9F]" "keystrokes 10 = Some [0x1C, 0x9C]"
    by code_simp+
  have p: "pos idle_shell = 0" "hist idle_shell = []" by (simp_all add: idle_shell_def hist_def)
  from pressed_keys_run_line [OF kb_start_ok, of "[0x6C, 0x73]" "[[0x26, 0xA6], [0x1F, 0x9F], [0x1C, 0x9C]]"
      "[Scan 0x26, Look, Scan 0xA6, Scan 0x1F, Scan 0x9F, Look, Scan 0x1C, Scan 0x9C]" idle_shell] k p idle_shell_ok
  show ?thesis by (auto simp: printable_def last_20_def)
qed

end
