(* ===== verification/Vmm.thy ===== *)
theory Vmm
  imports Pmm
begin

text \<open>
  The page tables, \<^verbatim>\<open>src/src/mm/vmm.c\<close>.  Physical memory is seen as 64-bit words, \<open>qmem s a\<close> at
  byte address \<open>a\<close>; a table is 512 such words from a page-aligned address on.  New tables come
  from the page allocator, whose state is \<open>frames\<close>.  The abstraction of the tree is
  \<open>page_map\<close>, the entry each virtual page is mapped with; \<^verbatim>\<open>map_page\<close> and \<^verbatim>\<open>unmap_page\<close> are
  updates of it, \<^verbatim>\<open>virt_to_phys\<close> is a lookup.
\<close>

section \<open>State and operations\<close>

abbreviation PAGE_PRESENT :: u64 where "PAGE_PRESENT \<equiv> 1"
abbreviation PAGE_WRITE :: u64 where "PAGE_WRITE \<equiv> 2"
abbreviation PAGE_USER :: u64 where "PAGE_USER \<equiv> 4"

record vmm =
  qmem :: "u64 \<Rightarrow> u64"
  frames :: pmm

text \<open>\<^verbatim>\<open>static uint64_t *pml4\<close>, never changed.\<close>

definition pml4 :: u64 where "pml4 = 0x1000"

definition pml4_index :: "u64 \<Rightarrow> u64" where "pml4_index virt = drop_bit 39 virt AND 0x1FF"
definition pdpt_index :: "u64 \<Rightarrow> u64" where "pdpt_index virt = drop_bit 30 virt AND 0x1FF"
definition pd_index :: "u64 \<Rightarrow> u64" where "pd_index virt = drop_bit 21 virt AND 0x1FF"
definition pt_index :: "u64 \<Rightarrow> u64" where "pt_index virt = drop_bit 12 virt AND 0x1FF"

text \<open>The address of \<^verbatim>\<open>t[i]\<close>, and \<^verbatim>\<open>(uint64_t*)(entry & ~0xFFF)\<close>.\<close>

definition slot :: "u64 \<Rightarrow> u64 \<Rightarrow> u64" where "slot t i = t + 8 * i"
definition table_of :: "u64 \<Rightarrow> u64" where "table_of e = e AND NOT 0xFFF"

definition write_q :: "u64 \<Rightarrow> u64 \<Rightarrow> vmm \<Rightarrow> vmm" where
  "write_q a v s = s\<lparr>qmem := (qmem s)(a := v)\<rparr>"

text \<open>The \<^verbatim>\<open>if\<close> that \<^verbatim>\<open>map_page\<close> repeats at each level: \<^verbatim>\<open>pmm_alloc\<close>'s result is not checked.\<close>

definition need_table :: "u64 \<Rightarrow> vmm \<Rightarrow> vmm" where
  "need_table a s =
     (if qmem s a AND PAGE_PRESENT = 0
      then (let (p, neu) = pmm_alloc (frames s)
            in write_q a (neu OR PAGE_PRESENT OR PAGE_WRITE) (s\<lparr>frames := p\<rparr>))
      else s)"

definition map_page :: "u64 \<Rightarrow> u64 \<Rightarrow> u64 \<Rightarrow> vmm \<Rightarrow> vmm" where
  "map_page virt phys flags s =
     (let i4 = pml4_index virt; i3 = pdpt_index virt; i2 = pd_index virt; i1 = pt_index virt;
          s = need_table (slot pml4 i4) s;
          pdpt = table_of (qmem s (slot pml4 i4));
          s = need_table (slot pdpt i3) s;
          pd = table_of (qmem s (slot pdpt i3));
          s = need_table (slot pd i2) s;
          pt = table_of (qmem s (slot pd i2))
      in write_q (slot pt i1) (phys OR flags) s)"

definition unmap_page :: "u64 \<Rightarrow> vmm \<Rightarrow> vmm" where
  "unmap_page virt s =
     (let i4 = pml4_index virt; i3 = pdpt_index virt; i2 = pd_index virt; i1 = pt_index virt;
          pdpt = table_of (qmem s (slot pml4 i4));
          pd = table_of (qmem s (slot pdpt i3));
          pt = table_of (qmem s (slot pd i2))
      in write_q (slot pt i1) 0 s)"

definition virt_to_phys :: "u64 \<Rightarrow> vmm \<Rightarrow> u64" where
  "virt_to_phys virt s =
     (let i4 = pml4_index virt; i3 = pdpt_index virt; i2 = pd_index virt; i1 = pt_index virt
      in if qmem s (slot pml4 i4) AND PAGE_PRESENT = 0 then 0
         else let pdpt = table_of (qmem s (slot pml4 i4))
              in if qmem s (slot pdpt i3) AND PAGE_PRESENT = 0 then 0
                 else let pd = table_of (qmem s (slot pdpt i3))
                      in if qmem s (slot pd i2) AND PAGE_PRESENT = 0 then 0
                         else let pt = table_of (qmem s (slot pd i2))
                              in (qmem s (slot pt i1) AND NOT 0xFFF) + (virt AND 0xFFF))"

section \<open>The tree of tables\<close>

text \<open>The table a path of indices leads to, \<open>None\<close> at an entry that is not present.\<close>

fun walk :: "(u64 \<Rightarrow> u64) \<Rightarrow> u64 \<Rightarrow> u64 list \<Rightarrow> u64 option" where
  "walk m t [] = Some t"
| "walk m t (i # is) =
     (if bit (m (slot t i)) 0 then walk m (table_of (m (slot t i))) is else None)"

definition indices :: "u64 list \<Rightarrow> bool" where
  "indices is \<longleftrightarrow> (\<forall>i\<in>set is. i < 512) \<and> length is \<le> 3"

definition aligned :: "u64 \<Rightarrow> bool" where
  "aligned t \<longleftrightarrow> 4096 dvd unat t"

definition frame_no :: "u64 \<Rightarrow> nat" where
  "frame_no t = unat t div 4096"

definition cleared :: "(u64 \<Rightarrow> u64) \<Rightarrow> u64 \<Rightarrow> bool" where
  "cleared m t \<longleftrightarrow> (\<forall>i<512. m (slot t i) = 0)"

text \<open>
  The invariant: every table of the tree lies in a used page, no page holds two tables, and the
  free pages are cleared (the code never clears a page it turns into a table).
\<close>

definition vm_inv :: "vmm \<Rightarrow> bool" where
  "vm_inv s \<longleftrightarrow> pmm_inv (frames s) \<and>
     (\<forall>t. aligned t \<longrightarrow> frame_no t \<in> free_set (frames s) - {0} \<longrightarrow> cleared (qmem s) t) \<and>
     (\<forall>is t. indices is \<longrightarrow> walk (qmem s) pml4 is = Some t \<longrightarrow>
        frame_no t \<notin> free_set (frames s)) \<and>
     (\<forall>is js t. indices is \<longrightarrow> indices js \<longrightarrow> walk (qmem s) pml4 is = Some t \<longrightarrow>
        walk (qmem s) pml4 js = Some t \<longrightarrow> is = js)"

text \<open>The path of an address to its page table, and the present entry it is mapped with.\<close>

definition path :: "u64 \<Rightarrow> u64 list" where
  "path v = [pml4_index v, pdpt_index v, pd_index v]"

definition page_map :: "vmm \<Rightarrow> u64 \<Rightarrow> u64 option" where
  "page_map s v = (case walk (qmem s) pml4 (path v) of None \<Rightarrow> None
     | Some t \<Rightarrow> let e = qmem s (slot t (pt_index v)) in if bit e 0 then Some e else None)"

text \<open>Addresses of one virtual page: bits 12 to 47 agree.\<close>

definition same_page :: "u64 \<Rightarrow> u64 \<Rightarrow> bool" where
  "same_page v w \<longleftrightarrow> drop_bit 12 (take_bit 48 v) = drop_bit 12 (take_bit 48 w)"

subsection \<open>Slots\<close>

lemma index_less: "x AND 0x1FF < (512 :: u64)"
  using and_mask_less_size [of 9 x] by (simp add: mask_eq_exp_minus_1 word_size)

lemma indices_less [simp]:
  "pml4_index v < 512" "pdpt_index v < 512" "pd_index v < 512" "pt_index v < 512"
  by (simp_all add: pml4_index_def pdpt_index_def pd_index_def pt_index_def index_less)

lemma mask12: "(0xFFF :: u64) = mask 12"
  by (simp add: mask_eq_exp_minus_1)

lemma table_of_alt: "table_of e = e AND NOT (mask 12)"
  by (simp only: table_of_def mask12)

lemma aligned_table_of [simp]: "aligned (table_of e)"
proof -
  have "table_of e = push_bit 12 (drop_bit 12 e)"
    by (intro bit_word_eqI) (auto simp: table_of_alt bit_simps)
  then have "unat (table_of e) = unat (drop_bit 12 e) * 4096 mod 2 ^ 64"
    by (simp add: push_bit_eq_mult unat_word_ariths)
  moreover have "(4096 :: nat) dvd 2 ^ 64" by (simp add: dvd_def)
  ultimately show ?thesis by (simp add: aligned_def dvd_mod)
qed

lemma aligned_pml4 [simp]: "aligned pml4"
  by (simp add: aligned_def pml4_def)

lemma slot_unat:
  assumes "aligned t" and "i < 512"
  shows "unat (slot t i) = unat t + 8 * unat i"
proof -
  have "unat t < 2 ^ 64" using unsigned_less [of t] by simp
  then have b: "unat t + 4096 \<le> 2 ^ 64" using assms(1) by (auto simp: aligned_def dvd_def)
  have i: "unat i < 512" using assms(2) by (simp add: word_less_nat_alt)
  then have "unat (8 * i) = 8 * unat i" using unat_mult_fits [of 8 i] by simp
  then show ?thesis using unat_add_fits [of t "8 * i"] b i by (simp add: slot_def)
qed

lemma slot_eq:
  assumes "aligned t" "aligned u" "i < 512" "j < 512"
  shows "slot t i = slot u j \<longleftrightarrow> t = u \<and> i = j"
proof -
  have ij: "unat i < 512" "unat j < 512" using assms(3,4) by (simp_all add: word_less_nat_alt)
  have "unat t = unat u \<and> unat i = unat j" if "unat t + 8 * unat i = unat u + 8 * unat j"
  proof -
    have "unat t div 8 * 8 = unat t" "unat u div 8 * 8 = unat u"
      using assms(1,2) unfolding aligned_def dvd_def by auto
    then have "unat t div 8 + unat i = unat u div 8 + unat j" using that by linarith
    moreover have "unat t div 8 mod 512 = 0" "unat u div 8 mod 512 = 0"
      using assms(1,2) unfolding aligned_def dvd_def by auto
    ultimately have "unat i = unat j" using ij by (metis mod_add_left_eq add_0 mod_less)
    then show ?thesis using that by simp
  qed
  then show ?thesis
    using slot_unat [OF assms(1,3)] slot_unat [OF assms(2,4)] by (auto simp: word_unat_eq_iff)
qed

lemma walk_aligned: "walk m t is = Some u \<Longrightarrow> aligned t \<Longrightarrow> aligned u"
  by (induction m t "is" rule: walk.induct) (auto split: if_splits)

lemma walk_append:
  "walk m t (is @ js) = (case walk m t is of None \<Rightarrow> None | Some u \<Rightarrow> walk m u js)"
  by (induction m t "is" rule: walk.induct) auto

lemma walk_cong:
  "(\<And>js k rest u. is = js @ k # rest \<Longrightarrow> walk m t js = Some u \<Longrightarrow> m' (slot u k) = m (slot u k)) \<Longrightarrow>
     walk m' t is = walk m t is"
proof (induction "is" arbitrary: t)
  case (Cons k "is")
  have eq: "m' (slot t k) = m (slot t k)" using Cons.prems [of "[]"] by simp
  have "walk m' (table_of (m (slot t k))) is = walk m (table_of (m (slot t k))) is"
    if p: "bit (m (slot t k)) 0"
  proof (rule Cons.IH)
    fix js k' rest u
    assume "is = js @ k' # rest" "walk m (table_of (m (slot t k))) js = Some u"
    then show "m' (slot u k') = m (slot u k')" using Cons.prems [of "k # js"] p by simp
  qed
  then show ?case using eq by simp
qed simp

lemma indices_append: "indices (js @ k # rest) \<Longrightarrow> indices js \<and> k < 512 \<and> length js < 3"
  by (auto simp: indices_def)

lemma indices_path [simp]: "indices (path v)" "length (path v) = 3"
  by (simp_all add: indices_def path_def)

lemma vm_invD:
  assumes "vm_inv s"
  shows "pmm_inv (frames s)"
    and "aligned t \<Longrightarrow> frame_no t \<in> free_set (frames s) - {0} \<Longrightarrow> cleared (qmem s) t"
    and "indices is \<Longrightarrow> walk (qmem s) pml4 is = Some t \<Longrightarrow> frame_no t \<notin> free_set (frames s)"
    and "indices is \<Longrightarrow> indices js \<Longrightarrow> walk (qmem s) pml4 is = Some t \<Longrightarrow>
      walk (qmem s) pml4 js = Some t \<Longrightarrow> is = js"
  using assms unfolding vm_inv_def by blast+

text \<open>A write into the table at the end of path \<open>p\<close> changes only walks through that entry.\<close>

lemma walk_write:
  assumes inv: "vm_inv s" and p: "indices p" "walk (qmem s) pml4 p = Some t" and i: "i < 512"
    and js: "indices is" "\<nexists>rest. is = p @ i # rest"
  shows "walk ((qmem s)(slot t i := e)) pml4 is = walk (qmem s) pml4 is"
proof (rule walk_cong)
  fix js k rest u
  assume d: "is = js @ k # rest" and u: "walk (qmem s) pml4 js = Some u"
  note idx = indices_append [OF js(1) [unfolded d]]
  show "((qmem s)(slot t i := e)) (slot u k) = qmem s (slot u k)"
  proof (cases "slot u k = slot t i")
    case True
    have "u = t" "k = i"
      using True slot_eq [OF walk_aligned [OF u] walk_aligned [OF p(2)], of k i] idx i by simp_all
    then have "js = p" using vm_invD(4) [OF inv _ p(1) u] p(2) idx by blast
    then show ?thesis using js(2) d \<open>k = i\<close> by blast
  qed simp
qed

lemma cleared_write:
  assumes inv: "vm_inv s" and p: "indices p" "walk (qmem s) pml4 p = Some t" and i: "i < 512"
    and f: "aligned f" "frame_no f \<in> free_set (frames s) - {0}"
  shows "cleared ((qmem s)(slot t i := e)) f"
proof -
  have "f \<noteq> t" using vm_invD(3) [OF inv p] f(2) by auto
  then show ?thesis
    using vm_invD(2) [OF inv f] slot_eq [OF f(1) walk_aligned [OF p(2)]] i
    by (auto simp: cleared_def)
qed

text \<open>The write of a leaf entry keeps the tree as it is.\<close>

lemma vm_inv_leaf:
  assumes inv: "vm_inv s" and p: "indices p" "length p = 3" "walk (qmem s) pml4 p = Some t"
    and i: "i < 512"
  shows "vm_inv (write_q (slot t i) e s)"
    and "indices is \<Longrightarrow> walk (qmem (write_q (slot t i) e s)) pml4 is = walk (qmem s) pml4 is"
proof -
  have w: "walk ((qmem s)(slot t i := e)) pml4 is = walk (qmem s) pml4 is" if "indices is" for "is"
    using that p(2) by (intro walk_write [OF inv p(1,3) i that]) (auto simp: indices_def)
  then show "indices is \<Longrightarrow> walk (qmem (write_q (slot t i) e s)) pml4 is = walk (qmem s) pml4 is"
    by (simp add: write_q_def)
  show "vm_inv (write_q (slot t i) e s)"
    using vm_invD(1,3,4) [OF inv] cleared_write [OF inv p(1,3) i] w
    unfolding vm_inv_def write_q_def by simp
qed

text \<open>A fresh table: page aligned, not free afterwards, not the address of an existing table.\<close>

lemma fresh_entry:
  assumes "aligned neu"
  shows "bit (neu OR PAGE_PRESENT OR PAGE_WRITE) 0"
    and "table_of (neu OR PAGE_PRESENT OR PAGE_WRITE) = neu"
proof -
  show "bit (neu OR PAGE_PRESENT OR PAGE_WRITE) 0" by (simp add: bit_simps)
  have "unat (neu mod 4096) = 0" using assms by (simp add: aligned_def unat_mod)
  then have "neu mod 4096 = 0" by (simp only: unat_eq_0)
  then have low: "neu AND mask 12 = 0"
    by (simp add: take_bit_eq_mask [symmetric] take_bit_eq_mod)
  have nb: "\<not> bit neu n" if "n < 12" for n
  proof -
    have "\<not> bit (neu AND mask 12) n" by (simp add: low)
    then show ?thesis using that by (simp add: bit_simps)
  qed
  show "table_of (neu OR PAGE_PRESENT OR PAGE_WRITE) = neu"
  proof (intro bit_word_eqI)
    fix n :: nat
    have "neu OR PAGE_PRESENT OR PAGE_WRITE = neu OR mask 2" by (simp add: mask_eq_exp_minus_1)
    then show "bit (table_of (neu OR PAGE_PRESENT OR PAGE_WRITE)) n = bit neu n"
      using nb [of n] by (cases "n < 64") (auto simp: table_of_alt bit_simps dest: bit_imp_le_length)
  qed
qed

lemma page_addr_frame:
  "unat a = unat i * 4096 \<Longrightarrow> aligned a \<and> frame_no a = unat i"
  by (simp add: aligned_def frame_no_def)

lemma present_iff: "e AND PAGE_PRESENT = 0 \<longleftrightarrow> \<not> bit e 0"
  using low_bit_zero_iff [of 0 e] by simp

text \<open>
  The tree after the entry \<open>i\<close> of the table at the end of \<open>p\<close>, not present before, has been made
  to point to the cleared page \<open>neu\<close>: one more path, and nothing else changed.
\<close>

definition grown :: "u64 \<Rightarrow> u64 \<Rightarrow> u64 \<Rightarrow> (u64 \<Rightarrow> u64) \<Rightarrow> u64 \<Rightarrow> u64" where
  "grown t i neu m = m(slot t i := neu OR PAGE_PRESENT OR PAGE_WRITE)"

lemma grown_walk:
  assumes inv: "vm_inv s" and p: "indices p" "walk (qmem s) pml4 p = Some t" and i: "i < 512"
    and np: "\<not> bit (qmem s (slot t i)) 0"
    and neu: "aligned neu" "frame_no neu \<in> free_set (frames s) - {0}"
    and js: "indices is"
  shows "walk (grown t i neu (qmem s)) pml4 is
    = (if is = p @ [i] then Some neu else walk (qmem s) pml4 is)"
proof (cases "\<exists>rest. is = p @ i # rest")
  case True
  then obtain rest where r: "is = p @ i # rest" by blast
  have "walk (qmem s) pml4 is = None" using np p(2) by (simp add: walk_append r)
  moreover have "walk (grown t i neu (qmem s)) pml4 p = Some t"
    using walk_write [OF inv p i p(1)] p(2) by (simp add: grown_def)
  moreover have "walk (grown t i neu (qmem s)) neu rest = (if rest = [] then Some neu else None)"
    using cleared_write [OF inv p i neu] js
    by (cases rest) (auto simp: cleared_def indices_def r grown_def)
  ultimately show ?thesis
    using fresh_entry [OF neu(1)] by (simp add: walk_append r) (simp add: grown_def)
next
  case False
  then show ?thesis using walk_write [OF inv p i js] by (auto simp: grown_def)
qed

lemma grown_inv:
  assumes inv: "vm_inv s" and p: "indices p" "walk (qmem s) pml4 p = Some t" and i: "i < 512"
    and np: "\<not> bit (qmem s (slot t i)) 0"
    and neu: "aligned neu" "frame_no neu \<in> free_set (frames s) - {0}"
    and fr: "pmm_inv fr" "free_set fr = free_set (frames s) - {frame_no neu}"
  shows "vm_inv \<lparr>qmem = grown t i neu (qmem s), frames = fr\<rparr>"
proof -
  note wlk = grown_walk [OF inv p i np neu]
  have used: "frame_no u \<notin> free_set (frames s)" if "indices is" "walk (qmem s) pml4 is = Some u"
    for "is" u by (rule vm_invD(3) [OF inv that])
  have neu_new: "walk (qmem s) pml4 is \<noteq> Some neu" if "indices is" for "is"
    using used [OF that, of neu] neu(2) by auto
  show ?thesis
    unfolding vm_inv_def vmm.simps
  proof (intro conjI allI impI)
    show "pmm_inv fr" by (rule fr(1))
    fix u "is" js
    show "cleared (grown t i neu (qmem s)) u" if "aligned u" "frame_no u \<in> free_set fr - {0}"
      using cleared_write [OF inv p i that(1)] that(2) fr(2) by (simp add: grown_def)
    show "frame_no u \<notin> free_set fr" if "indices is" "walk (grown t i neu (qmem s)) pml4 is = Some u"
      using that wlk [of "is"] used [of "is" u] fr(2) by (auto split: if_splits)
    show "is = js" if "indices is" "indices js" "walk (grown t i neu (qmem s)) pml4 is = Some u"
        "walk (grown t i neu (qmem s)) pml4 js = Some u"
      using that wlk [of "is"] wlk [of js] neu_new [of "is"] neu_new [of js]
        vm_invD(4) [OF inv, of "is" js] by (auto split: if_splits)
  qed
qed

lemma grown_page_map:
  assumes inv: "vm_inv s" and p: "indices p" "length p < 3" "walk (qmem s) pml4 p = Some t"
    and i: "i < 512" and np: "\<not> bit (qmem s (slot t i)) 0"
    and neu: "aligned neu" "frame_no neu \<in> free_set (frames s) - {0}"
  shows "page_map \<lparr>qmem = grown t i neu (qmem s), frames = fr\<rparr> v = page_map s v"
proof (cases "path v = p @ [i]")
  case True
  have "walk (qmem s) pml4 (path v) = None" unfolding True using np p(3) by (simp add: walk_append)
  moreover have "walk (grown t i neu (qmem s)) pml4 (path v) = Some neu"
    using grown_walk [OF inv p(1,3) i np neu indices_path(1) [of v]] True by simp
  moreover have "grown t i neu (qmem s) (slot neu (pt_index v)) = 0"
    using cleared_write [OF inv p(1,3) i neu] unfolding cleared_def grown_def by simp
  ultimately show ?thesis by (simp add: page_map_def)
next
  case False
  have "walk (grown t i neu (qmem s)) pml4 (path v) = walk (qmem s) pml4 (path v)"
    using grown_walk [OF inv p(1,3) i np neu, of "path v"] False by simp
  moreover have "grown t i neu (qmem s) (slot u (pt_index v)) = qmem s (slot u (pt_index v))"
    if u: "walk (qmem s) pml4 (path v) = Some u" for u
  proof -
    have "u \<noteq> t"
      using vm_invD(4) [OF inv indices_path(1) p(1) u] p(2,3) by auto
    then show ?thesis
      using slot_eq [OF walk_aligned [OF u] walk_aligned [OF p(3)], of "pt_index v" i] i
      by (simp add: grown_def)
  qed
  ultimately show ?thesis by (simp add: page_map_def Let_def split: option.split)
qed

text \<open>
  One level of \<^verbatim>\<open>map_page\<close>: afterwards the path leads one step further and the page map is the
  same; at most one page was taken.
\<close>

lemma need_table_step:
  assumes inv: "vm_inv s" and p: "indices p" "length p < 3" "walk (qmem s) pml4 p = Some t"
    and i: "i < 512" and av: "0 < pmm_avail (frames s)"
  shows "vm_inv (need_table (slot t i) s) \<and>
    walk (qmem (need_table (slot t i) s)) pml4 (p @ [i])
      = Some (table_of (qmem (need_table (slot t i) s) (slot t i))) \<and>
    page_map (need_table (slot t i) s) = page_map s \<and>
    pmm_avail (frames s) \<le> pmm_avail (frames (need_table (slot t i) s)) + 1"
    (is "?goal (need_table (slot t i) s)")
proof (cases "bit (qmem s (slot t i)) 0")
  case True
  then have "need_table (slot t i) s = s" by (simp add: need_table_def present_iff)
  then show ?thesis using True inv p(3) by (simp add: walk_append)
next
  case False
  obtain fr neu where al: "pmm_alloc (frames s) = (fr, neu)" by fastforce
  have req: "pmm_alloc_req () (frames s) = Some (fr, neu)" using al by (simp add: pmm_alloc_req_def)
  have "neu \<noteq> OUT_OF_MEMORY" "pmm_avail fr = pmm_avail (frames s) - 1"
    using pages.alloc_avail [OF vm_invD(1) [OF inv] req] av by simp_all
  with vm_invD(1) [OF inv] al obtain k :: u64 where k: "unat k \<in> free_set (frames s)" "1 \<le> unat k"
    "unat neu = unat k * 4096" "free_set fr = free_set (frames s) - {unat k}" "pmm_inv fr"
  proof (cases rule: pmm_alloc_cases)
    case (page j)
    then show ?thesis using that [of j] by simp
  qed simp
  have neu: "aligned neu" "frame_no neu = unat k" using page_addr_frame [OF k(3)] by auto
  then have fno: "frame_no neu \<in> free_set (frames s) - {0}" using k(1,2) by auto
  have s': "need_table (slot t i) s = \<lparr>qmem = grown t i neu (qmem s), frames = fr\<rparr>"
    using False al by (simp add: need_table_def write_q_def present_iff Let_def grown_def)
  have "indices (p @ [i])" using p(1,2) i by (auto simp: indices_def)
  from grown_walk [OF inv p(1,3) i False neu(1) fno this]
  have "walk (grown t i neu (qmem s)) pml4 (p @ [i]) = Some (table_of (grown t i neu (qmem s) (slot t i)))"
    using fresh_entry [OF neu(1)] by (simp add: grown_def)
  moreover have "vm_inv \<lparr>qmem = grown t i neu (qmem s), frames = fr\<rparr>"
    using k(4,5) neu(2) by (intro grown_inv [OF inv p(1,3) i False neu(1) fno]) simp_all
  ultimately show ?thesis
    using grown_page_map [OF inv p i False neu(1) fno] \<open>pmm_avail fr = _\<close> av
    unfolding s' by auto
qed

section \<open>Properties\<close>

text \<open>The path \<^verbatim>\<open>map_page\<close> builds, and the leaf it writes.\<close>

lemma map_page_tree:
  assumes inv: "vm_inv s" and av: "3 \<le> pmm_avail (frames s)"
  obtains s3 t where "map_page v phys flags s = write_q (slot t (pt_index v)) (phys OR flags) s3"
    "vm_inv s3" "walk (qmem s3) pml4 (path v) = Some t" "page_map s3 = page_map s"
proof -
  let ?s1 = "need_table (slot pml4 (pml4_index v)) s"
  let ?t3 = "table_of (qmem ?s1 (slot pml4 (pml4_index v)))"
  let ?s2 = "need_table (slot ?t3 (pdpt_index v)) ?s1"
  let ?t2 = "table_of (qmem ?s2 (slot ?t3 (pdpt_index v)))"
  let ?s3 = "need_table (slot ?t2 (pd_index v)) ?s2"
  let ?t1 = "table_of (qmem ?s3 (slot ?t2 (pd_index v)))"
  have i: "indices []" "indices [pml4_index v]" "indices [pml4_index v, pdpt_index v]"
    by (simp_all add: indices_def)
  have "walk (qmem s) pml4 [] = Some pml4" by simp
  from need_table_step [OF inv i(1) _ this indices_less(1) [of v]] av
  have 1: "vm_inv ?s1" "walk (qmem ?s1) pml4 [pml4_index v] = Some ?t3" "page_map ?s1 = page_map s"
    "2 \<le> pmm_avail (frames ?s1)" by auto
  from need_table_step [OF 1(1) i(2) _ 1(2) indices_less(2) [of v]] 1(3,4)
  have 2: "vm_inv ?s2" "walk (qmem ?s2) pml4 [pml4_index v, pdpt_index v] = Some ?t2"
    "page_map ?s2 = page_map s" "1 \<le> pmm_avail (frames ?s2)" by auto
  from need_table_step [OF 2(1) i(3) _ 2(2) indices_less(3) [of v]] 2(3,4)
  have "vm_inv ?s3" "walk (qmem ?s3) pml4 (path v) = Some ?t1" "page_map ?s3 = page_map s"
    by (auto simp: path_def)
  then show ?thesis by (intro that [of ?t1 ?s3]) (simp_all add: map_page_def Let_def)
qed

lemma take_bit_add_eq:
  fixes x y :: "'w::len word"
  shows "take_bit (a + b) x = take_bit (a + b) y \<longleftrightarrow>
    take_bit a x = take_bit a y \<and> take_bit b (drop_bit a x) = take_bit b (drop_bit a y)"
proof -
  have split: "push_bit a (take_bit b (drop_bit a z)) + take_bit a z = take_bit (a + b) z"
    for z :: "'w word"
    using bits_ident [of a "take_bit (a + b) z"] by (simp add: drop_bit_take_bit)
  have "take_bit a z = take_bit a (take_bit (a + b) z)"
    "take_bit b (drop_bit a z) = drop_bit a (take_bit (a + b) z)" for z :: "'w word"
    by (simp_all add: drop_bit_take_bit)
  then show ?thesis using split by metis
qed

lemma same_page_iff: "same_page v w \<longleftrightarrow> path v = path w \<and> pt_index v = pt_index w"
proof -
  have ix: "x AND 0x1FF = take_bit 9 x" for x :: u64
    by (simp add: take_bit_eq_mask mask_eq_exp_minus_1)
  show ?thesis
    using take_bit_add_eq [of 9 27 "drop_bit 12 v" "drop_bit 12 w"]
      take_bit_add_eq [of 9 18 "drop_bit 21 v" "drop_bit 21 w"]
      take_bit_add_eq [of 9 9 "drop_bit 30 v" "drop_bit 30 w"]
    by (auto simp: same_page_def path_def drop_bit_take_bit ix pml4_index_def pdpt_index_def
        pd_index_def pt_index_def)
qed

lemma leaf_page_map:
  assumes inv: "vm_inv s" and w: "walk (qmem s) pml4 (path v) = Some t"
  shows "page_map (write_q (slot t (pt_index v)) e s) u =
    (if same_page u v then if bit e 0 then Some e else None else page_map s u)"
proof -
  let ?m' = "qmem (write_q (slot t (pt_index v)) e s)"
  have wu: "walk ?m' pml4 (path u) = walk (qmem s) pml4 (path u)"
    by (rule vm_inv_leaf(2) [OF inv _ _ w]) simp_all
  show ?thesis
  proof (cases "walk (qmem s) pml4 (path u)")
    case None
    then show ?thesis using wu w by (auto simp: page_map_def same_page_iff)
  next
    case (Some t')
    have "slot t' (pt_index u) = slot t (pt_index v) \<longleftrightarrow> t' = t \<and> pt_index u = pt_index v"
      using slot_eq [OF walk_aligned [OF Some] walk_aligned [OF w]] by simp
    moreover have "path u = path v" if "t' = t"
      using vm_invD(4) [OF inv indices_path(1) indices_path(1) Some] w that by blast
    moreover have "t' = t" if "path u = path v" using w Some that by simp
    ultimately have same: "slot t' (pt_index u) = slot t (pt_index v) \<longleftrightarrow> same_page u v"
      unfolding same_page_iff by blast
    show ?thesis
      unfolding page_map_def wu Some option.case by (simp add: Let_def write_q_def same)
  qed
qed

lemma virt_to_phys_mapped:
  "page_map s v = Some e \<Longrightarrow> virt_to_phys v s = table_of e + (v AND 0xFFF)"
  by (auto simp: page_map_def virt_to_phys_def path_def Let_def present_iff table_of_def
      split: option.splits if_splits)

text \<open>A small machine: the page of \<open>pml4\<close> used, pages 2 to 15 free, all memory cleared.\<close>

definition small_vmm :: vmm where
  "small_vmm = \<lparr>qmem = (\<lambda>_. 0),
     frames = \<lparr>bitmap = [3, 0, 255], max_pages = 24, total_pages = 24, free_pages = 14,
       pmm_bitmap_end = 0x20000\<rparr>\<rparr>"

lemma small_vmm_free: "free_set (frames small_vmm) = {2..<16}"
proof -
  have "free_set (frames small_vmm) = set [2..<16]"
    unfolding free_set_filter by (rule arg_cong [of _ _ set]) code_simp
  then show ?thesis by (simp only: set_upt)
qed

lemma small_vmm_inv: "vm_inv small_vmm"
proof -
  have w: "walk (qmem small_vmm) pml4 is = Some t \<longleftrightarrow> is = [] \<and> t = pml4" for "is" t
    by (cases "is") (auto simp: small_vmm_def)
  have "pmm_inv (frames small_vmm)"
    by (simp add: pmm_inv_def pmm_wf_def small_vmm_free) (simp add: small_vmm_def)
  then show ?thesis
    unfolding vm_inv_def w small_vmm_free
    by (auto simp: cleared_def frame_no_def pml4_def) (simp add: small_vmm_def)
qed

lemma small_vmm_avail: "pmm_avail (frames small_vmm) = 14"
  by (simp add: pmm_avail_def small_vmm_free)

text \<open>
  C17: with three pages left, \<^verbatim>\<open>map_page\<close> is an update of the page map at the page of \<open>v\<close>: that
  page is mapped with \<open>phys OR flags\<close>, every other page as before; and the tree stays well formed.
\<close>

theorem map_page_updates:
  assumes "vm_inv s" and "3 \<le> pmm_avail (frames s)" and "bit flags 0"
  shows "vm_inv (map_page v phys flags s) \<and>
    page_map (map_page v phys flags s)
      = (\<lambda>u. if same_page u v then Some (phys OR flags) else page_map s u)"
proof (rule map_page_tree [OF assms(1,2), of v phys flags])
  fix s3 t
  assume s3: "map_page v phys flags s = write_q (slot t (pt_index v)) (phys OR flags) s3"
    "vm_inv s3" "walk (qmem s3) pml4 (path v) = Some t" "page_map s3 = page_map s"
  have "bit (phys OR flags) 0" using assms(3) by (simp add: bit_or_iff)
  then show ?thesis
    using leaf_page_map [OF s3(2,3)] vm_inv_leaf(1) [OF s3(2) _ _ s3(3)] s3(1,4)
    by (simp add: fun_eq_iff)
qed

lemma map_page_updates_witness:
  "page_map (map_page 0x400123 0x9000 3 small_vmm)
     = (\<lambda>u. if same_page u 0x400123 then Some 0x9003 else page_map small_vmm u)"
proof -
  have "bit (3 :: u64) 0" by (simp add: bit_0)
  moreover have eq: "(0x9000 :: u64) OR 3 = 0x9003" by simp
  ultimately show ?thesis
    using map_page_updates [OF small_vmm_inv, of 3 "0x400123" "0x9000"] small_vmm_avail
    unfolding eq by simp
qed

text \<open>The entry of a mapped page, taken apart by \<^verbatim>\<open>& ~0xFFF\<close>.\<close>

lemma table_of_entry:
  assumes "flags < 4096" and "phys AND 0xFFF = 0"
  shows "table_of (phys OR flags) = phys"
proof -
  have "flags mod 4096 = flags" using assms(1) by (simp add: word_unat_eq_iff word_nat)
  then have "flags AND mask 12 = flags"
    by (simp add: take_bit_eq_mask [symmetric] take_bit_eq_mod)
  then have "flags AND NOT (mask 12) = 0" by (metis word_and_not word_bw_assocs(1) word_log_esimps(1))
  moreover have "phys AND NOT (mask 12) = phys"
  proof (intro bit_word_eqI)
    fix n :: nat
    have "\<not> bit (phys AND mask 12) n" using assms(2) by (simp add: mask12)
    then show "bit (phys AND NOT (mask 12)) n = bit phys n"
      by (auto simp: bit_simps dest: bit_imp_le_length)
  qed
  ultimately show ?thesis by (simp add: table_of_alt word_ao_dist)
qed

text \<open>
  after \<^verbatim>\<open>map_page\<close> of a page-aligned address with flags below 4096, \<^verbatim>\<open>virt_to_phys\<close> of an
  address of that page is the frame plus the offset, and a page mapped before keeps its
  translation.
\<close>

theorem virt_to_phys_map_page:
  assumes "vm_inv s" and "3 \<le> pmm_avail (frames s)" and "bit flags 0"
    and "flags < 4096" and "phys AND 0xFFF = 0"
  shows "if same_page u v then virt_to_phys u (map_page v phys flags s) = phys + (u AND 0xFFF)
    else page_map s u \<noteq> None \<longrightarrow> virt_to_phys u (map_page v phys flags s) = virt_to_phys u s"
proof -
  obtain s3 t where s3: "map_page v phys flags s = write_q (slot t (pt_index v)) (phys OR flags) s3"
    "vm_inv s3" "walk (qmem s3) pml4 (path v) = Some t" "page_map s3 = page_map s"
    by (rule map_page_tree [OF assms(1,2), of v phys flags])
  have "bit (phys OR flags) 0" using assms(3) by (simp add: bit_or_iff)
  then have "page_map (map_page v phys flags s) u
      = (if same_page u v then Some (phys OR flags) else page_map s u)"
    using leaf_page_map [OF s3(2,3)] s3(1,4) by simp
  then show ?thesis
    using virt_to_phys_mapped [of _ u] table_of_entry [OF assms(4,5)]
    by (auto split: if_splits)
qed

lemma virt_to_phys_map_page_witness:
  "virt_to_phys 0x400FED (map_page 0x400123 0x9000 3 small_vmm) = 0x9FED"
proof -
  have "bit (3 :: u64) 0" by (simp add: bit_0)
  moreover have "same_page 0x400FED 0x400123" unfolding same_page_def by code_simp
  ultimately show ?thesis
    using virt_to_phys_map_page [OF small_vmm_inv, of 3 "0x9000" "0x400FED" "0x400123"]
      small_vmm_avail by simp
qed

text \<open>
  \<^verbatim>\<open>unmap_page\<close> of a mapped page removes it from the page map and nothing else; but
  \<^verbatim>\<open>virt_to_phys\<close>, which does not look at the last entry's present bit, then returns the offset
  within the page and not the 0 it returns for an absent table.
\<close>

theorem unmap_page_updates:
  assumes "vm_inv s" and "page_map s v \<noteq> None"
  shows "vm_inv (unmap_page v s) \<and>
    page_map (unmap_page v s) = (\<lambda>u. if same_page u v then None else page_map s u) \<and>
    virt_to_phys v (unmap_page v s) = v AND 0xFFF"
proof -
  obtain t where t: "walk (qmem s) pml4 (path v) = Some t"
    using assms(2) by (auto simp: page_map_def split: option.splits)
  then have um: "unmap_page v s = write_q (slot t (pt_index v)) 0 s"
    by (auto simp: unmap_page_def path_def Let_def split: if_splits)
  note leaf = vm_inv_leaf [OF assms(1) _ _ t indices_less(4) [of v]]
  have "walk (qmem (unmap_page v s)) pml4 (path v) = Some t"
    unfolding um using leaf(2) [of "path v" 0] t by simp
  then have "virt_to_phys v (unmap_page v s)
      = (qmem (unmap_page v s) (slot t (pt_index v)) AND NOT 0xFFF) + (v AND 0xFFF)"
    by (auto simp: virt_to_phys_def path_def Let_def present_iff split: if_splits)
  moreover have "qmem (unmap_page v s) (slot t (pt_index v)) = 0" unfolding um by (simp add: write_q_def)
  ultimately show ?thesis
    using leaf(1) leaf_page_map [OF assms(1) t, of 0] unfolding um by (simp add: fun_eq_iff)
qed

lemma unmap_page_updates_witness:
  "virt_to_phys 0x400123 (unmap_page 0x400123 (map_page 0x400123 0x9000 3 small_vmm)) = 0x123"
proof -
  have "bit (3 :: u64) 0" by (simp add: bit_0)
  have av: "3 \<le> pmm_avail (frames small_vmm)" by (simp add: small_vmm_avail)
  obtain s3 t where s3: "map_page 0x400123 0x9000 3 small_vmm
      = write_q (slot t (pt_index 0x400123)) (0x9000 OR 3) s3"
    "vm_inv s3" "walk (qmem s3) pml4 (path 0x400123) = Some t"
    by (rule map_page_tree [OF small_vmm_inv av])
  let ?s = "map_page 0x400123 0x9000 3 small_vmm"
  have "vm_inv ?s" "page_map ?s 0x400123 \<noteq> None"
    using vm_inv_leaf(1) [OF s3(2) _ _ s3(3)] leaf_page_map [OF s3(2,3)] s3(1)
    by (simp_all add: same_page_def bit_0)
  from unmap_page_updates [OF this] show ?thesis by simp
qed

text \<open>
  without a page left, \<^verbatim>\<open>map_page\<close> takes the error value of \<^verbatim>\<open>pmm_alloc\<close> for a table: the
  entry becomes all ones, and the walk goes on at \<open>0xFFFFFFFFFFFFF000\<close>.
\<close>

theorem need_table_out_of_memory:
  assumes "pmm_inv (frames s)" and "free_set (frames s) \<subseteq> {0}" and "\<not> bit (qmem s a) 0"
  shows "qmem (need_table a s) a = 0xFFFFFFFFFFFFFFFF \<and> frames (need_table a s) = frames s \<and>
    table_of (qmem (need_table a s) a) = 0xFFFFFFFFFFFFF000"
proof -
  have "pmm_alloc (frames s) = (frames s, OUT_OF_MEMORY)"
  proof (cases "pmm_alloc (frames s)")
    case (Pair fr a)
    then show ?thesis using assms(2) by (cases rule: pmm_alloc_cases [OF assms(1) Pair]) auto
  qed
  then show ?thesis using assms(3)
    by (simp add: need_table_def present_iff write_q_def table_of_def)
qed

lemma need_table_out_of_memory_witness:
  "qmem (need_table 0x1000 (small_vmm\<lparr>frames := (frames small_vmm)\<lparr>bitmap := [255, 255, 255],
     free_pages := 0\<rparr>\<rparr>)) 0x1000 = 0xFFFFFFFFFFFFFFFF"
  (is "qmem (need_table _ ?s) _ = _")
proof -
  have "free_set (frames ?s) = set []"
    unfolding free_set_filter by (rule arg_cong [of _ _ set]) code_simp
  then have f: "free_set (frames ?s) = {}" by simp
  then have "pmm_inv (frames ?s)"
    by (simp add: pmm_inv_def pmm_wf_def) (simp add: small_vmm_def)
  with need_table_out_of_memory [of ?s "0x1000"] f show ?thesis by (simp add: small_vmm_def)
qed

end
