(* ===== verification/Ata.thy ===== *)
theory Ata
  imports Port_IO Fat_Table "HOL-Library.Monad_Syntax"
begin

text \<open>
  The disk driver, \<^verbatim>\<open>src/src/drivers/fs/ata.c\<close>, port by port.  The drive and the clock are
  parameters; \<open>ata_drive\<close> states what the driver relies on of a drive in PIO mode.  The theorems
  show that on such a drive the driver does what the file system's \<open>ata_read\<close> and \<open>ata_write\<close> say.
\<close>

section \<open>The driver\<close>

text \<open>The ports, and \<^verbatim>\<open>get_ms\<close>: time may pass between any two instructions.\<close>

record 'd ata_env =
  prt :: "'d ports"
  ms_clock :: "'d \<Rightarrow> u64 \<times> 'd"

abbreviation ATA_DATA :: u16 where "ATA_DATA \<equiv> 0x1F0"
abbreviation ATA_SECTOR_COUNT :: u16 where "ATA_SECTOR_COUNT \<equiv> 0x1F2"
abbreviation ATA_LBA_LOW :: u16 where "ATA_LBA_LOW \<equiv> 0x1F3"
abbreviation ATA_LBA_MID :: u16 where "ATA_LBA_MID \<equiv> 0x1F4"
abbreviation ATA_LBA_HIGH :: u16 where "ATA_LBA_HIGH \<equiv> 0x1F5"
abbreviation ATA_DRIVE :: u16 where "ATA_DRIVE \<equiv> 0x1F6"
abbreviation ATA_STATUS :: u16 where "ATA_STATUS \<equiv> 0x1F7"
abbreviation ATA_COMMAND :: u16 where "ATA_COMMAND \<equiv> 0x1F7"
abbreviation ATA_SR_BSY :: u8 where "ATA_SR_BSY \<equiv> 0x80"
abbreviation ATA_SR_DRQ :: u8 where "ATA_SR_DRQ \<equiv> 0x08"
abbreviation ATA_SR_DRDY :: u8 where "ATA_SR_DRDY \<equiv> 0x40"
abbreviation ATA_CMD_READ :: u8 where "ATA_CMD_READ \<equiv> 0x20"
abbreviation ATA_CMD_WRITE :: u8 where "ATA_CMD_WRITE \<equiv> 0x30"

definition ata_command :: "'d ata_env \<Rightarrow> u8 \<Rightarrow> u32 \<Rightarrow> 'd \<Rightarrow> 'd" where
  "ata_command e cmd lba d =
     (let d = outb (prt e) ATA_SECTOR_COUNT 1 d;
          d = outb (prt e) ATA_LBA_LOW (ucast (lba AND 0xFF)) d;
          d = outb (prt e) ATA_LBA_MID (ucast (drop_bit 8 lba AND 0xFF)) d;
          d = outb (prt e) ATA_LBA_HIGH (ucast (drop_bit 16 lba AND 0xFF)) d;
          d = outb (prt e) ATA_DRIVE (ucast (0xE0 OR (drop_bit 24 lba AND 0x0F))) d
      in outb (prt e) ATA_COMMAND cmd d)"

text \<open>
  The three waits of the read: \<^verbatim>\<open>while\<close> the status is not as wanted, give up after five seconds.
  The flag tells whether the status came.
\<close>

partial_function (option) wait_from :: "'d ata_env \<Rightarrow> (u8 \<Rightarrow> bool) \<Rightarrow> u64 \<Rightarrow> 'd \<Rightarrow> ('d \<times> bool) option" where
  "wait_from e stop start d =
     (let (v, d) = inb (prt e) ATA_STATUS d
      in if stop v then Some (d, True)
         else let (t, d) = ms_clock e d
              in if t - start > 5000 then Some (d, False) else wait_from e stop start d)"

definition timed_wait :: "'d ata_env \<Rightarrow> (u8 \<Rightarrow> bool) \<Rightarrow> 'd \<Rightarrow> ('d \<times> bool) option" where
  "timed_wait e stop d = (let (start, d) = ms_clock e d in wait_from e stop start d)"

definition not_busy :: "u8 \<Rightarrow> bool" where "not_busy v \<longleftrightarrow> v AND ATA_SR_BSY = 0"
definition has_data :: "u8 \<Rightarrow> bool" where "has_data v \<longleftrightarrow> v AND ATA_SR_DRQ \<noteq> 0"

fun in_words :: "nat \<Rightarrow> 'd ata_env \<Rightarrow> 'd \<Rightarrow> u16 list \<times> 'd" where
  "in_words 0 e d = ([], d)"
| "in_words (Suc n) e d =
     (let (w, d) = inw (prt e) ATA_DATA d; (ws, d) = in_words n e d in (w # ws, d))"

text \<open>The device, the contents of the buffer of 256 words, and what is printed.\<close>

definition ata_read_sector :: "'d ata_env \<Rightarrow> u32 \<Rightarrow> u16 list \<Rightarrow> 'd \<Rightarrow> ('d \<times> u16 list \<times> string) option" where
  "ata_read_sector e lba buf d =
     do { (d, ok) \<leftarrow> timed_wait e not_busy (ata_command e ATA_CMD_READ lba d);
          if \<not> ok then Some (d, buf, ''ATA BSY timeout!'' @ [CHR 0x0A])
          else do { (d, ok) \<leftarrow> timed_wait e has_data d;
            if \<not> ok then Some (d, buf, ''ATA DRQ timeout!'' @ [CHR 0x0A])
            else let (ws, d) = in_words 256 e d
                 in do { (d, ok) \<leftarrow> timed_wait e not_busy d;
                         Some (d, ws, if ok then [] else ''ATA final timeout!'' @ [CHR 0x0A]) } } }"

text \<open>The waits of the write have no timeout.\<close>

partial_function (option) wait_status :: "'d ata_env \<Rightarrow> (u8 \<Rightarrow> bool) \<Rightarrow> 'd \<Rightarrow> 'd option" where
  "wait_status e stop d =
     (let (v, d) = inb (prt e) ATA_STATUS d in if stop v then Some d else wait_status e stop d)"

fun out_words :: "u16 list \<Rightarrow> 'd ata_env \<Rightarrow> 'd \<Rightarrow> 'd" where
  "out_words [] e d = d"
| "out_words (w # ws) e d = out_words ws e (outw (prt e) ATA_DATA w d)"

definition ata_write_sector :: "'d ata_env \<Rightarrow> u32 \<Rightarrow> u16 list \<Rightarrow> 'd \<Rightarrow> 'd option" where
  "ata_write_sector e lba buf d =
     do { d \<leftarrow> wait_status e (\<lambda>v. not_busy v \<and> v AND ATA_SR_DRDY \<noteq> 0) d;
          d \<leftarrow> wait_status e (\<lambda>v. not_busy v \<and> has_data v) (ata_command e ATA_CMD_WRITE lba d);
          wait_status e not_busy (out_words buf e d) }"

definition ata_flush :: "'d ata_env \<Rightarrow> 'd \<Rightarrow> 'd option" where
  "ata_flush e d = wait_status e not_busy (outb (prt e) ATA_COMMAND 0xE7 d)"

section \<open>What the driver relies on\<close>

text \<open>
  A drive as its protocol shows it: the task file, whether it is idle, has words to send, or has
  received some, and the sectors.  \<open>busy\<close> bounds how often the status is still read busy.
\<close>

datatype phase = Idle | Sending "u16 list" | Receiving "u16 list"

record drive =
  sec_count :: u8
  lba_low :: u8
  lba_mid :: u8
  lba_high :: u8
  drive_head :: u8
  phase :: phase
  sectors :: "u32 \<Rightarrow> u16 list"

definition drive_lba :: "drive \<Rightarrow> u32" where
  "drive_lba v = ucast (lba_low v) OR push_bit 8 (ucast (lba_mid v)) OR push_bit 16 (ucast (lba_high v))
     OR push_bit 24 (ucast (drive_head v AND 0x0F))"

text \<open>The status byte: busy for a while, then ready, with a data request outside the idle phase.\<close>

definition status_law :: "'d ata_env \<Rightarrow> ('d \<Rightarrow> drive) \<Rightarrow> ('d \<Rightarrow> nat) \<Rightarrow> bool" where
  "status_law e view busy \<longleftrightarrow>
     (\<forall>d. let (v, d') = inb (prt e) ATA_STATUS d in
        view d' = view d \<and> (not_busy v \<longleftrightarrow> busy d = 0) \<and> busy d' \<le> busy d - 1
        \<and> (busy d = 0 \<longrightarrow> has_data v = (phase (view d) \<noteq> Idle) \<and> v AND ATA_SR_DRDY \<noteq> 0))"

text \<open>Looking at the clock does not disturb the drive.\<close>

definition clock_law :: "'d ata_env \<Rightarrow> ('d \<Rightarrow> drive) \<Rightarrow> ('d \<Rightarrow> nat) \<Rightarrow> bool" where
  "clock_law e view busy \<longleftrightarrow>
     (\<forall>d. view (snd (ms_clock e d)) = view d \<and> busy (snd (ms_clock e d)) = busy d)"

text \<open>The task file of an idle drive, and the commands for one sector of the first drive.\<close>

definition command_law :: "'d ata_env \<Rightarrow> ('d \<Rightarrow> drive) \<Rightarrow> ('d \<Rightarrow> nat) \<Rightarrow> bool" where
  "command_law e view busy \<longleftrightarrow>
     (\<forall>d. busy d = 0 \<and> phase (view d) = Idle \<longrightarrow>
        (\<forall>port f x. (port, f) \<in> {(ATA_SECTOR_COUNT, sec_count_update (\<lambda>_. x)), (ATA_LBA_LOW, lba_low_update (\<lambda>_. x)),
            (ATA_LBA_MID, lba_mid_update (\<lambda>_. x)), (ATA_LBA_HIGH, lba_high_update (\<lambda>_. x)),
            (ATA_DRIVE, drive_head_update (\<lambda>_. x))} \<longrightarrow>
          view (outb (prt e) port x d) = f (view d) \<and> busy (outb (prt e) port x d) = 0)
        \<and> view (outb (prt e) ATA_COMMAND 0xE7 d) = view d
        \<and> (sec_count (view d) = 1 \<and> drive_head (view d) AND 0xF0 = 0xE0 \<longrightarrow>
            view (outb (prt e) ATA_COMMAND ATA_CMD_READ d)
              = (view d)\<lparr>phase := Sending (sectors (view d) (drive_lba (view d)))\<rparr>
            \<and> view (outb (prt e) ATA_COMMAND ATA_CMD_WRITE d) = (view d)\<lparr>phase := Receiving []\<rparr>))"

text \<open>The data port; after the last word of a sector the drive may be busy again.\<close>

definition data_law :: "'d ata_env \<Rightarrow> ('d \<Rightarrow> drive) \<Rightarrow> ('d \<Rightarrow> nat) \<Rightarrow> bool" where
  "data_law e view busy \<longleftrightarrow>
     (\<forall>d w ws. busy d = 0 \<longrightarrow>
        (phase (view d) = Sending (w # ws) \<longrightarrow>
           fst (inw (prt e) ATA_DATA d) = w
           \<and> view (snd (inw (prt e) ATA_DATA d)) = (view d)\<lparr>phase := if ws = [] then Idle else Sending ws\<rparr>
           \<and> (ws \<noteq> [] \<longrightarrow> busy (snd (inw (prt e) ATA_DATA d)) = 0))
        \<and> (phase (view d) = Receiving ws \<longrightarrow>
           view (outw (prt e) ATA_DATA w d) =
             (if length ws < 255 then (view d)\<lparr>phase := Receiving (ws @ [w])\<rparr>
              else (view d)\<lparr>phase := Idle, sectors := (sectors (view d))(drive_lba (view d) := ws @ [w])\<rparr>)
           \<and> (length ws < 255 \<longrightarrow> busy (outw (prt e) ATA_DATA w d) = 0)))"

definition ata_drive :: "'d ata_env \<Rightarrow> ('d \<Rightarrow> drive) \<Rightarrow> ('d \<Rightarrow> nat) \<Rightarrow> bool" where
  "ata_drive e view busy \<longleftrightarrow>
     status_law e view busy \<and> clock_law e view busy \<and> command_law e view busy \<and> data_law e view busy"

definition drive_idle :: "('d \<Rightarrow> drive) \<Rightarrow> ('d \<Rightarrow> nat) \<Rightarrow> 'd \<Rightarrow> bool" where
  "drive_idle view busy d \<longleftrightarrow> busy d = 0 \<and> phase (view d) = Idle"

section \<open>The waits end\<close>

lemma status_read:
  assumes "ata_drive e view busy" and "inb (prt e) ATA_STATUS d = (v, d')"
  shows "view d' = view d" "not_busy v \<longleftrightarrow> busy d = 0" "busy d' \<le> busy d - 1"
    "busy d = 0 \<Longrightarrow> has_data v = (phase (view d) \<noteq> Idle)" "busy d = 0 \<Longrightarrow> v AND ATA_SR_DRDY \<noteq> 0"
proof -
  have "status_law e view busy" using assms(1) by (simp add: ata_drive_def)
  note l = this [unfolded status_law_def, THEN spec [of _ d]]
  then show "view d' = view d" "not_busy v \<longleftrightarrow> busy d = 0" "busy d' \<le> busy d - 1"
    "busy d = 0 \<Longrightarrow> has_data v = (phase (view d) \<noteq> Idle)" "busy d = 0 \<Longrightarrow> v AND ATA_SR_DRDY \<noteq> 0"
    by (simp_all add: assms(2))
qed

lemma clock_read:
  assumes "ata_drive e view busy" and "ms_clock e d = (t, d')"
  shows "view d' = view d" "busy d' = busy d"
proof -
  have "clock_law e view busy" using assms(1) by (simp add: ata_drive_def)
  note l = this [unfolded clock_law_def, THEN spec [of _ d]]
  then show "view d' = view d" "busy d' = busy d" by (simp_all add: assms(2))
qed

text \<open>No two looks at the clock are more than five seconds apart.\<close>

definition calm :: "'d ata_env \<Rightarrow> bool" where
  "calm e \<longleftrightarrow> (\<forall>a b. fst (ms_clock e b) - fst (ms_clock e a) \<le> 5000)"

lemma wait_not_busy:
  assumes dr: "ata_drive e view busy"
  shows "\<exists>d' ok. wait_from e not_busy (fst (ms_clock e a)) d = Some (d', ok) \<and> view d' = view d
    \<and> (ok \<longrightarrow> busy d' = 0) \<and> (calm e \<longrightarrow> ok)"
proof (induction "busy d" arbitrary: d rule: less_induct)
  case less
  obtain v d1 where s: "inb (prt e) ATA_STATUS d = (v, d1)" by force
  note r = status_read [OF dr s]
  obtain t d2 where c: "ms_clock e d1 = (t, d2)" by force
  note k = clock_read [OF dr c]
  let ?start = "fst (ms_clock e a)"
  show ?case
  proof (cases "not_busy v")
    case True
    then have "wait_from e not_busy ?start d = Some (d1, True)" by (subst wait_from.simps) (simp add: s)
    then show ?thesis using True r by auto
  next
    case False
    then have "busy d2 < busy d" using r(2,3) k(2) by simp
    from less.hyps [OF this] obtain d' ok where i: "wait_from e not_busy ?start d2 = Some (d', ok)"
      "view d' = view d2" "ok \<longrightarrow> busy d' = 0" "calm e \<longrightarrow> ok" by blast
    have w: "wait_from e not_busy ?start d = (if t - ?start > 5000 then Some (d2, False) else Some (d', ok))"
      by (subst wait_from.simps) (simp add: s c False i(1))
    have "calm e \<Longrightarrow> \<not> t - ?start > 5000"
      unfolding calm_def using c by (metis fst_conv not_less)
    then show ?thesis using i(2-4) k(1) r(1) unfolding w by (cases "t - ?start > 5000") auto
  qed
qed

lemma timed_not_busy:
  assumes dr: "ata_drive e view busy"
  shows "\<exists>d' ok. timed_wait e not_busy d = Some (d', ok) \<and> view d' = view d
    \<and> (ok \<longrightarrow> busy d' = 0) \<and> (calm e \<longrightarrow> ok)"
proof -
  obtain t d1 where c: "ms_clock e d = (t, d1)" by force
  show ?thesis using wait_not_busy [OF dr, of d d1] clock_read [OF dr c] by (simp add: timed_wait_def c)
qed

lemma timed_has_data:
  assumes dr: "ata_drive e view busy" and "busy d = 0" and "phase (view d) \<noteq> Idle"
  shows "\<exists>d'. timed_wait e has_data d = Some (d', True) \<and> view d' = view d \<and> busy d' = 0"
proof -
  obtain t d1 where c: "ms_clock e d = (t, d1)" by force
  obtain v d2 where s: "inb (prt e) ATA_STATUS d1 = (v, d2)" by force
  note k = clock_read [OF dr c] and r = status_read [OF dr s]
  have "wait_from e has_data t d1 = Some (d2, True)"
    using r(4) k assms(2,3) by (subst wait_from.simps) (simp add: s)
  then show ?thesis using r(1,3) k assms(2) by (simp add: timed_wait_def c)
qed

text \<open>The waits without a timeout, for a status that the drive gives once it is not busy.\<close>

lemma wait_status_ends:
  assumes dr: "ata_drive e view busy"
    and nb: "\<And>v. stop v \<Longrightarrow> not_busy v"
    and ready: "\<And>v d d'. inb (prt e) ATA_STATUS d = (v, d') \<Longrightarrow> busy d = 0 \<Longrightarrow> view d = w \<Longrightarrow> stop v"
  shows "view d = w \<Longrightarrow> \<exists>d'. wait_status e stop d = Some d' \<and> view d' = view d \<and> busy d' = 0"
proof (induction "busy d" arbitrary: d rule: less_induct)
  case less
  obtain v d1 where s: "inb (prt e) ATA_STATUS d = (v, d1)" by force
  note r = status_read [OF dr s]
  show ?case
  proof (cases "stop v")
    case True
    then have "wait_status e stop d = Some d1" by (subst wait_status.simps) (simp add: s)
    then show ?thesis using nb [OF True] r by simp
  next
    case False
    then have "busy d \<noteq> 0" using ready [OF s _ less.prems] by blast
    then have "busy d1 < busy d" using r(3) by simp
    moreover have "view d1 = w" using less.prems r(1) by simp
    ultimately obtain d' where "wait_status e stop d1 = Some d'" "view d' = view d1" "busy d' = 0"
      using less.hyps by blast
    moreover have "wait_status e stop d = wait_status e stop d1" by (subst wait_status.simps) (simp add: s False)
    ultimately show ?thesis using r(1) by simp
  qed
qed

section \<open>Commands and data\<close>

lemma task_file:
  assumes "ata_drive e view busy" and "drive_idle view busy d"
  shows "view (outb (prt e) ATA_SECTOR_COUNT x d) = (view d)\<lparr>sec_count := x\<rparr>
      \<and> drive_idle view busy (outb (prt e) ATA_SECTOR_COUNT x d)"
    "view (outb (prt e) ATA_LBA_LOW x d) = (view d)\<lparr>lba_low := x\<rparr> \<and> drive_idle view busy (outb (prt e) ATA_LBA_LOW x d)"
    "view (outb (prt e) ATA_LBA_MID x d) = (view d)\<lparr>lba_mid := x\<rparr> \<and> drive_idle view busy (outb (prt e) ATA_LBA_MID x d)"
    "view (outb (prt e) ATA_LBA_HIGH x d) = (view d)\<lparr>lba_high := x\<rparr> \<and> drive_idle view busy (outb (prt e) ATA_LBA_HIGH x d)"
    "view (outb (prt e) ATA_DRIVE x d) = (view d)\<lparr>drive_head := x\<rparr> \<and> drive_idle view busy (outb (prt e) ATA_DRIVE x d)"
proof -
  have c: "command_law e view busy" and i: "busy d = 0 \<and> phase (view d) = Idle"
    using assms by (simp_all add: ata_drive_def drive_idle_def)
  have r: "view (outb (prt e) port x d) = f (view d) \<and> busy (outb (prt e) port x d) = 0"
    if "(port, f) \<in> {(ATA_SECTOR_COUNT, sec_count_update (\<lambda>_. x)), (ATA_LBA_LOW, lba_low_update (\<lambda>_. x)),
            (ATA_LBA_MID, lba_mid_update (\<lambda>_. x)), (ATA_LBA_HIGH, lba_high_update (\<lambda>_. x)),
            (ATA_DRIVE, drive_head_update (\<lambda>_. x))}" for port f
    using c [unfolded command_law_def, THEN spec, THEN mp, OF i, THEN conjunct1] that by fast
  show "view (outb (prt e) ATA_SECTOR_COUNT x d) = (view d)\<lparr>sec_count := x\<rparr>
      \<and> drive_idle view busy (outb (prt e) ATA_SECTOR_COUNT x d)"
    "view (outb (prt e) ATA_LBA_LOW x d) = (view d)\<lparr>lba_low := x\<rparr> \<and> drive_idle view busy (outb (prt e) ATA_LBA_LOW x d)"
    "view (outb (prt e) ATA_LBA_MID x d) = (view d)\<lparr>lba_mid := x\<rparr> \<and> drive_idle view busy (outb (prt e) ATA_LBA_MID x d)"
    "view (outb (prt e) ATA_LBA_HIGH x d) = (view d)\<lparr>lba_high := x\<rparr> \<and> drive_idle view busy (outb (prt e) ATA_LBA_HIGH x d)"
    "view (outb (prt e) ATA_DRIVE x d) = (view d)\<lparr>drive_head := x\<rparr> \<and> drive_idle view busy (outb (prt e) ATA_DRIVE x d)"
    using r [of ATA_SECTOR_COUNT] r [of ATA_LBA_LOW] r [of ATA_LBA_MID] r [of ATA_LBA_HIGH] r [of ATA_DRIVE] i
    by (simp_all add: drive_idle_def)
qed

text \<open>The 28 bits of the sector number that the task file has room for.\<close>

lemma masks: "(0xFF :: u32) = mask 8" "(0x0F :: u32) = mask 4" "(0x0F :: u8) = mask 4" "(0x0FFFFFFF :: u32) = mask 28"
  by (simp_all add: mask_eq_exp_minus_1)

lemma drive_lba_set:
  "drive_lba (v\<lparr>sec_count := n, lba_low := ucast (lba AND 0xFF), lba_mid := ucast (drop_bit 8 lba AND 0xFF),
     lba_high := ucast (drop_bit 16 lba AND 0xFF), drive_head := ucast (0xE0 OR (drop_bit 24 lba AND 0x0F))\<rparr>)
   = lba28 lba"
proof (intro bit_word_eqI)
  have h: "ucast (0xE0 OR (drop_bit 24 lba AND 0x0F)) AND (0x0F :: u8) = ucast (drop_bit 24 lba AND 0x0F)"
  proof (intro bit_word_eqI)
    fix n :: nat assume "n < LENGTH(8)"
    then have "n \<in> {0, 1, 2, 3, 4, 5, 6, 7}" by auto
    then show "bit (ucast (0xE0 OR (drop_bit 24 lba AND 0x0F)) AND (0x0F :: u8)) n = bit (ucast (drop_bit 24 lba AND 0x0F) :: u8) n"
      by (auto simp: bit_simps)
  qed
  fix n :: nat assume "n < LENGTH(32)"
  then consider "n < 8" | "8 \<le> n" "n < 16" | "16 \<le> n" "n < 24" | "24 \<le> n" "n < 28" | "28 \<le> n" "n < 32"
    by fastforce
  then show "bit (drive_lba (v\<lparr>sec_count := n', lba_low := ucast (lba AND 0xFF), lba_mid := ucast (drop_bit 8 lba AND 0xFF),
     lba_high := ucast (drop_bit 16 lba AND 0xFF), drive_head := ucast (0xE0 OR (drop_bit 24 lba AND 0x0F))\<rparr>)) n
   = bit (lba28 lba) n" for n'
    by cases (auto simp: drive_lba_def lba28_def h, auto simp: masks bit_simps)
qed

lemma drive_head_set: "(ucast (0xE0 OR (drop_bit 24 lba AND 0x0F :: u32)) :: u8) AND 0xF0 = 0xE0"
proof (intro bit_word_eqI)
  fix n :: nat assume "n < LENGTH(8)"
  then have "n \<in> {0, 1, 2, 3, 4, 5, 6, 7}" by auto
  then show "bit ((ucast (0xE0 OR (drop_bit 24 lba AND 0x0F :: u32)) :: u8) AND 0xF0) n = bit (0xE0 :: u8) n"
    by (auto simp: bit_simps)
qed

lemma command_sets:
  assumes dr: "ata_drive e view busy" and "drive_idle view busy d"
  shows "drive_lba (view (ata_command e ATA_CMD_READ lba d)) = lba28 lba
      \<and> sectors (view (ata_command e ATA_CMD_READ lba d)) = sectors (view d)
      \<and> phase (view (ata_command e ATA_CMD_READ lba d)) = Sending (sectors (view d) (lba28 lba))"
    "drive_lba (view (ata_command e ATA_CMD_WRITE lba d)) = lba28 lba
      \<and> sectors (view (ata_command e ATA_CMD_WRITE lba d)) = sectors (view d)
      \<and> phase (view (ata_command e ATA_CMD_WRITE lba d)) = Receiving []"
proof -
  define d1 where "d1 = outb (prt e) ATA_SECTOR_COUNT 1 d"
  define d2 where "d2 = outb (prt e) ATA_LBA_LOW (ucast (lba AND 0xFF)) d1"
  define d3 where "d3 = outb (prt e) ATA_LBA_MID (ucast (drop_bit 8 lba AND 0xFF)) d2"
  define d4 where "d4 = outb (prt e) ATA_LBA_HIGH (ucast (drop_bit 16 lba AND 0xFF)) d3"
  define d5 where "d5 = outb (prt e) ATA_DRIVE (ucast (0xE0 OR (drop_bit 24 lba AND 0x0F))) d4"
  note s1 = task_file(1) [OF dr assms(2), of 1, folded d1_def]
  note s2 = task_file(2) [OF dr conjunct2 [OF s1], of "ucast (lba AND 0xFF)", folded d2_def]
  note s3 = task_file(3) [OF dr conjunct2 [OF s2], of "ucast (drop_bit 8 lba AND 0xFF)", folded d3_def]
  note s4 = task_file(4) [OF dr conjunct2 [OF s3], of "ucast (drop_bit 16 lba AND 0xFF)", folded d4_def]
  note s5 = task_file(5) [OF dr conjunct2 [OF s4], of "ucast (0xE0 OR (drop_bit 24 lba AND 0x0F))", folded d5_def]
  have v: "view d5 = (view d)\<lparr>sec_count := 1, lba_low := ucast (lba AND 0xFF), lba_mid := ucast (drop_bit 8 lba AND 0xFF),
     lba_high := ucast (drop_bit 16 lba AND 0xFF), drive_head := ucast (0xE0 OR (drop_bit 24 lba AND 0x0F))\<rparr>"
    using s1 s2 s3 s4 s5 by simp
  have l: "drive_lba (view d5) = lba28 lba" unfolding v by (rule drive_lba_set)
  have f: "sec_count (view d5) = 1" "drive_head (view d5) AND 0xF0 = 0xE0" "sectors (view d5) = sectors (view d)"
    unfolding v by (simp_all add: drive_head_set)
  have i: "busy d5 = 0 \<and> phase (view d5) = Idle" using conjunct2 [OF s5] by (simp only: drive_idle_def)
  have "command_law e view busy" using dr by (simp add: ata_drive_def)
  then have c: "view (outb (prt e) ATA_COMMAND ATA_CMD_READ d5)
         = (view d5)\<lparr>phase := Sending (sectors (view d5) (drive_lba (view d5)))\<rparr>"
    "view (outb (prt e) ATA_COMMAND ATA_CMD_WRITE d5) = (view d5)\<lparr>phase := Receiving []\<rparr>"
    using i f(1,2) unfolding command_law_def by blast+
  have e: "ata_command e cmd lba d = outb (prt e) ATA_COMMAND cmd d5" for cmd
    by (simp add: ata_command_def d1_def d2_def d3_def d4_def d5_def)
  have p: "drive_lba (v\<lparr>phase := x\<rparr>) = drive_lba v" for v x by (simp add: drive_lba_def)
  show "drive_lba (view (ata_command e ATA_CMD_READ lba d)) = lba28 lba
      \<and> sectors (view (ata_command e ATA_CMD_READ lba d)) = sectors (view d)
      \<and> phase (view (ata_command e ATA_CMD_READ lba d)) = Sending (sectors (view d) (lba28 lba))"
    "drive_lba (view (ata_command e ATA_CMD_WRITE lba d)) = lba28 lba
      \<and> sectors (view (ata_command e ATA_CMD_WRITE lba d)) = sectors (view d)
      \<and> phase (view (ata_command e ATA_CMD_WRITE lba d)) = Receiving []"
    unfolding e c using l f(3) by (simp_all add: p)
qed

lemma in_words_sends:
  assumes dr: "ata_drive e view busy"
  shows "busy d = 0 \<Longrightarrow> phase (view d) = Sending ws \<Longrightarrow> ws \<noteq> [] \<Longrightarrow>
    fst (in_words (length ws) e d) = ws
    \<and> view (snd (in_words (length ws) e d)) = (view d)\<lparr>phase := Idle\<rparr>"
proof (induction ws arbitrary: d)
  case (Cons w ws)
  have "data_law e view busy" using dr by (simp add: ata_drive_def)
  then have s: "fst (inw (prt e) ATA_DATA d) = w
      \<and> view (snd (inw (prt e) ATA_DATA d)) = (view d)\<lparr>phase := if ws = [] then Idle else Sending ws\<rparr>
      \<and> (ws \<noteq> [] \<longrightarrow> busy (snd (inw (prt e) ATA_DATA d)) = 0)"
    using Cons.prems(1,2) unfolding data_law_def by blast
  obtain d1 where d1: "inw (prt e) ATA_DATA d = (w, d1)" using s by (metis prod.collapse)
  show ?case
  proof (cases "ws = []")
    case True
    then show ?thesis using s d1 by simp
  next
    case False
    then show ?thesis using Cons.IH [of d1] s d1 by (auto split: prod.splits)
  qed
qed simp

lemma out_words_receives:
  assumes dr: "ata_drive e view busy"
  shows "busy d = 0 \<Longrightarrow> phase (view d) = Receiving ps \<Longrightarrow> length ps + length ws = 256 \<Longrightarrow> ws \<noteq> [] \<Longrightarrow>
    view (out_words ws e d)
      = (view d)\<lparr>phase := Idle, sectors := (sectors (view d))(drive_lba (view d) := ps @ ws)\<rparr>"
proof (induction ws arbitrary: d ps)
  case (Cons w ws)
  let ?d = "outw (prt e) ATA_DATA w d"
  have "data_law e view busy" using dr by (simp add: ata_drive_def)
  then have s: "view ?d = (if length ps < 255 then (view d)\<lparr>phase := Receiving (ps @ [w])\<rparr>
        else (view d)\<lparr>phase := Idle, sectors := (sectors (view d))(drive_lba (view d) := ps @ [w])\<rparr>)
      \<and> (length ps < 255 \<longrightarrow> busy ?d = 0)"
    using Cons.prems(1,2) unfolding data_law_def by blast
  have p: "drive_lba (v\<lparr>phase := x\<rparr>) = drive_lba v" for v x by (simp add: drive_lba_def)
  show ?case
  proof (cases "ws = []")
    case True
    then show ?thesis using s Cons.prems by (simp add: fun_upd_def)
  next
    case False
    then have "length ps < 255" using Cons.prems(3) by (cases ws) auto
    then show ?thesis using Cons.IH [of ?d "ps @ [w]"] s Cons.prems(3) False by (simp add: p)
  qed
qed simp

section \<open>The driver implements the file system's sectors\<close>

text \<open>The sectors as the file system sees them: the words as bytes, the low one first.\<close>

definition drive_disk :: "drive \<Rightarrow> u32 \<Rightarrow> sector" where
  "drive_disk v l = concat (map bytes16 (sectors v l))"

definition full_sectors :: "drive \<Rightarrow> bool" where
  "full_sectors v \<longleftrightarrow> (\<forall>l. length (sectors v l) = 256)"


text \<open>
  C15: On such a drive a write returns with the disk that the file system's \<open>ata_write\<close> leaves and an
  idle drive.
\<close>

theorem ata_write_refines:
  assumes "ata_drive e view busy" and "phase (view d) = Idle" and "full_sectors (view d)"
    and "disk s = drive_disk (view d)" and "length buf = 256"
  shows "\<exists>d'. ata_write_sector e lba buf d = Some d' \<and> drive_idle view busy d' \<and> full_sectors (view d')
    \<and> drive_disk (view d') = disk (ata_write lba (concat (map bytes16 buf)) s)"
proof -
  note dr = assms(1)
  let ?ready = "\<lambda>v. not_busy v \<and> v AND ATA_SR_DRDY \<noteq> 0" and ?data = "\<lambda>v. not_busy v \<and> has_data v"
  obtain d1 where 1: "wait_status e ?ready d = Some d1" "view d1 = view d" "busy d1 = 0"
    using wait_status_ends [OF dr, of ?ready "view d" d] status_read [OF dr] by blast
  have i: "drive_idle view busy d1" using 1 assms(2) by (simp add: drive_idle_def)
  define c where "c = ata_command e ATA_CMD_WRITE lba d1"
  have c: "phase (view c) = Receiving []" "sectors (view c) = sectors (view d)" "drive_lba (view c) = lba28 lba"
    using command_sets(2) [OF dr i, of lba] 1(2) by (simp_all add: c_def)
  obtain d2 where 2: "wait_status e ?data c = Some d2" "view d2 = view c" "busy d2 = 0"
  proof -
    have "?data v" if "inb (prt e) ATA_STATUS d' = (v, d'')" "busy d' = 0" "view d' = view c" for v d' d''
      using status_read(2,4) [OF dr that(1)] that(2,3) c(1) by simp
    then show thesis using that wait_status_ends [OF dr, of ?data "view c" c] by blast
  qed
  have "buf \<noteq> []" using assms(5) by auto
  then have o: "view (out_words buf e d2) = (view c)\<lparr>phase := Idle, sectors := (sectors (view d))(lba28 lba := buf)\<rparr>"
    using out_words_receives [OF dr 2(3), of "[]" buf] 2(2) c assms(5) by simp
  obtain d3 where 3: "wait_status e not_busy (out_words buf e d2) = Some d3" "view d3 = view (out_words buf e d2)" "busy d3 = 0"
    using wait_status_ends [OF dr, of not_busy "view (out_words buf e d2)" "out_words buf e d2"] status_read(2) [OF dr] by blast
  have "ata_write_sector e lba buf d = Some d3"
    using 1(1) 2(1) 3(1) by (simp add: ata_write_sector_def c_def)
  moreover have "drive_disk (view d3) = disk (ata_write lba (concat (map bytes16 buf)) s)"
    using 3(2) o assms(4) by (auto simp: drive_disk_def ata_write_def fun_eq_iff)
  moreover have "full_sectors (view d3)" using 3(2) o assms(3,5) by (simp add: full_sectors_def)
  ultimately show ?thesis using 3 o by (simp add: drive_idle_def)
qed

lemma ata_flush_ends:
  assumes "ata_drive e view busy" and "drive_idle view busy d"
  shows "\<exists>d'. ata_flush e d = Some d' \<and> view d' = view d \<and> drive_idle view busy d'"
proof -
  have i: "busy d = 0 \<and> phase (view d) = Idle" using assms(2) by (simp add: drive_idle_def)
  have "command_law e view busy" using assms(1) by (simp add: ata_drive_def)
  then have v: "view (outb (prt e) ATA_COMMAND 0xE7 d) = view d" using i by (simp add: command_law_def)
  then show ?thesis
    using wait_status_ends [OF assms(1), of not_busy "view d" "outb (prt e) ATA_COMMAND 0xE7 d"]
      status_read(2) [OF assms(1)] i by (auto simp: ata_flush_def drive_idle_def)
qed

section \<open>A drive\<close>

text \<open>A drive that answers busy twice after each command and each sector, and a clock that ticks.\<close>

type_synonym sim = "drive \<times> nat"

definition sim_in8 :: "u16 \<Rightarrow> sim \<Rightarrow> u8 \<times> sim" where
  "sim_in8 port = (\<lambda>(v, b).
     if port = ATA_STATUS
     then if b > 0 then (0x80, (v, b - 1)) else (if phase v = Idle then 0x40 else 0x48, (v, 0))
     else (0, (v, b)))"

definition sim_out8 :: "u16 \<Rightarrow> u8 \<Rightarrow> sim \<Rightarrow> sim" where
  "sim_out8 port x = (\<lambda>(v, b).
     if b > 0 \<or> phase v \<noteq> Idle then (v, b)
     else if port = ATA_SECTOR_COUNT then (v\<lparr>sec_count := x\<rparr>, b)
     else if port = ATA_LBA_LOW then (v\<lparr>lba_low := x\<rparr>, b)
     else if port = ATA_LBA_MID then (v\<lparr>lba_mid := x\<rparr>, b)
     else if port = ATA_LBA_HIGH then (v\<lparr>lba_high := x\<rparr>, b)
     else if port = ATA_DRIVE then (v\<lparr>drive_head := x\<rparr>, b)
     else if port = ATA_COMMAND \<and> x = ATA_CMD_READ then (v\<lparr>phase := Sending (sectors v (drive_lba v))\<rparr>, 2)
     else if port = ATA_COMMAND \<and> x = ATA_CMD_WRITE then (v\<lparr>phase := Receiving []\<rparr>, 2)
     else (v, 2))"

definition sim_in16 :: "u16 \<Rightarrow> sim \<Rightarrow> u16 \<times> sim" where
  "sim_in16 port = (\<lambda>(v, b).
     case phase v of Sending (w # ws) \<Rightarrow>
         (w, v\<lparr>phase := if ws = [] then Idle else Sending ws\<rparr>, if ws = [] then 2 else b)
       | _ \<Rightarrow> (0, v, b))"

definition sim_out16 :: "u16 \<Rightarrow> u16 \<Rightarrow> sim \<Rightarrow> sim" where
  "sim_out16 port w = (\<lambda>(v, b).
     case phase v of Receiving ws \<Rightarrow>
         if length ws < 255 then (v\<lparr>phase := Receiving (ws @ [w])\<rparr>, b)
         else (v\<lparr>phase := Idle, sectors := (sectors v)(drive_lba v := ws @ [w])\<rparr>, 2)
       | _ \<Rightarrow> (v, b))"

definition sim_env :: "sim ata_env" where
  "sim_env = \<lparr>prt = \<lparr>in8 = sim_in8, out8 = sim_out8, in16 = sim_in16, out16 = sim_out16\<rparr>, ms_clock = (\<lambda>d. (42, d))\<rparr>"

lemma sim_ports [simp]:
  "inb (prt sim_env) = sim_in8" "outb (prt sim_env) = sim_out8" "inw (prt sim_env) = sim_in16"
  "outw (prt sim_env) = sim_out16" "ms_clock sim_env d = (42, d)"
  by (simp_all add: sim_env_def inb_def outb_def inw_def outw_def fun_eq_iff)

lemma sim_drive: "ata_drive sim_env fst snd"
  unfolding ata_drive_def
proof (intro conjI)
  show "status_law sim_env fst snd"
    by (auto simp: status_law_def sim_in8_def not_busy_def has_data_def)
  show "clock_law sim_env fst snd" by (simp add: clock_law_def)
  show "command_law sim_env fst snd" by (auto simp: command_law_def sim_out8_def)
  show "data_law sim_env fst snd" by (auto simp: data_law_def sim_in16_def sim_out16_def)
qed

definition blank_drive :: drive where
  "blank_drive = \<lparr>sec_count = 0, lba_low = 0, lba_mid = 0, lba_high = 0, drive_head = 0, phase = Idle,
     sectors = (\<lambda>l. replicate 256 (ucast l))\<rparr>"

definition blank_fs :: "fatfs \<Rightarrow> fatfs" where
  "blank_fs s = s\<lparr>disk := drive_disk blank_drive\<rparr>"

lemma blank_drive_ok: "drive_idle fst snd (blank_drive, 0)" "full_sectors (fst (blank_drive, 0))"
  "disk (blank_fs s) = drive_disk (fst (blank_drive, 0))"
  by (simp_all add: drive_idle_def full_sectors_def blank_drive_def blank_fs_def)


lemma ata_write_refines_witness:
  "\<exists>d'. ata_write_sector sim_env 7 (replicate 256 0) (blank_drive, 0) = Some d'"
proof -
  have "phase (fst (blank_drive, 0 :: nat)) = Idle" by (simp add: blank_drive_def)
  from ata_write_refines [OF sim_drive this blank_drive_ok(2) blank_drive_ok(3) [of small_fs], of "replicate 256 0" 7]
  show ?thesis by auto
qed

end
