(* ===== verification/Uefi.thy ===== *)
theory Uefi
  imports Pmm Fat_Layout "HOL-Library.Monad_Syntax"
begin

text \<open>
  The UEFI boot loader, \<^verbatim>\<open>src/src/boot/UEFI/uefi_boot.c\<close>.  The firmware is a parameter: its state
  \<open>'w\<close> and the services the loader calls.  A service that reports an error gives \<open>None\<close>; an
  operation of the loader gives \<open>None\<close> when it uses memory it does not have or does not return.
\<close>

section \<open>The firmware's services\<close>

datatype efi_memory_type = EfiConventionalMemory | EfiACPIReclaimMemory | EfiACPIMemoryNVS
  | EfiUnusableMemory | EfiOtherMemory u32

record efi_desc =
  d_type :: efi_memory_type
  d_start :: u64
  d_pages :: u64

datatype efi_pixel_format = PixelRedGreenBlue | PixelBlueGreenRed | PixelBitMask | PixelBltOnly | PixelOther

record mode_info =
  mi_width :: u32
  mi_height :: u32
  mi_scanline :: u32
  mi_format :: efi_pixel_format

record gop_mode =
  max_mode :: u32
  cur_mode :: u32
  cur_info :: mode_info
  fb_base :: u64

text \<open>
  Handles, volumes and files are addresses.  \<open>read_file\<close> gives the bytes read, none at the end of
  the file.  \<open>memory_map\<close> fills a buffer for that many descriptors and gives the key of the map.
\<close>

record 'w firmware =
  fs_handles :: "'w \<Rightarrow> u64 list option \<times> 'w"
  image_handles :: "'w \<Rightarrow> u64 list option \<times> 'w"
  loaded_image :: "u64 \<Rightarrow> 'w \<Rightarrow> (u64 \<times> u64) option \<times> 'w"
  open_volume :: "u64 \<Rightarrow> 'w \<Rightarrow> u64 option \<times> 'w"
  open_kernel :: "u64 \<Rightarrow> 'w \<Rightarrow> u64 option \<times> 'w"
  close_file :: "u64 \<Rightarrow> 'w \<Rightarrow> 'w"
  read_file :: "u64 \<Rightarrow> nat \<Rightarrow> 'w \<Rightarrow> u8 list option \<times> 'w"
  alloc_at :: "u64 \<Rightarrow> nat \<Rightarrow> 'w \<Rightarrow> bool \<times> 'w"
  alloc_pool :: "nat \<Rightarrow> 'w \<Rightarrow> u64 option \<times> 'w"
  locate_gop :: "'w \<Rightarrow> gop_mode option \<times> 'w"
  query_mode :: "nat \<Rightarrow> 'w \<Rightarrow> mode_info option \<times> 'w"
  map_length :: "'w \<Rightarrow> nat \<times> 'w"
  desc_size :: nat
  memory_map :: "nat \<Rightarrow> 'w \<Rightarrow> (efi_desc list \<times> u64) option \<times> 'w"
  exit_boot :: "u64 \<Rightarrow> u64 \<Rightarrow> 'w \<Rightarrow> bool \<times> 'w"

abbreviation KERNEL_LOAD_PHYS :: u64 where "KERNEL_LOAD_PHYS \<equiv> 0x100000"
abbreviation E820_MAX_ENTRIES :: nat where "E820_MAX_ENTRIES \<equiv> 128"
abbreviation KERNEL_MAX_PAGES :: nat where "KERNEL_MAX_PAGES \<equiv> 2048"
abbreviation KERNEL_MAGIC :: u32 where "KERNEL_MAGIC \<equiv> 0xC0DEC0DE"

section \<open>Finding things\<close>

text \<open>The first volume that holds the kernel; its root directory stays open.\<close>

fun first_kernel_fs :: "u64 list \<Rightarrow> 'w firmware \<Rightarrow> 'w \<Rightarrow> u64 option \<times> 'w" where
  "first_kernel_fs [] fw w = (None, w)"
| "first_kernel_fs (h # hs) fw w =
     (case open_volume fw h w of
        (None, w) \<Rightarrow> first_kernel_fs hs fw w
      | (Some root, w) \<Rightarrow>
         (case open_kernel fw root w of
            (Some f, w) \<Rightarrow> (Some root, close_file fw f w)
          | (None, w) \<Rightarrow> first_kernel_fs hs fw (close_file fw root w)))"

definition find_kernel_fs :: "'w firmware \<Rightarrow> 'w \<Rightarrow> u64 option \<times> 'w" where
  "find_kernel_fs fw w =
     (case fs_handles fw w of (None, w) \<Rightarrow> (None, w) | (Some hs, w) \<Rightarrow> first_kernel_fs hs fw w)"

fun image_of :: "u64 \<Rightarrow> u64 list \<Rightarrow> 'w firmware \<Rightarrow> 'w \<Rightarrow> u64 option \<times> 'w" where
  "image_of addr [] fw w = (None, w)"
| "image_of addr (h # hs) fw w =
     (case loaded_image fw h w of
        (None, w) \<Rightarrow> image_of addr hs fw w
      | (Some (b, sz), w) \<Rightarrow> if addr \<ge> b \<and> addr < b + sz then (Some h, w) else image_of addr hs fw w)"

text \<open>\<open>our_addr\<close> is the address of the function itself.  The fallback is the first handle.\<close>

definition find_our_image_handle :: "u64 \<Rightarrow> 'w firmware \<Rightarrow> 'w \<Rightarrow> u64 option \<times> 'w" where
  "find_our_image_handle our_addr fw w =
     (case image_handles fw w of
        (None, w) \<Rightarrow> (None, w)
      | (Some [], w) \<Rightarrow> (None, w)
      | (Some (h # hs), w) \<Rightarrow>
         (case image_of our_addr (h # hs) fw w of
            (Some i, w) \<Rightarrow> (Some i, w) | (None, w) \<Rightarrow> (Some h, w)))"

section \<open>Reading the kernel\<close>

text \<open>
  The loop of \<^verbatim>\<open>read_kernel_file\<close>; \<open>got\<close> are the bytes read so far.  The inner option is the
  status.
\<close>

abbreviation MAX_KERNEL :: nat where "MAX_KERNEL \<equiv> 8388608"

partial_function (option) read_chunks ::
  "'w firmware \<Rightarrow> u64 \<Rightarrow> u8 list \<Rightarrow> 'w \<Rightarrow> (u8 list option \<times> 'w) option" where
  "read_chunks fw f got w =
     (let chunk = min (MAX_KERNEL - length got) 1048576
      in if chunk = 0 then Some (None, close_file fw f w)
         else case read_file fw f chunk w of
             (None, w) \<Rightarrow> Some (None, close_file fw f w)
           | (Some bs, w) \<Rightarrow> if bs = [] then Some (Some got, close_file fw f w)
                            else read_chunks fw f (got @ bs) w)"

definition read_kernel_file :: "'w firmware \<Rightarrow> u64 \<Rightarrow> 'w \<Rightarrow> (u8 list option \<times> 'w) option" where
  "read_kernel_file fw root w =
     (case open_kernel fw root w of (None, w) \<Rightarrow> Some (None, w) | (Some f, w) \<Rightarrow> read_chunks fw f [] w)"

section \<open>Graphics modes\<close>

record VideoMode =
  vm_width :: u16
  vm_height :: u16
  vm_pitch :: u16
  vm_bpp :: u8
  vm_format :: u8

definition video_mode :: "mode_info \<Rightarrow> VideoMode" where
  "video_mode mi = \<lparr>vm_width = ucast (mi_width mi), vm_height = ucast (mi_height mi),
     vm_pitch = ucast (mi_scanline mi * 4), vm_bpp = 32,
     vm_format = (case mi_format mi of PixelRedGreenBlue \<Rightarrow> 0 | PixelBlueGreenRed \<Rightarrow> 1
       | PixelBitMask \<Rightarrow> 2 | PixelBltOnly \<Rightarrow> 3 | PixelOther \<Rightarrow> 0xFF)\<rparr>"

fun query_modes :: "nat list \<Rightarrow> 'w firmware \<Rightarrow> 'w \<Rightarrow> VideoMode list \<times> 'w" where
  "query_modes [] fw w = ([], w)"
| "query_modes (i # is) fw w =
     (case query_mode fw i w of
        (None, w) \<Rightarrow> query_modes is fw w
      | (Some mi, w) \<Rightarrow> let (ms, w) = query_modes is fw w in (video_mode mi # ms, w))"

text \<open>The size of a mode is 8 bytes.\<close>

definition collect_gop_modes ::
  "gop_mode \<Rightarrow> BootInfo \<Rightarrow> 'w firmware \<Rightarrow> 'w \<Rightarrow> (BootInfo \<times> VideoMode list) \<times> 'w" where
  "collect_gop_modes g info fw w =
     (case alloc_pool fw (8 * unat (max_mode g)) w of
        (None, w) \<Rightarrow> ((info, []), w)
      | (Some a, w) \<Rightarrow>
         let (ms, w) = query_modes [0..<unat (max_mode g)] fw w
         in ((info\<lparr>video_modes_addr := ucast a, video_modes_count := of_nat (length ms),
                 current_mode_idx := ucast (cur_mode g)\<rparr>, ms), w))"

definition setup_gop :: "BootInfo \<Rightarrow> 'w firmware \<Rightarrow> 'w \<Rightarrow> (BootInfo \<times> VideoMode list) \<times> 'w" where
  "setup_gop info fw w =
     (case locate_gop fw w of
        (None, w) \<Rightarrow> ((info, []), w)
      | (Some g, w) \<Rightarrow>
         let ((info, ms), w) = collect_gop_modes g info fw w
         in ((info\<lparr>fb_addr := ucast (fb_base g), fb_width := ucast (mi_width (cur_info g)),
                 fb_height := ucast (mi_height (cur_info g)),
                 fb_pitch := ucast (mi_scanline (cur_info g) * 4), fb_bpp := 32\<rparr>, ms), w))"

section \<open>The memory map\<close>

definition uefi_type_to_e820 :: "efi_memory_type \<Rightarrow> u32" where
  "uefi_type_to_e820 t = (case t of EfiConventionalMemory \<Rightarrow> E820_FREE | EfiACPIReclaimMemory \<Rightarrow> E820_ACPI
     | EfiACPIMemoryNVS \<Rightarrow> E820_NVS | EfiUnusableMemory \<Rightarrow> E820_DEFEKT | EfiOtherMemory _ \<Rightarrow> E820_RESERVED)"

definition convert_entry :: "efi_desc \<Rightarrow> E820Entry" where
  "convert_entry d = \<lparr>base = d_start d, length_of = d_pages d * 4096,
     e_type = uefi_type_to_e820 (d_type d), attrib = 0\<rparr>"

text \<open>The loop over the descriptors; \<open>es\<close> is what \<^verbatim>\<open>emap\<close> holds so far.\<close>

fun convert_map :: "efi_desc list \<Rightarrow> E820Entry list \<Rightarrow> u64 \<Rightarrow> E820Entry list \<times> u64" where
  "convert_map [] es total_kb = (es, total_kb)"
| "convert_map (d # ds) es total_kb =
     (if length es < E820_MAX_ENTRIES then
        let e = convert_entry d
        in convert_map ds (es @ [e])
             (if e_type e = E820_FREE then total_kb + drop_bit 10 (length_of e) else total_kb)
      else (es, total_kb))"

section \<open>efi_main\<close>

text \<open>
  The loader hangs in an endless loop, or enters the kernel with the boot information, the map, the
  modes and the bytes at the load address.
\<close>

datatype 'w boot_result = Hang 'w | Enter u64 BootInfo "E820Entry list" "VideoMode list" "u8 list" 'w

definition efi_info :: BootInfo where
  "efi_info = \<lparr>e820_count = 0, e820_map_addr = 0, total_ram_kb = 0, ram_source = 0,
     kernel_addr = 0x100000, kernel_mem_ok = 1, cpu_flags = 0x0D, kernel_size = 0, fb_addr = 0,
     fb_width = 0, fb_height = 0, fb_pitch = 0, fb_bpp = 0, boot_type = 1, video_modes_addr = 0,
     video_modes_count = 0, current_mode_idx = 0\<rparr>"

text \<open>Word \<open>i\<close> of the kernel's header; \<open>mem\<close> is what the memory held before.\<close>

definition header_word :: "(nat \<Rightarrow> u8) \<Rightarrow> u8 list \<Rightarrow> nat \<Rightarrow> u32" where
  "header_word mem bs i =
     (let b = (\<lambda>j. if j < length bs then bs ! j else mem j)
      in u32_of (b (4 * i)) (b (4 * i + 1)) (b (4 * i + 2)) (b (4 * i + 3)))"

text \<open>
  The map is read again for the key, and once more when the key has become stale.  The status of the
  reading is not looked at: when it fails the old key is used.
\<close>

definition fresh_key :: "u64 \<Rightarrow> nat \<Rightarrow> 'w firmware \<Rightarrow> 'w \<Rightarrow> u64 \<times> 'w" where
  "fresh_key key cap fw w =
     (case memory_map fw cap w of (None, w) \<Rightarrow> (key, w) | (Some (_, k), w) \<Rightarrow> (k, w))"

definition leave_firmware :: "u64 \<Rightarrow> u64 \<Rightarrow> nat \<Rightarrow> 'w firmware \<Rightarrow> 'w \<Rightarrow> bool \<times> 'w" where
  "leave_firmware img key cap fw w =
     (let (key, w) = fresh_key key cap fw w
      in case exit_boot fw img key w of
           (True, w) \<Rightarrow> (True, w)
         | (False, w) \<Rightarrow> let (key, w) = fresh_key key cap fw w in exit_boot fw img key w)"

definition efi_main :: "u64 \<Rightarrow> (nat \<Rightarrow> u8) \<Rightarrow> 'w firmware \<Rightarrow> 'w \<Rightarrow> 'w boot_result option" where
  "efi_main our_addr mem fw w =
     (case find_kernel_fs fw w of (None, w) \<Rightarrow> Some (Hang w)
      | (Some root, w) \<Rightarrow>
     (case alloc_at fw KERNEL_LOAD_PHYS KERNEL_MAX_PAGES w of (False, w) \<Rightarrow> Some (Hang w)
      | (True, w) \<Rightarrow>
     (case read_kernel_file fw root w of None \<Rightarrow> None
      | Some (None, w) \<Rightarrow> Some (Hang w)
      | Some (Some bs, w) \<Rightarrow>
         let ((info, modes), w) = setup_gop efi_info fw w
         in if header_word mem bs 0 \<noteq> KERNEL_MAGIC then Some (Hang w)
            else
             let info = info\<lparr>kernel_size := header_word mem bs 1\<rparr>;
                 entry = ucast (header_word mem bs 2)
             in case alloc_pool fw (24 * E820_MAX_ENTRIES) w of (None, w) \<Rightarrow> None
              | (Some emap, w) \<Rightarrow>
                 let (n, w) = map_length fw w; cap = n + 4
                 in case alloc_pool fw (desc_size fw * cap) w of (None, w) \<Rightarrow> None
                  | (Some buf, w) \<Rightarrow>
                   (case memory_map fw cap w of (None, w) \<Rightarrow> None
                    | (Some (ds, key), w) \<Rightarrow>
                       let (es, total_kb) = convert_map ds [] 0;
                           info = info\<lparr>e820_count := of_nat (length es), e820_map_addr := ucast emap,
                             total_ram_kb := (if total_kb > 0xFFFFFFFF then 0xFFFFFFFF else ucast total_kb),
                             ram_source := 1\<rparr>
                       in case find_our_image_handle our_addr fw w of (None, w) \<Rightarrow> Some (Hang w)
                        | (Some img, w) \<Rightarrow>
                         (case leave_firmware img key cap fw w of
                            (False, w) \<Rightarrow> Some (Hang w)
                          | (True, w) \<Rightarrow> Some (Enter entry info es modes bs w))))))"

section \<open>The memory map the kernel gets\<close>

lemma convert_map_take:
  "length es \<le> 128 \<Longrightarrow> fst (convert_map ds es kb) = es @ map convert_entry (take (128 - length es) ds)"
proof (induction ds arbitrary: es kb)
  case (Cons d ds)
  show ?case
  proof (cases "length es < 128")
    case True
    then have "128 - length es = Suc (128 - length (es @ [convert_entry d]))" by simp
    then show ?thesis using Cons.IH [of "es @ [convert_entry d]"] True by (simp add: Let_def)
  qed simp
qed simp

text \<open>The pages a descriptor describes; descriptors start at pages and do not wrap around.\<close>

definition desc_pages :: "efi_desc \<Rightarrow> nat set" where
  "desc_pages d = {unat (d_start d) div 4096 ..< unat (d_start d) div 4096 + unat (d_pages d)}"

definition desc_ok :: "efi_desc \<Rightarrow> bool" where
  "desc_ok d \<longleftrightarrow> 4096 dvd unat (d_start d) \<and> unat (d_start d) + unat (d_pages d) * 4096 + 4096 \<le> 2 ^ 64"

fun descs_disjoint :: "efi_desc list \<Rightarrow> bool" where
  "descs_disjoint [] \<longleftrightarrow> True"
| "descs_disjoint (d # ds) \<longleftrightarrow> (\<forall>e\<in>set ds. desc_pages d \<inter> desc_pages e = {}) \<and> descs_disjoint ds"

lemma convert_entry_pages:
  assumes "desc_ok d"
  shows "entry_pages mp (convert_entry d)
    = (if d_type d = EfiConventionalMemory then {p \<in> desc_pages d. p < unat mp} else {})"
proof -
  let ?s = "unat (d_start d)" and ?n = "unat (d_pages d)"
  have f: "e_type (convert_entry d) = E820_FREE \<longleftrightarrow> d_type d = EfiConventionalMemory"
    by (cases "d_type d") (simp_all add: uefi_type_to_e820_def convert_entry_def)
  have b: "?s + ?n * 4096 + 4096 \<le> 2 ^ 64" and m: "4096 dvd ?s" using assms by (auto simp: desc_ok_def)
  have l: "unat (d_pages d * 4096) = ?n * 4096" using unat_mult_fits [of "d_pages d" 4096] b by simp
  have e: "unat (entry_end (convert_entry d)) = ?s div 4096 + ?n"
  proof -
    have "unat (d_start d + d_pages d * 4096) = ?s + ?n * 4096"
      using unat_add_fits [of "d_start d" "d_pages d * 4096"] b l by simp
    then show ?thesis by (simp add: entry_end_def convert_entry_def unat_div)
  qed
  have "unat (4095 + d_start d) = 4095 + ?s" using unat_add_fits [of 4095 "d_start d"] b by simp
  moreover obtain k where "?s = 4096 * k" using m by blast
  moreover have "(4095 + 4096 * k) div 4096 = k" for k :: nat by simp
  ultimately have s: "unat (entry_start (convert_entry d)) = ?s div 4096"
    by (simp add: entry_start_def convert_entry_def unat_div)
  have "unat (min (entry_end (convert_entry d)) mp) = min (?s div 4096 + ?n) (unat mp)"
    by (simp add: min_def word_le_nat_alt e)
  then show ?thesis
    by (auto simp: entry_pages_def s desc_pages_def f)
qed

text \<open>
  C22: From a firmware map whose descriptors are whole pages that do not overlap, the loader makes a
  map that frees each page once, and the pages it frees are the conventional memory of the first 128
  descriptors: it is a map on which the kernel's \<^verbatim>\<open>pmm_init\<close> is correct.
\<close>

theorem uefi_map_for_pmm:
  assumes "descs_disjoint ds" and "\<forall>d\<in>set ds. desc_ok d"
  shows "let es = fst (convert_map ds [] 0) in
    length es \<le> 128 \<and> entries_disjoint mp es \<and>
    (\<Union>e\<in>set es. entry_pages mp e)
      = {p. p < unat mp \<and> (\<exists>d\<in>set (take 128 ds). d_type d = EfiConventionalMemory \<and> p \<in> desc_pages d)}"
proof -
  have es: "fst (convert_map ds [] 0) = map convert_entry (take 128 ds)" using convert_map_take [of "[]" ds 0] by simp
  have ok: "\<forall>d\<in>set (take 128 ds). desc_ok d" using assms(2) by (meson in_set_takeD)
  have dj: "descs_disjoint (take n ds)" for n
    using assms(1)
  proof (induction ds arbitrary: n)
    case (Cons d ds)
    then show ?case by (cases n) (auto dest: in_set_takeD)
  qed simp
  have "entries_disjoint mp (map convert_entry xs)" if "descs_disjoint xs" "\<forall>d\<in>set xs. desc_ok d" for xs
    using that by (induction xs) (fastforce simp: convert_entry_pages)+
  then have "entries_disjoint mp (map convert_entry (take 128 ds))" using dj ok by blast
  then show ?thesis using ok by (auto simp: Let_def es convert_entry_pages split: if_splits)
qed

definition small_descs :: "efi_desc list" where
  "small_descs = [\<lparr>d_type = EfiConventionalMemory, d_start = 0x1000, d_pages = 0x9F\<rparr>,
     \<lparr>d_type = EfiOtherMemory 2, d_start = 0x100000, d_pages = 0x800\<rparr>,
     \<lparr>d_type = EfiConventionalMemory, d_start = 0x900000, d_pages = 0x1000\<rparr>]"

lemma uefi_map_for_pmm_witness:
  "entries_disjoint 0x1900 (fst (convert_map small_descs [] 0))
    \<and> 0x901 \<in> (\<Union>e\<in>set (fst (convert_map small_descs [] 0)). entry_pages 0x1900 e)"
proof -
  have "descs_disjoint small_descs" by (auto simp: small_descs_def desc_pages_def)
  moreover have "\<forall>d\<in>set small_descs. desc_ok d" by (simp add: small_descs_def desc_ok_def)
  ultimately show ?thesis
    using uefi_map_for_pmm [of small_descs "0x1900"] by (simp add: Let_def) (simp add: small_descs_def desc_pages_def)
qed

section \<open>The kernel file\<close>

text \<open>What reading relies on: a read gives some of the bytes that are left, at most as many as asked for.\<close>

definition serves :: "'w firmware \<Rightarrow> u64 \<Rightarrow> ('w \<Rightarrow> u8 list) \<Rightarrow> bool" where
  "serves fw f rest \<longleftrightarrow> (\<forall>n w. 0 < n \<longrightarrow> (\<exists>k. k \<le> n \<and> (rest w \<noteq> [] \<longrightarrow> 0 < k) \<and>
     fst (read_file fw f n w) = Some (take k (rest w)) \<and> rest (snd (read_file fw f n w)) = drop k (rest w)))"

lemma read_chunks_all:
  assumes "serves fw f rest"
  shows "length got \<le> MAX_KERNEL \<Longrightarrow> \<exists>w'. read_chunks fw f got w
    = Some (if length got + length (rest w) < MAX_KERNEL then Some (got @ rest w) else None, w')"
proof (induction "length (rest w)" arbitrary: got w rule: less_induct)
  case less
  let ?n = "min (MAX_KERNEL - length got) 1048576"
  show ?case
  proof (cases "length got = MAX_KERNEL")
    case True
    then show ?thesis by (subst read_chunks.simps) simp
  next
    case False
    then have n: "0 < ?n" using less.prems by simp
    then obtain k where k: "k \<le> ?n" "rest w \<noteq> [] \<longrightarrow> 0 < k" "fst (read_file fw f ?n w) = Some (take k (rest w))"
      "rest (snd (read_file fw f ?n w)) = drop k (rest w)" using assms unfolding serves_def by blast
    obtain w1 where r: "read_file fw f ?n w = (Some (take k (rest w)), w1)" "rest w1 = drop k (rest w)"
      using k(3,4) by (cases "read_file fw f ?n w") simp
    have u: "read_chunks fw f got w = (if take k (rest w) = [] then Some (Some got, close_file fw f w1)
        else read_chunks fw f (got @ take k (rest w)) w1)"
      by (subst read_chunks.simps) (simp only: Let_def less_imp_neq [OF n, symmetric] if_False r(1) prod.case option.case)
    show ?thesis
    proof (cases "rest w = []")
      case True
      then show ?thesis using less.prems False u by simp
    next
      case nonempty: False
      then have "length (rest w1) < length (rest w)" using k(2) r(2) by simp
      moreover have "length (got @ take k (rest w)) \<le> MAX_KERNEL"
        using k(1) less.prems by (auto simp: min_def split: if_splits)
      ultimately have ih: "\<exists>w'. read_chunks fw f (got @ take k (rest w)) w1
        = Some (if length (got @ take k (rest w)) + length (rest w1) < MAX_KERNEL
                then Some ((got @ take k (rest w)) @ rest w1) else None, w')" by (rule less.hyps)
      have "length (got @ take k (rest w)) + length (rest w1) = length got + length (rest w)"
        "(got @ take k (rest w)) @ rest w1 = got @ rest w" using r(2) by simp_all
      note ih' = ih [unfolded this]
      have "read_chunks fw f got w = read_chunks fw f (got @ take k (rest w)) w1" using u k(2) nonempty by simp
      then show ?thesis using ih' by (simp only:)
    qed
  qed
qed

text \<open>
  C23: However the firmware cuts the file into pieces, reading ends, and gives the whole file when it
  is smaller than 8 MiB and an error otherwise.
\<close>

theorem uefi_reads_kernel:
  assumes "serves fw f rest" and "open_kernel fw root w = (Some f, w1)"
  shows "\<exists>w'. read_kernel_file fw root w
    = Some (if length (rest w1) < MAX_KERNEL then Some (rest w1) else None, w')"
  using read_chunks_all [OF assms(1), of "[]" w1] assms(2) by (auto simp: read_kernel_file_def)

text \<open>A firmware whose state is the rest of the one file, read at most two bytes at a time.\<close>

definition tiny_firmware :: "u8 list firmware" where
  "tiny_firmware = \<lparr>fs_handles = (\<lambda>w. (Some [5], w)), image_handles = (\<lambda>w. (Some [6], w)),
     loaded_image = (\<lambda>h w. (Some (0x1000, 0x1000), w)), open_volume = (\<lambda>h w. (Some 7, w)),
     open_kernel = (\<lambda>r w. (Some 8, w)), close_file = (\<lambda>f w. w),
     read_file = (\<lambda>f n w. (Some (take (min n 2) w), drop (min n 2) w)), alloc_at = (\<lambda>a n w. (True, w)),
     alloc_pool = (\<lambda>n w. (Some 0x5000, w)), locate_gop = (\<lambda>w. (None, w)), query_mode = (\<lambda>i w. (None, w)),
     map_length = (\<lambda>w. (3, w)), desc_size = 48, memory_map = (\<lambda>n w. (Some (small_descs, 1), w)),
     exit_boot = (\<lambda>h k w. (True, w))\<rparr>"

lemma uefi_reads_kernel_witness:
  "\<exists>w'. read_kernel_file tiny_firmware 7 [1, 2, 3, 4, 5] = Some (Some [1, 2, 3, 4, 5], w')"
proof -
  have "serves tiny_firmware 8 id" unfolding serves_def
  proof (intro allI impI)
    fix n :: nat and w :: "u8 list"
    assume "0 < n"
    then show "\<exists>k. k \<le> n \<and> (id w \<noteq> [] \<longrightarrow> 0 < k) \<and> fst (read_file tiny_firmware 8 n w) = Some (take k (id w))
        \<and> id (snd (read_file tiny_firmware 8 n w)) = drop k (id w)"
      by (intro exI [of _ "min n 2"]) (simp add: tiny_firmware_def)
  qed
  from uefi_reads_kernel [OF this, of 7 "[1, 2, 3, 4, 5]" "[1, 2, 3, 4, 5]"] show ?thesis
    by (simp add: tiny_firmware_def)
qed

section \<open>What the kernel is handed\<close>

text \<open>The kernel is entered only with a valid header, and finds all entries of the map.\<close>

lemma collect_gop_keeps:
  "boot_type (fst (fst (setup_gop info fw w))) = boot_type info"
  by (simp add: setup_gop_def collect_gop_modes_def Let_def split: option.splits prod.splits)

lemma efi_main_hands_over:
  assumes "efi_main our_addr mem fw w = Some (Enter entry info es modes bs w')"
  shows "header_word mem bs 0 = KERNEL_MAGIC \<and> entry = ucast (header_word mem bs 2)
    \<and> kernel_size info = header_word mem bs 1 \<and> boot_type info = 1
    \<and> e820_entries info es = es \<and> (\<exists>ds. es = map convert_entry (take 128 ds))"
proof -
  obtain w1 w2 i ds kb where s: "setup_gop efi_info fw w1 = ((i, modes), w2)" "boot_type info = boot_type i"
    "convert_map ds [] 0 = (es, kb)" "e820_count info = of_nat (length es)"
    "kernel_size info = header_word mem bs 1" "header_word mem bs 0 = KERNEL_MAGIC"
    "entry = ucast (header_word mem bs 2)"
  proof -
    show thesis using assms that unfolding efi_main_def
      by (auto simp: Let_def split: option.splits prod.splits if_splits bool.splits)
  qed
  have e: "es = map convert_entry (take 128 ds)" using s(3) convert_map_take [of "[]" ds 0] by simp
  then have "length es \<le> 128" by simp
  then have "unat (of_nat (length es) :: u16) = length es" by (intro unat_of_nat_fits) simp
  then have "e820_entries info es = es" by (simp add: e820_entries_def s(4))
  then show ?thesis using s e collect_gop_keeps [of efi_info fw w1] by (auto simp: efi_info_def)
qed

end
