(* ===== verification/Kernel_Image.thy ===== *)
theory Kernel_Image
  imports Uefi
begin

text \<open>
  The header the kernel's image begins with, \<^verbatim>\<open>KernelHeader\<close> in \<^verbatim>\<open>src/src/kernel/kernel.h\<close> and
  \<^verbatim>\<open>kernel_header\<close> in \<^verbatim>\<open>src/src/kernel/kernel.c\<close>, and what the loader reads from it.  The build
  fills in size and entry point after linking.
\<close>

record KernelHeader =
  h_magic :: u32
  h_kernel_size :: u32
  h_entry_point :: u32
  h_version :: u32
  h_checksum :: u32
  h_reserved :: "u8 list"

definition kernel_header :: KernelHeader where
  "kernel_header = \<lparr>h_magic = KERNEL_MAGIC, h_kernel_size = 0, h_entry_point = 0, h_version = 1,
     h_checksum = 0, h_reserved = replicate 12 0\<rparr>"

text \<open>The bytes of the packed structure.\<close>

definition image_header_bytes :: "KernelHeader \<Rightarrow> u8 list" where
  "image_header_bytes h = bytes32 (h_magic h) @ bytes32 (h_kernel_size h) @ bytes32 (h_entry_point h)
     @ bytes32 (h_version h) @ bytes32 (h_checksum h) @ h_reserved h"

text \<open>The first code byte lies at offset 32, as \<^verbatim>\<open>Kernel_main\<close> expects.\<close>

lemma header_is_32_bytes: "length (image_header_bytes kernel_header) = 32"
  by (simp add: image_header_bytes_def kernel_header_def bytes32_def)

text \<open>The loader finds the fields at the words it looks at, whatever the memory held before.\<close>

lemma header_words:
  "header_word mem (image_header_bytes h @ code) 0 = h_magic h"
  "header_word mem (image_header_bytes h @ code) 1 = h_kernel_size h"
  "header_word mem (image_header_bytes h @ code) 2 = h_entry_point h"
  by (simp_all add: header_word_def Let_def image_header_bytes_def bytes32_def u32_of_bytes)

text \<open>A kernel with that header is entered at its entry point, with its size in the boot information.\<close>

lemma header_entry_is_used:
  assumes "efi_main our_addr mem fw w
      = Some (Enter entry info es modes
          (image_header_bytes (kernel_header\<lparr>h_kernel_size := n, h_entry_point := start\<rparr>) @ code) w')"
  shows "entry = ucast start" "kernel_size info = n" "boot_type info = 1" "e820_entries info es = es"
  using efi_main_hands_over [OF assms] by (simp_all add: header_words header_words(2) [unfolded One_nat_def] kernel_header_def)

text \<open>A file with another first word is refused: the loader stays in its endless loop.\<close>

lemma other_magic_not_entered:
  assumes "h_magic h \<noteq> KERNEL_MAGIC"
  shows "efi_main our_addr mem fw w \<noteq> Some (Enter entry info es modes (image_header_bytes h @ code) w')"
  using efi_main_hands_over [of our_addr mem fw w entry info es modes "image_header_bytes h @ code" w'] assms
  by (auto simp: header_words)

end
