(* ===== verification/Spec2Isabelle.thy ===== *)
theory Spec2Isabelle
  imports Running Reaper Shell_Dirs Typed_Line Vmm Ata Kernel_Image
begin

text \<open>
  LivlyOS, a 64-bit kernel in C with a UEFI boot loader.  This development translates its C code
  into HOL functions and proves what they compute.

  \<^bold>\<open>The program.\<close>  The boot loader (\<^verbatim>\<open>src/src/boot/UEFI\<close>) loads the kernel's image, converts the
  firmware's memory map and hands both over in a \<^verbatim>\<open>BootInfo\<close>.  \<^verbatim>\<open>Kernel_main\<close>
  (\<^verbatim>\<open>src/src/kernel/kernel.c\<close>) sets up descriptors, interrupts, timer and keyboard, the page
  allocator, the heap and the file system, adds three processes (shell, idle, reaper) and enters the
  first one with \<^verbatim>\<open>iretq\<close>.  From then on every timer interrupt goes through
  \<^verbatim>\<open>exception_handler\<close> to \<^verbatim>\<open>schedule\<close>, which exchanges the saved frame for that of the next
  process, and every keyboard interrupt puts a byte into a ring buffer from which shell and editor
  read.  They print on a console that is either the VGA text mode or a grid on the framebuffer, and
  work on a FAT32 volume that the ATA driver reads and writes sector by sector.

  \<^bold>\<open>Theories.\<close>  One theory per part, in the order of their dependencies; the names of the source
  are kept.
  \<^item> \<open>Livly_Prelude\<close>: machine integer types, the two shapes of counting loop, lemmas on words.
  \<^item> \<open>Boot_Info\<close> (\<^verbatim>\<open>kernel.h\<close>): \<^verbatim>\<open>BootInfo\<close> and the entries of the memory map.
  \<^item> \<open>Pmm\<close> (\<^verbatim>\<open>mm/pmm.c\<close>), \<open>Kmalloc\<close> (\<^verbatim>\<open>mm/kmalloc.c\<close>), \<open>Vmm\<close> (\<^verbatim>\<open>mm/vmm.c\<close>): the record
    \<open>pmm\<close> is the file's static variables with the bitmap as a list of bytes; the heap is a map from
    addresses to headers; page tables are words in a map from physical addresses.
  \<^item> \<open>Process\<close>, \<open>Scheduler\<close> (\<^verbatim>\<open>proc/\<close>): control blocks in a map from addresses, with the heap and
    the page allocator in one record \<open>kern\<close>; the ring of processes is a chain of its pointers.
  \<^item> \<open>Port_IO\<close> (\<^verbatim>\<open>io.h\<close>, \<^verbatim>\<open>timer.c\<close>), \<open>Keyboard\<close>, \<open>Gdt\<close>, \<open>Idt\<close>, \<open>Machine\<close>: port instructions,
    the keyboard driver, descriptors as the bytes the processor reads, gates and the common
    interrupt handler, and the machine that interrupts act on.
  \<^item> \<open>Vga\<close>, \<open>Font\<close>, \<open>Framebuffer\<close>, \<open>Fb_Console\<close>, \<open>Console\<close>: text cells, pixels in byte memory, the
    grid on them, and the console with \<^verbatim>\<open>kprintf\<close> on top.
  \<^item> \<open>Fat_Layout\<close>, \<open>Fat_Table\<close>, \<open>Fat_Files\<close> (\<^verbatim>\<open>drivers/fs/fat.c\<close>): structures as bytes, the
    allocation table behind its one-sector cache, directories, files and paths; \<open>Fat_Data\<close> proves
    what writing into a file does to the volume, \<open>Fat_Dirs\<close> what creating, entering and leaving a
    directory does.  \<open>Ata\<close> (\<^verbatim>\<open>drivers/fs/ata.c\<close>): the disk driver, port by port.
  \<^item> \<open>Editor\<close>, \<open>Editor_File\<close>, \<open>Editor_App\<close> (\<^verbatim>\<open>Apps/Editor/editor.c\<close>): the buffer, loading and
    saving, drawing and the loop over the keys.
  \<^item> \<open>System\<close> joins console, file system, processes, editor and clock in one record;
    \<open>Shell\<close>, \<open>Shell_Line\<close> (\<^verbatim>\<open>shell/shell.c\<close>), \<open>Stress_Test\<close> (\<^verbatim>\<open>stress_test.c\<close>) work on it.
    \<open>Shell_Files\<close> follows a file through shell, volume, heap and console, \<open>Edit_Session\<close> a text
    through create, the editor and cat, \<open>Shell_Dirs\<close> a directory through mkdir and cd, and
    \<open>Typed_Line\<close> the keys of a line from the keyboard's port through the ring buffer to
    \<^verbatim>\<open>shell_execute\<close>.
  \<^item> \<open>Boot\<close> (\<^verbatim>\<open>kernel.c\<close>) composes them; \<open>Uefi\<close> (\<^verbatim>\<open>boot/UEFI/uefi_boot.c\<close>) comes before,
    with \<open>Kernel_Image\<close> for the header of the image it loads.  \<open>Running\<close> joins \<open>Boot\<close> and
    \<open>Machine\<close>: what holds from the start on under any interrupts.  \<open>Reaper\<close> is the process
    \<^verbatim>\<open>reaper_process\<close> with its output, and the way of a process from \<^verbatim>\<open>taskkill\<close> to the free lists.

  \<^bold>\<open>Interfaces.\<close>  What a part promises to its callers is a locale, proved once for every client and
  interpreted on the code's model where that is defined:
  \<^item> \<open>allocator\<close> and \<open>counting_allocator\<close> (what is handed out is fresh, what is freed is free again):
    the heap in \<open>Kmalloc\<close>, the pages in \<open>Pmm\<close>; used by the processes, the reaper and the tests.
  \<^item> \<open>bounded_fifo\<close>: the keyboard's ring buffer, under any interleaving of interrupts and readers.
  \<^item> \<open>linked_table\<close> (following a chain of clusters through the cache): the allocation table.
  \<^item> \<open>text_screen\<close>: both screens and the console; \<open>canvas\<close>: the framebuffer's pixels.
  \<^item> \<open>text_buffer\<close> (insert before the cursor, delete backwards): the editor's lines and the shell's
    input line.

  \<^bold>\<open>What is shown.\<close>
  \<^item> Memory: \<^verbatim>\<open>pmm_init\<close> frees exactly the usable pages and counts them, \<^verbatim>\<open>pmm_alloc\<close> takes the lowest
    one; \<^verbatim>\<open>kmalloc\<close> refines first fit and \<^verbatim>\<open>kfree\<close> the release with merging, on an abstract list of
    segments; \<^verbatim>\<open>map_page\<close> is an update of a map of pages; the self-test of the page allocator passes.
  \<^item> Processes: a tick is round robin over the live processes, none starves, the reaper frees exactly
    the zombies it can see, a process killed from the shell among them, whose block and stack are
    free again after a bounded number of ticks; every sequence of hardware interrupts keeps the machine in order.
  \<^item> Start: the loader's map is one that \<^verbatim>\<open>pmm_init\<close> accepts and the kernel's file is read whole;
    \<^verbatim>\<open>Kernel_main\<close> reaches the state the theorems on interrupts start from, and from there on no
    sequence of hardware interrupts leaves it, and each of the three processes gets the processor
    again within a bounded number of ticks.
  \<^item> Files: allocation, extension and walking of chains, reading whole files, entries as bytes; a
    created file gives back the data written to it, also through \<^verbatim>\<open>cat\<close>, and other files keep theirs; a new
    directory can be entered and left, which ends where one was; the sectors the file system transfers are those the driver moves on a drive that keeps its protocol.
  \<^item> Input and output: keys arrive in order, printing a format prints its text, numbers read back,
    drawing stays inside the framebuffer, lines are connected.
  \<^item> Editor and shell: keys edit the text as a list with a cursor, undo and backspace restore it,
    opening and saving, the shell runs the line that was typed and recalls earlier ones.  The keys
    of a line pressed on the keyboard end in the execution of that line, and a text typed into a new
    file with the editor is what \<^verbatim>\<open>cat\<close> shows.

  \<^bold>\<open>Conventions.\<close>  Unsigned integers of C are words of their width and wrap around.  Signed
  \<^verbatim>\<open>int\<close>s are \<open>int\<close> where the code keeps them in a range that the invariants bound (cursors, sizes,
  indices), and words read with \<open>sint\<close> where they may overflow (\<^verbatim>\<open>print_zahl\<close>).  Pointers are their
  addresses, the null pointer is 0.  \<open>None\<close> stands for a loop that does not end and for accesses C
  leaves undefined; theorems that say a function returns show \<open>Some\<close>.  Loops without an obvious bound
  are \<open>partial_function\<close>s (list walks, the reads of the loader, the waits of the driver, Bresenham's
  line); bounds the code itself has are arguments: \<open>TIMEOUT\<close> = 100000 turns of a wait for the
  keyboard's controller, 100 steps of a reaper's pass, 256 entries of descriptor tables.  Umlauts in
  messages are spelled out.

  \<^bold>\<open>Parameters and assumptions.\<close>  Devices behind ports, the drive with its clock and the firmware's
  services are parameters; \<open>ata_drive\<close> and \<open>serves\<close> state what the code relies on of them, and each has
  an instance.  \<open>Fat_Table\<close> and \<open>Fat_Files\<close> let every transfer of a sector succeed, which \<open>Ata\<close> shows
  of such a drive.  Memory accesses are not reordered.  Interrupts act between the operations of the
  interrupted code, not inside them: the kernel has one processor, and the theorems on interleavings
  (\<open>Fifo\<close>, \<open>Machine\<close>) treat the data both sides touch.

  \<^bold>\<open>Not modelled.\<close>  The assembly files (first stages of the BIOS boot, the interrupt stubs, which are
  known by their addresses) and inline assembly beyond its effect on the state (loading registers,
  \<^verbatim>\<open>hlt\<close>, the flush of the translation cache); the loader's messages on the firmware's console;
  the bytes inside heap blocks other than the structures named above.
\<close>

end
